(* ===== verification/Tun_Prelude.thy ===== *)
theory Tun_Prelude
  imports Main "HOL-Library.Word" "HOL-Library.Monad_Syntax"
begin

text \<open>
  What every component of the tuntap model shares: the machine types, the Go slice with its
  capacity, the slice operations with their run-time bounds checks, the big- and little-endian
  codecs of \<^verbatim>\<open>encoding/binary\<close>, the errors of the package as values, and the lemma
  collections the component proofs run on.

  Conventions. A Go \<^verbatim>\<open>int\<close> is an \<open>int\<close> (all indices of the package are bounded by
  slice lengths before they are added, so its 64-bit wrap-around is never met); \<^verbatim>\<open>uint8\<close> to
  \<^verbatim>\<open>uint64\<close> are words and wrap. A run-time panic is the value \<open>None\<close> of an option; a Go
  \<^verbatim>\<open>error\<close> that is returned is a value \<open>Inl e\<close> inside it. A write through a slice that aliases a
  buffer is a write to that buffer.
\<close>

unbundle bit_operations_syntax

section \<open>Machine types and lemma collections\<close>

type_synonym byte = "8 word"
type_synonym u16 = "16 word"
type_synonym u32 = "32 word"
type_synonym u64 = "64 word"

text \<open>\<open>slice_simps\<close>: what a slice operation does when its bounds hold. \<open>byte_simps\<close>: lengths and
  values of encoded bytes.\<close>

named_theorems slice_simps
named_theorems byte_simps

text \<open>\<open>no_panic\<close>: introduction rules that split \<open>x \<noteq> None\<close> along the code of \<open>x\<close>.\<close>

named_theorems no_panic

text \<open>\<open>run_elims\<close>: elimination rules that follow one run of the code, branch by branch.\<close>

named_theorems run_elims

lemma run_if [run_elims]:
  "(if b then x else y) = z \<Longrightarrow> (b \<Longrightarrow> x = z \<Longrightarrow> P) \<Longrightarrow> (\<not> b \<Longrightarrow> y = z \<Longrightarrow> P) \<Longrightarrow> P"
  by (simp split: if_splits)

lemma run_bind [run_elims]:
  "Option.bind x f = Some z \<Longrightarrow> (\<And>v. x = Some v \<Longrightarrow> f v = Some z \<Longrightarrow> P) \<Longrightarrow> P"
  by (cases x) auto

lemma run_sum [run_elims]:
  "case_sum f g x = z \<Longrightarrow> (\<And>e. x = Inl e \<Longrightarrow> f e = z \<Longrightarrow> P) \<Longrightarrow> (\<And>v. x = Inr v \<Longrightarrow> g v = z \<Longrightarrow> P) \<Longrightarrow> P"
  by (cases x) auto

lemma run_option [run_elims]:
  "case_option f g x = z \<Longrightarrow> (x = None \<Longrightarrow> f = z \<Longrightarrow> P) \<Longrightarrow> (\<And>v. x = Some v \<Longrightarrow> g v = z \<Longrightarrow> P) \<Longrightarrow> P"
  by (cases x) auto

lemma run_prod [run_elims]:
  "case_prod f x = z \<Longrightarrow> (\<And>a b. x = (a, b) \<Longrightarrow> f a b = z \<Longrightarrow> P) \<Longrightarrow> P"
  by (cases x) auto

lemma no_panic_Some [no_panic]: "Some x \<noteq> None"
  by simp

lemma no_panic_if [no_panic]:
  "(b \<Longrightarrow> x \<noteq> None) \<Longrightarrow> (\<not> b \<Longrightarrow> y \<noteq> None) \<Longrightarrow> (if b then x else y) \<noteq> None"
  by simp

lemma no_panic_bind [no_panic]:
  "x \<noteq> None \<Longrightarrow> (\<And>v. x = Some v \<Longrightarrow> f v \<noteq> None) \<Longrightarrow> Option.bind x f \<noteq> None"
  by (cases x) auto

lemma no_panic_sum [no_panic]:
  "(\<And>e. x = Inl e \<Longrightarrow> f e \<noteq> None) \<Longrightarrow> (\<And>v. x = Inr v \<Longrightarrow> g v \<noteq> None) \<Longrightarrow> case_sum f g x \<noteq> None"
  by (cases x) auto

lemma no_panic_option [no_panic]:
  "(x = None \<Longrightarrow> f \<noteq> None) \<Longrightarrow> (\<And>v. x = Some v \<Longrightarrow> g v \<noteq> None) \<Longrightarrow> case_option f g x \<noteq> None"
  by (cases x) auto

lemma no_panic_prod [no_panic]:
  "(\<And>a b. x = (a, b) \<Longrightarrow> f a b \<noteq> None) \<Longrightarrow> case_prod f x \<noteq> None"
  by (cases x) auto

text \<open>\<^verbatim>\<open>binary.NativeEndian\<close> is the byte order of the machine, a parameter of the model.\<close>

datatype endian = LittleEndian | BigEndian

text \<open>\<open>returns x P\<close>: the code \<open>x\<close> does not panic and its result satisfies \<open>P\<close>. \<open>returns_intros\<close> has one
  introduction rule per construct.\<close>

definition returns :: "'a option \<Rightarrow> ('a \<Rightarrow> bool) \<Rightarrow> bool" where
  "returns x P = (case x of None \<Rightarrow> False | Some r \<Rightarrow> P r)"

named_theorems returns_intros

lemma returns_iff: "returns x P \<longleftrightarrow> (\<exists>r. x = Some r \<and> P r)"
  by (simp add: returns_def split: option.split)

lemma returns_Some [returns_intros]: "P r \<Longrightarrow> returns (Some r) P"
  by (simp add: returns_def)

lemma returns_if [returns_intros]:
  "(b \<Longrightarrow> returns x P) \<Longrightarrow> (\<not> b \<Longrightarrow> returns y P) \<Longrightarrow> returns (if b then x else y) P"
  by simp

lemma returns_bind [returns_intros]:
  "x \<noteq> None \<Longrightarrow> (\<And>v. x = Some v \<Longrightarrow> returns (f v) P) \<Longrightarrow> returns (Option.bind x f) P"
  by (cases x) auto

lemma returns_sum [returns_intros]:
  "(\<And>e. x = Inl e \<Longrightarrow> returns (f e) P) \<Longrightarrow> (\<And>v. x = Inr v \<Longrightarrow> returns (g v) P) \<Longrightarrow> returns (case_sum f g x) P"
  by (cases x) auto

lemma returns_option [returns_intros]:
  "(x = None \<Longrightarrow> returns f P) \<Longrightarrow> (\<And>v. x = Some v \<Longrightarrow> returns (g v) P) \<Longrightarrow> returns (case_option f g x) P"
  by (cases x) auto

lemma returns_call:
  "returns x Q \<Longrightarrow> (\<And>v. x = Some v \<Longrightarrow> Q v \<Longrightarrow> returns (f v) P) \<Longrightarrow> returns (Option.bind x f) P"
  by (cases x) (auto simp: returns_def)

lemma returns_mono: "returns x P \<Longrightarrow> (\<And>r. x = Some r \<Longrightarrow> P r \<Longrightarrow> Q r) \<Longrightarrow> returns x Q"
  by (auto simp: returns_def split: option.splits)

section \<open>Errors as values\<close>

text \<open>The errors of the package, each with the arguments of its format string. \<open>SysErr n\<close> is an
  errno handed up from the operating system.\<close>

datatype go_error =
    ErrShortBuffer
  | ErrShortOutput int int int        \<comment> \<open>buffer, required, available (shortBufferError)\<close>
  | ErrShortSizes int int             \<comment> \<open>needed, present\<close>
  | ErrTooManySegments int int        \<comment> \<open>needed, present\<close>
  | ErrInvalidOffset
  | ErrOutputOffset int int int       \<comment> \<open>buffer, offset, length\<close>
  | ErrGsoSizeZero
  | ErrGsoEmpty
  | ErrIPVersion byte bool
  | ErrGsoHeaderFamily
  | ErrGsoType byte
  | ErrIPHeaderLen int int
  | ErrHdrLenBeforeCsumStart int int
  | ErrPacketLenBeforeHdrLen int int
  | ErrNoPayload
  | ErrChecksumPosition int int
  | ErrTransportHeaderLen int
  | ErrTCPHeaderMismatch int int
  | ErrChecksumOffset u16
  | ErrSegmentTooLong int int
  | ErrSegmentTransportTooLong int int
  | ErrIPHeaderVersion byte byte
  | ErrInvalidIPVersion byte
  | ErrCsumStartTooLarge u16
  | ErrPacketTooShort
  | ErrTCPHeaderLen u16
  | ErrClosed
  | SysErr nat
  | ErrMsg string                     \<comment> \<open>\<^verbatim>\<open>errors.New\<close>\<close>
  | ErrWrap string go_error           \<comment> \<open>\<^verbatim>\<open>fmt.Errorf\<close> with \<^verbatim>\<open>%w\<close>\<close>

text \<open>\<^verbatim>\<open>errors.Is(err, io.ErrShortBuffer)\<close>: the errors that are or wrap it.\<close>

fun is_short_buffer :: "go_error \<Rightarrow> bool" where
  "is_short_buffer ErrShortBuffer = True"
| "is_short_buffer (ErrShortOutput b r a) = True"
| "is_short_buffer (ErrShortSizes r a) = True"
| "is_short_buffer (ErrWrap m e) = is_short_buffer e"
| "is_short_buffer e = False"

text \<open>\<^verbatim>\<open>errors.Is(err, target)\<close> for a target without an \<^verbatim>\<open>Is\<close> method: the error, or one that it wraps, is the target.\<close>

fun errors_is :: "go_error \<Rightarrow> go_error \<Rightarrow> bool" where
  "errors_is (ErrWrap m e) target = (ErrWrap m e = target \<or> errors_is e target)"
| "errors_is e target = (e = target)"

lemma errors_is_refl [simp]: "errors_is e e"
  by (cases e) simp_all

section \<open>Splicing bytes into a list\<close>

text \<open>Every write of the package replaces a run of bytes in place.\<close>

definition splice :: "'a list \<Rightarrow> nat \<Rightarrow> 'a list \<Rightarrow> 'a list" where
  "splice xs i ys = take i xs @ ys @ drop (i + length ys) xs"

lemma length_splice [simp]: "i + length ys \<le> length xs \<Longrightarrow> length (splice xs i ys) = length xs"
  by (simp add: splice_def)

lemma splice_Nil [simp]: "splice xs i [] = xs"
  by (simp add: splice_def)

lemma nth_splice:
  "i + length ys \<le> length xs \<Longrightarrow> j < length xs \<Longrightarrow>
   splice xs i ys ! j = (if i \<le> j \<and> j < i + length ys then ys ! (j - i) else xs ! j)"
  by (auto simp: splice_def nth_append)

lemma take_splice_before [simp]: "n \<le> i \<Longrightarrow> i \<le> length xs \<Longrightarrow> take n (splice xs i ys) = take n xs"
  by (simp add: splice_def min_def)

lemma take_splice:
  "i + length ys \<le> n \<Longrightarrow> n \<le> length xs \<Longrightarrow> take n (splice xs i ys) = splice (take n xs) i ys"
  by (auto simp: splice_def drop_take take_append dest!: le_Suc_ex)

lemma drop_splice_after [simp]:
  "i + length ys \<le> n \<Longrightarrow> n \<le> length xs \<Longrightarrow> drop n (splice xs i ys) = drop n xs"
  by (simp add: splice_def)

lemma drop_splice_before:
  "n \<le> i \<Longrightarrow> i + length ys \<le> length xs \<Longrightarrow> drop n (splice xs i ys) = splice (drop n xs) (i - n) ys"
  by (simp add: splice_def drop_take)

lemma take_drop_splice_same [simp]:
  "i + length ys \<le> length xs \<Longrightarrow> n = length ys \<Longrightarrow> take n (drop i (splice xs i ys)) = ys"
  by (simp add: splice_def)

lemma splice_append1 [simp]:
  "i + length ys \<le> length xs \<Longrightarrow> splice (xs @ zs) i ys = splice xs i ys @ zs"
  by (simp add: splice_def)

lemma splice_append2 [simp]:
  "length xs \<le> i \<Longrightarrow> splice (xs @ zs) i ys = xs @ splice zs (i - length xs) ys"
  by (simp add: splice_def)

lemma splice_whole [simp]: "length ys = length xs \<Longrightarrow> splice xs 0 ys = ys"
  by (simp add: splice_def)

lemma splice_splice_same [simp]:
  "length ys = length zs \<Longrightarrow> i + length ys \<le> length xs \<Longrightarrow> splice (splice xs i ys) i zs = splice xs i zs"
  by (simp add: splice_def)

lemma splice_single: "i < length xs \<Longrightarrow> splice xs i [x] = xs[i := x]"
  by (simp add: splice_def upd_conv_take_nth_drop)

lemma splice_two: "i + 2 \<le> length xs \<Longrightarrow> splice (splice xs i [a]) (Suc i) [b] = splice xs i [a, b]"
  by (simp add: splice_def drop_Suc min_def take_add)

lemma nat_int_plus [simp]:
  "nat (int n + numeral k) = n + numeral k" "nat (int n + 1) = Suc n" "nat (int n + int m) = n + m"
  "nat (int n + int m + numeral k) = n + m + numeral k" "nat (int n + int m + 1) = Suc (n + m)"
  by (simp_all add: nat_add_distrib)

section \<open>Byte codecs\<close>

text \<open>The value of a big-endian run of bytes, and the bytes of a value.\<close>

fun be_nat :: "byte list \<Rightarrow> nat" where
  "be_nat [] = 0"
| "be_nat (b # bs) = unat b * 256 ^ length bs + be_nat bs"

fun nat_be :: "nat \<Rightarrow> nat \<Rightarrow> byte list" where
  "nat_be 0 v = []"
| "nat_be (Suc n) v = of_nat (v div 256 ^ n) # nat_be n v"

definition native_nat :: "endian \<Rightarrow> byte list \<Rightarrow> nat" where
  "native_nat en bs = (case en of LittleEndian \<Rightarrow> be_nat (rev bs) | BigEndian \<Rightarrow> be_nat bs)"

definition nat_native :: "endian \<Rightarrow> nat \<Rightarrow> nat \<Rightarrow> byte list" where
  "nat_native en n v = (case en of LittleEndian \<Rightarrow> rev (nat_be n v) | BigEndian \<Rightarrow> nat_be n v)"

lemma length_nat_be [simp, byte_simps]: "length (nat_be n v) = n"
  by (induction n) auto

lemma length_nat_native [simp, byte_simps]: "length (nat_native en n v) = n"
  by (simp add: nat_native_def split: endian.split)

lemma unat_less_power: "unat (w :: 'a::len word) < 2 ^ LENGTH('a)"
  by (rule unsigned_less)

lemma unat_mod_self [simp]:
  "unat (a :: byte) mod 256 = unat a" "unat (b :: u16) mod 65536 = unat b"
  "unat (c :: u32) mod 4294967296 = unat c"
  using unat_less_power [of a] unat_less_power [of b] unat_less_power [of c] by simp_all

lemma be_nat_bound: "be_nat bs < 256 ^ length bs"
proof (induction bs)
  case (Cons b bs)
  have "unat b < 256" using unat_less_power [of b] by simp
  then have "Suc (unat b) * 256 ^ length bs \<le> 256 * (256 :: nat) ^ length bs"
    by (intro mult_le_mono1) (rule Suc_leI)
  then have "256 ^ length bs + unat b * 256 ^ length bs \<le> 256 ^ Suc (length bs)"
    by (simp only: mult_Suc power_Suc)
  with Cons.IH have "unat b * 256 ^ length bs + be_nat bs < 256 ^ Suc (length bs)" by linarith
  then show ?case by simp
qed simp

lemma be_nat_append: "be_nat (xs @ ys) = be_nat xs * 256 ^ length ys + be_nat ys"
  by (induction xs) (auto simp: algebra_simps power_add)

lemma be_nat_nat_be [simp]: "be_nat (nat_be n v) = v mod 256 ^ n"
proof (induction n)
  case (Suc n)
  have "unat (of_nat (v div 256 ^ n) :: byte) = v div 256 ^ n mod 256"
    by (simp add: unat_of_nat take_bit_eq_mod)
  moreover have "v mod (256 * 256 ^ n) = 256 ^ n * (v div 256 ^ n mod 256) + v mod 256 ^ n"
    using mod_mult2_eq [of v "256 ^ n" 256] by (simp add: mult.commute)
  ultimately show ?case using Suc by simp
qed simp

lemma nat_be_mod: "n \<le> m \<Longrightarrow> nat_be n (v mod 256 ^ m) = nat_be n v"
proof (induction n)
  case (Suc n)
  then obtain k where m: "m = Suc (n + k)" by (metis Suc_le_D add_Suc_right le_Suc_ex Suc_le_lessD less_iff_Suc_add)
  have "v mod 256 ^ m div 256 ^ n = v div 256 ^ n mod 256 ^ Suc k"
    using mod_mult2_eq [of v "256 ^ n" "256 ^ Suc k"] by (simp add: m power_add ac_simps)
  moreover have "(of_nat (x mod 256 ^ Suc k) :: byte) = of_nat x" for x
    by (rule word_unat_eq_iff [THEN iffD2]) (simp add: unat_of_nat take_bit_eq_mod mod_mod_cancel)
  ultimately show ?case using Suc by simp
qed simp

lemma nat_be_be_nat [simp]: "length bs = n \<Longrightarrow> nat_be n (be_nat bs) = bs"
proof (induction bs arbitrary: n)
  case (Cons b bs)
  have "be_nat bs < 256 ^ length bs" by (rule be_nat_bound)
  then have "(unat b * 256 ^ length bs + be_nat bs) div 256 ^ length bs = unat b"
    by (simp add: div_mult_self3)
  moreover have "nat_be (length bs) (unat b * 256 ^ length bs + be_nat bs) = bs"
  proof -
    have "nat_be (length bs) (unat b * 256 ^ length bs + be_nat bs)
        = nat_be (length bs) ((unat b * 256 ^ length bs + be_nat bs) mod 256 ^ length bs)"
      by (rule nat_be_mod [symmetric]) simp
    also have "(unat b * 256 ^ length bs + be_nat bs) mod 256 ^ length bs = be_nat bs"
      using be_nat_bound [of bs] by simp
    finally show ?thesis using Cons.IH by simp
  qed
  ultimately show ?case using Cons.prems by auto
qed simp

lemma native_nat_nat_native [simp]: "native_nat en (nat_native en n v) = v mod 256 ^ n"
  by (simp add: native_nat_def nat_native_def split: endian.split)

lemma nat_native_native_nat [simp]: "length bs = n \<Longrightarrow> nat_native en n (native_nat en bs) = bs"
  by (simp add: native_nat_def nat_native_def split: endian.split)

lemma native_nat_bound: "native_nat en bs < 256 ^ length bs"
  using be_nat_bound [of bs] be_nat_bound [of "rev bs"] by (simp add: native_nat_def split: endian.split)

text \<open>\<^verbatim>\<open>PutUint16\<close> and \<^verbatim>\<open>PutUint32\<close> of \<^verbatim>\<open>binary.BigEndian\<close>.\<close>

definition be16 :: "u16 \<Rightarrow> byte list" where
  "be16 v = nat_be 2 (unat v)"

definition be32 :: "u32 \<Rightarrow> byte list" where
  "be32 v = nat_be 4 (unat v)"

lemma length_be16 [simp, byte_simps]: "length (be16 v) = 2"
  by (simp add: be16_def)

lemma length_be32 [simp, byte_simps]: "length (be32 v) = 4"
  by (simp add: be32_def)

lemma be_nat_be16 [simp, byte_simps]: "be_nat (be16 v) = unat v"
  using unat_less_power [of v] by (simp add: be16_def)

lemma be_nat_be32 [simp, byte_simps]: "be_nat (be32 v) = unat v"
  using unat_less_power [of v] by (simp add: be32_def)

lemma be16_of_nat_be_nat [simp]: "length bs = 2 \<Longrightarrow> be16 (of_nat (be_nat bs)) = bs"
  using be_nat_bound [of bs] by (simp add: be16_def unat_of_nat take_bit_nat_eq_self)

lemma be32_of_nat_be_nat [simp]: "length bs = 4 \<Longrightarrow> be32 (of_nat (be_nat bs)) = bs"
  using be_nat_bound [of bs] by (simp add: be32_def unat_of_nat take_bit_nat_eq_self)

section \<open>Word arithmetic within range\<close>

lemma uint16_add: "uint x + uint y < 65536 \<Longrightarrow> uint (x + y :: u16) = uint x + uint y"
  by (simp add: uint_word_ariths)

lemma uint16_diff: "uint y \<le> uint x \<Longrightarrow> uint (x - y :: u16) = uint x - uint y"
proof -
  assume "uint y \<le> uint x"
  moreover have "uint x < 65536" "0 \<le> uint y" using uint_range_size [of x] by (auto simp: word_size)
  ultimately have "0 \<le> uint x - uint y" "uint x - uint y < 65536" by linarith+
  then show ?thesis by (simp add: uint_word_ariths)
qed

lemma word_of_uint: "uint (x :: 'a::len word) = int n \<Longrightarrow> x = of_nat n"
proof -
  assume "uint x = int n"
  then have "word_of_int (uint x) = (of_nat n :: 'a word)" by simp
  then show ?thesis by simp
qed

section \<open>Go slices\<close>

text \<open>
  A \<^verbatim>\<open>[]byte\<close>: \<open>sarr\<close> holds the bytes from the slice's first byte to the end of its backing array
  (so its length is the slice's \<^verbatim>\<open>cap\<close>), \<open>slen\<close> is its \<^verbatim>\<open>len\<close>. The bytes behind \<open>slen\<close> are
  memory the caller did not make visible.
\<close>

record gslice =
  sarr :: "byte list"
  slen :: nat

definition scap :: "gslice \<Rightarrow> nat" where
  "scap s = length (sarr s)"

definition wf_slice :: "gslice \<Rightarrow> bool" where
  "wf_slice s \<longleftrightarrow> slen s \<le> length (sarr s)"

text \<open>The visible bytes, and the memory behind them.\<close>

definition vis :: "gslice \<Rightarrow> byte list" where
  "vis s = take (slen s) (sarr s)"

definition hidden :: "gslice \<Rightarrow> byte list" where
  "hidden s = drop (slen s) (sarr s)"

text \<open>A slice over exactly the given bytes.\<close>

definition of_bytes :: "byte list \<Rightarrow> gslice" where
  "of_bytes bs = \<lparr>sarr = bs, slen = length bs\<rparr>"

lemma vis_of_bytes [simp]: "vis (of_bytes bs) = bs"
  and slen_of_bytes [simp]: "slen (of_bytes bs) = length bs"
  and wf_of_bytes [simp]: "wf_slice (of_bytes bs)"
  by (simp_all add: of_bytes_def vis_def wf_slice_def)

lemma length_vis [simp]: "wf_slice s \<Longrightarrow> length (vis s) = slen s"
  by (simp add: wf_slice_def vis_def)

lemma vis_hidden: "vis s @ hidden s = sarr s"
  by (simp add: vis_def hidden_def)

text \<open>\<^verbatim>\<open>s[i]\<close>, \<^verbatim>\<open>s[i] = b\<close>, \<^verbatim>\<open>s[lo:hi]\<close> and \<^verbatim>\<open>s[lo:]\<close>. An index is checked against \<^verbatim>\<open>len\<close>, the upper
  bound of a slice expression against \<^verbatim>\<open>cap\<close>.\<close>

definition rd :: "gslice \<Rightarrow> int \<Rightarrow> byte option" where
  "rd s i = (if 0 \<le> i \<and> i < int (slen s) then Some (sarr s ! nat i) else None)"

definition wr :: "gslice \<Rightarrow> int \<Rightarrow> byte \<Rightarrow> gslice option" where
  "wr s i b = (if 0 \<le> i \<and> i < int (slen s) then Some (s\<lparr>sarr := splice (sarr s) (nat i) [b]\<rparr>) else None)"

definition sub :: "gslice \<Rightarrow> int \<Rightarrow> int \<Rightarrow> gslice option" where
  "sub s lo hi = (if 0 \<le> lo \<and> lo \<le> hi \<and> hi \<le> int (length (sarr s))
     then Some \<lparr>sarr = drop (nat lo) (sarr s), slen = nat (hi - lo)\<rparr> else None)"

definition sub_from :: "gslice \<Rightarrow> int \<Rightarrow> gslice option" where
  "sub_from s lo = sub s lo (int (slen s))"

text \<open>The writes through a slice \<open>t = s[lo:...]\<close> seen in \<open>s\<close>: they share memory.\<close>

definition put_back :: "gslice \<Rightarrow> int \<Rightarrow> gslice \<Rightarrow> gslice" where
  "put_back s lo t = s\<lparr>sarr := take (nat lo) (sarr s) @ sarr t\<rparr>"

text \<open>\<^verbatim>\<open>copy(dst, src)\<close> copies as many bytes as the shorter of the two has.\<close>

definition copy :: "gslice \<Rightarrow> gslice \<Rightarrow> gslice" where
  "copy dst src = dst\<lparr>sarr := splice (sarr dst) 0 (take (slen dst) (vis src))\<rparr>"

text \<open>\<^verbatim>\<open>copy(dst[lo:hi], src[lo':hi'])\<close>, seen in \<open>dst\<close>.\<close>

definition copy_range :: "gslice \<Rightarrow> int \<Rightarrow> int \<Rightarrow> gslice \<Rightarrow> int \<Rightarrow> int \<Rightarrow> gslice option" where
  "copy_range dst lo hi src lo' hi' = do {
     d \<leftarrow> sub dst lo hi;
     s \<leftarrow> sub src lo' hi';
     Some (put_back dst lo (copy d s))
   }"

text \<open>\<^verbatim>\<open>binary.BigEndian\<close> reads and writes at \<^verbatim>\<open>s[i:]\<close>; they check their bounds first.\<close>

definition get16 :: "gslice \<Rightarrow> int \<Rightarrow> u16 option" where
  "get16 s i = (if 0 \<le> i \<and> i + 2 \<le> int (slen s)
     then Some (of_nat (be_nat (take 2 (drop (nat i) (sarr s))))) else None)"

definition get32 :: "gslice \<Rightarrow> int \<Rightarrow> u32 option" where
  "get32 s i = (if 0 \<le> i \<and> i + 4 \<le> int (slen s)
     then Some (of_nat (be_nat (take 4 (drop (nat i) (sarr s))))) else None)"

definition put16 :: "gslice \<Rightarrow> int \<Rightarrow> u16 \<Rightarrow> gslice option" where
  "put16 s i v = (if 0 \<le> i \<and> i + 2 \<le> int (slen s)
     then Some (s\<lparr>sarr := splice (sarr s) (nat i) (be16 v)\<rparr>) else None)"

definition put32 :: "gslice \<Rightarrow> int \<Rightarrow> u32 \<Rightarrow> gslice option" where
  "put32 s i v = (if 0 \<le> i \<and> i + 4 \<le> int (slen s)
     then Some (s\<lparr>sarr := splice (sarr s) (nat i) (be32 v)\<rparr>) else None)"

text \<open>\<^verbatim>\<open>append(s, make([]byte, n)...)\<close>: in place while the capacity lasts, a fresh array otherwise (with
  the smallest capacity Go may choose).\<close>

definition append_zeros :: "gslice \<Rightarrow> nat \<Rightarrow> gslice" where
  "append_zeros s n =
     (if slen s + n \<le> scap s
      then \<lparr>sarr = splice (sarr s) (slen s) (replicate n 0), slen = slen s + n\<rparr>
      else \<lparr>sarr = vis s @ replicate n 0, slen = slen s + n\<rparr>)"

text \<open>An element of a slice of slices or of ints.\<close>

definition elem :: "'a list \<Rightarrow> int \<Rightarrow> 'a option" where
  "elem xs i = (if 0 \<le> i \<and> i < int (length xs) then Some (xs ! nat i) else None)"

definition set_elem :: "'a list \<Rightarrow> int \<Rightarrow> 'a \<Rightarrow> 'a list option" where
  "set_elem xs i x = (if 0 \<le> i \<and> i < int (length xs) then Some (xs[nat i := x]) else None)"

subsection \<open>The operations within their bounds\<close>

lemma rd_ok [slice_simps]: "i < slen s \<Longrightarrow> wf_slice s \<Longrightarrow> rd s (int i) = Some (vis s ! i)"
  by (simp add: rd_def vis_def wf_slice_def)

lemma wr_ok [slice_simps]:
  "i < slen s \<Longrightarrow> wf_slice s \<Longrightarrow> wr s (int i) b = Some (s\<lparr>sarr := splice (sarr s) i [b]\<rparr>)"
  by (simp add: wr_def)

lemma sub_ok [slice_simps]:
  "lo \<le> hi \<Longrightarrow> hi \<le> length (sarr s) \<Longrightarrow>
   sub s (int lo) (int hi) = Some \<lparr>sarr = drop lo (sarr s), slen = hi - lo\<rparr>"
  by (simp add: sub_def nat_diff_distrib')

lemma sub_from_ok [slice_simps]:
  "lo \<le> slen s \<Longrightarrow> wf_slice s \<Longrightarrow>
   sub_from s (int lo) = Some \<lparr>sarr = drop lo (sarr s), slen = slen s - lo\<rparr>"
  by (simp add: sub_from_def sub_ok wf_slice_def)

lemma get16_ok [slice_simps]:
  "i + 2 \<le> slen s \<Longrightarrow> wf_slice s \<Longrightarrow> get16 s (int i) = Some (of_nat (be_nat (take 2 (drop i (vis s)))))"
  by (simp add: get16_def vis_def wf_slice_def drop_take min_def)

lemma get32_ok [slice_simps]:
  "i + 4 \<le> slen s \<Longrightarrow> wf_slice s \<Longrightarrow> get32 s (int i) = Some (of_nat (be_nat (take 4 (drop i (vis s)))))"
  by (simp add: get32_def vis_def wf_slice_def drop_take min_def)

lemma put16_ok [slice_simps]:
  "i + 2 \<le> slen s \<Longrightarrow> put16 s (int i) v = Some (s\<lparr>sarr := splice (sarr s) i (be16 v)\<rparr>)"
  by (simp add: put16_def)

lemma put32_ok [slice_simps]:
  "i + 4 \<le> slen s \<Longrightarrow> put32 s (int i) v = Some (s\<lparr>sarr := splice (sarr s) i (be32 v)\<rparr>)"
  by (simp add: put32_def)

lemma elem_ok [slice_simps]: "i < length xs \<Longrightarrow> elem xs (int i) = Some (xs ! i)"
  by (simp add: elem_def)

lemma set_elem_ok [slice_simps]: "i < length xs \<Longrightarrow> set_elem xs (int i) x = Some (xs[i := x])"
  by (simp add: set_elem_def)

text \<open>Reading a part of a slice; replacing a middle part \<open>Y\<close> of one.\<close>

lemma vis_sub:
  "wf_slice s \<Longrightarrow> lo + n \<le> slen s \<Longrightarrow> vis \<lparr>sarr = drop lo (sarr s), slen = n\<rparr> = take n (drop lo (vis s))"
  by (simp add: vis_def wf_slice_def drop_take min_def)

lemma sub_middle:
  "lo = length X \<Longrightarrow> n \<le> length A \<Longrightarrow>
   sub \<lparr>sarr = X @ A, slen = m\<rparr> (int lo) (int lo + int n) = Some \<lparr>sarr = A, slen = n\<rparr>"
  by (simp add: sub_def)

lemma copy_range_middle:
  assumes "wf_slice src" and "a + n \<le> slen src" and "length X = lo" and "length Y = n" and "lo + n \<le> hi"
    and "hi \<le> length X + length Y + length R"
  shows "copy_range \<lparr>sarr = X @ Y @ R, slen = m\<rparr> (int lo) (int hi) src (int a) (int (a + n))
    = Some \<lparr>sarr = X @ take n (drop a (vis src)) @ R, slen = m\<rparr>"
proof -
  have "sub src (int a) (int (a + n)) = Some \<lparr>sarr = drop a (sarr src), slen = n\<rparr>"
    using assms(1,2) by (subst sub_ok) (auto simp: wf_slice_def)
  moreover have "sub \<lparr>sarr = X @ Y @ R, slen = m\<rparr> (int lo) (int hi) = Some \<lparr>sarr = Y @ R, slen = hi - lo\<rparr>"
    using assms by (subst sub_ok) auto
  moreover have "take (hi - lo) (take n (drop a (vis src))) = take n (drop a (vis src))"
    using assms by (intro take_all) simp
  then have "copy \<lparr>sarr = Y @ R, slen = hi - lo\<rparr> \<lparr>sarr = drop a (sarr src), slen = n\<rparr>
      = \<lparr>sarr = take n (drop a (vis src)) @ R, slen = hi - lo\<rparr>"
    using assms by (simp add: copy_def vis_sub splice_def)
  ultimately show ?thesis using assms(3) by (simp add: copy_range_def put_back_def)
qed

text \<open>What the visible bytes become.\<close>

lemma wf_splice [simp]:
  "wf_slice s \<Longrightarrow> i + length ys \<le> length (sarr s) \<Longrightarrow> wf_slice (s\<lparr>sarr := splice (sarr s) i ys\<rparr>)"
  by (simp add: wf_slice_def)

lemma vis_splice [simp]:
  "wf_slice s \<Longrightarrow> i + length ys \<le> slen s \<Longrightarrow> vis (s\<lparr>sarr := splice (sarr s) i ys\<rparr>) = splice (vis s) i ys"
  by (simp add: vis_def wf_slice_def take_splice)

lemma hidden_splice [simp]:
  "wf_slice s \<Longrightarrow> i + length ys \<le> slen s \<Longrightarrow> hidden (s\<lparr>sarr := splice (sarr s) i ys\<rparr>) = hidden s"
  by (simp add: hidden_def wf_slice_def)

subsection \<open>Slices of slices\<close>

lemma sub_from_total: "lo \<le> slen s \<Longrightarrow> wf_slice s \<Longrightarrow> sub_from s (int lo) \<noteq> None"
  by (simp add: sub_from_def sub_def wf_slice_def)

lemma sub_total: "lo \<le> hi \<Longrightarrow> hi \<le> length (sarr s) \<Longrightarrow> sub s (int lo) (int hi) \<noteq> None"
  by (simp add: sub_def)

lemma sub_from_eq: "sub_from s lo = Some t \<Longrightarrow> 0 \<le> lo \<and> lo \<le> int (slen s) \<and> t = \<lparr>sarr = drop (nat lo) (sarr s), slen = slen s - nat lo\<rparr>"
  by (auto simp: sub_from_def sub_def nat_diff_distrib' split: if_splits)

lemma wf_sub_from: "sub_from s lo = Some t \<Longrightarrow> wf_slice s \<Longrightarrow> wf_slice t"
  by (drule sub_from_eq) (auto simp: wf_slice_def)

lemma vis_sub_from: "sub_from s lo = Some t \<Longrightarrow> vis t = drop (nat lo) (vis s)"
  by (drule sub_from_eq) (auto simp: vis_def drop_take)

text \<open>A change of the bytes of a packet that leaves its length and the memory behind it alone.\<close>

definition set_vis :: "gslice \<Rightarrow> byte list \<Rightarrow> gslice" where
  "set_vis s bs = s\<lparr>sarr := bs @ hidden s\<rparr>"

lemma set_vis_simps [simp]:
  "slen (set_vis s bs) = slen s" "length bs = slen s \<Longrightarrow> wf_slice (set_vis s bs)"
  "length bs = slen s \<Longrightarrow> vis (set_vis s bs) = bs" "length bs = slen s \<Longrightarrow> hidden (set_vis s bs) = hidden s"
  "length bs = slen s \<Longrightarrow> set_vis (set_vis s bs) cs = set_vis s cs"
  by (simp_all add: set_vis_def wf_slice_def vis_def hidden_def)

lemma set_vis_vis [simp]: "set_vis s (vis s) = s"
  by (simp add: set_vis_def vis_hidden)

lemma splice_set_vis: "wf_slice s \<Longrightarrow> i + length ys \<le> slen s \<Longrightarrow> s\<lparr>sarr := splice (sarr s) i ys\<rparr> = set_vis s (splice (vis s) i ys)"
  using vis_hidden [of s, symmetric] by (simp add: set_vis_def)

lemma put16_vis: "wf_slice s \<Longrightarrow> i + 2 \<le> slen s \<Longrightarrow> put16 s (int i) v = Some (set_vis s (splice (vis s) i (be16 v)))"
  by (simp add: put16_ok splice_set_vis)

lemma wr_vis: "wf_slice s \<Longrightarrow> i < slen s \<Longrightarrow> wr s (int i) v = Some (set_vis s (splice (vis s) i [v]))"
  by (simp add: wr_ok splice_set_vis)

text \<open>The packet at an offset of a buffer, changed in place.\<close>

lemma put_back_vis:
  assumes "wf_slice buf" "off \<le> slen buf" and pkt: "sub_from buf (int off) = Some pkt" and "length bs = slen pkt"
  shows "put_back buf (int off) (set_vis pkt bs) = set_vis buf (take off (vis buf) @ bs)"
proof -
  have "hidden pkt = hidden buf" using sub_from_eq [OF pkt] assms(1) by (simp add: hidden_def)
  then show ?thesis using assms(1,2) by (simp add: put_back_def set_vis_def vis_def wf_slice_def min_def)
qed

end
