(* ===== verification/Checksum.thy ===== *)
theory Checksum
  imports Tun_Prelude
begin

text \<open>
  \<^verbatim>\<open>checksum.go\<close>: the unrolled 64-bit Internet checksum. \<open>checksumNoFold\<close>, \<open>checksum\<close> and
  \<open>pseudoHeaderChecksumNoFold\<close> follow the code for either byte order of the machine. The lemmas
  show that the end-around carries never lose a carry, and that the result is the ones'-complement
  sum of the big-endian 16-bit words (RFC 1071) whatever the byte order.
\<close>

section \<open>The code\<close>

text \<open>\<^verbatim>\<open>bits.Add64\<close>: the sum with carry, and the carry out.\<close>

definition add64 :: "u64 \<Rightarrow> u64 \<Rightarrow> u64 \<Rightarrow> u64 \<times> u64" where
  "add64 x y carry = (x + y + carry, if 2 ^ 64 \<le> unat x + unat y + unat carry then 1 else 0)"

text \<open>The run of \<open>n\<close> additions of 8-byte words, each taking the carry of the one before.\<close>

fun add_words :: "endian \<Rightarrow> nat \<Rightarrow> byte list \<Rightarrow> u64 \<Rightarrow> u64 \<Rightarrow> u64 \<times> u64" where
  "add_words en 0 b ac carry = (ac, carry)"
| "add_words en (Suc n) b ac carry =
     (case add64 ac (of_nat (native_nat en (take 8 b))) carry of
        (ac', carry') \<Rightarrow> add_words en n (drop 8 b) ac' carry')"

text \<open>A block of \<open>n\<close> words followed by \<^verbatim>\<open>ac += carry\<close>.\<close>

definition add_block :: "endian \<Rightarrow> nat \<Rightarrow> byte list \<Rightarrow> u64 \<Rightarrow> u64" where
  "add_block en n b ac = (case add_words en n b ac 0 of (ac', carry) \<Rightarrow> ac' + carry)"

text \<open>The loop over 128-byte blocks.\<close>

function blocks128 :: "endian \<Rightarrow> byte list \<Rightarrow> u64 \<Rightarrow> byte list \<times> u64" where
  "blocks128 en b ac =
     (if 128 \<le> length b then blocks128 en (drop 128 b) (add_block en 16 b ac) else (b, ac))"
  by pat_completeness auto
termination
  by (relation "measure (\<lambda>(en, b, ac). length b)") auto

declare blocks128.simps [simp del]

text \<open>The conditional blocks of 64, 32, 16 and 8 bytes (\<open>n\<close> words), and of 4 and 2 bytes.\<close>

definition block_step :: "endian \<Rightarrow> nat \<Rightarrow> byte list \<times> u64 \<Rightarrow> byte list \<times> u64" where
  "block_step en n = (\<lambda>(b, ac).
     if 8 * n \<le> length b then (drop (8 * n) b, add_block en n b ac) else (b, ac))"

definition tail_step :: "endian \<Rightarrow> nat \<Rightarrow> byte list \<times> u64 \<Rightarrow> byte list \<times> u64" where
  "tail_step en k = (\<lambda>(b, ac).
     if k \<le> length b
     then (case add64 ac (of_nat (native_nat en (take k b))) 0 of (ac', carry) \<Rightarrow> (drop k b, ac' + carry))
     else (b, ac))"

text \<open>The last odd byte is padded with a zero byte.\<close>

definition last_step :: "endian \<Rightarrow> byte list \<times> u64 \<Rightarrow> u64" where
  "last_step en = (\<lambda>(b, ac).
     if length b = 1
     then (case add64 ac (of_nat (native_nat en [b ! 0, 0])) 0 of (ac', carry) \<Rightarrow> ac' + carry)
     else ac)"

text \<open>\<^verbatim>\<open>PutUint64\<close> in native order, read back big-endian: the byte swap on both ends.\<close>

definition native_be64 :: "endian \<Rightarrow> u64 \<Rightarrow> u64" where
  "native_be64 en x = of_nat (be_nat (nat_native en 8 (unat x)))"

definition checksumNoFold :: "endian \<Rightarrow> byte list \<Rightarrow> u64 \<Rightarrow> u64" where
  "checksumNoFold en b initial =
     native_be64 en
       (last_step en (tail_step en 2 (tail_step en 4
         (block_step en 1 (block_step en 2 (block_step en 4 (block_step en 8
           (blocks128 en b (native_be64 en initial)))))))))"

definition fold_once :: "u64 \<Rightarrow> u64" where
  "fold_once ac = drop_bit 16 ac + (ac AND 0xffff)"

definition checksum :: "endian \<Rightarrow> byte list \<Rightarrow> u64 \<Rightarrow> u16" where
  "checksum en b initial = ucast (fold_once (fold_once (fold_once (fold_once (checksumNoFold en b initial)))))"

definition pseudoHeaderChecksumNoFold :: "endian \<Rightarrow> byte \<Rightarrow> byte list \<Rightarrow> byte list \<Rightarrow> u16 \<Rightarrow> u64" where
  "pseudoHeaderChecksumNoFold en protocol srcAddr dstAddr totalLen =
     (let sum = checksumNoFold en srcAddr 0;
          sum = checksumNoFold en dstAddr sum;
          sum = checksumNoFold en [0, protocol] sum
      in checksumNoFold en (be16 totalLen) sum)"

section \<open>The ones'-complement sum\<close>

text \<open>The sum of the big-endian 16-bit words of the bytes, an odd last byte padded with zero, and its
  reduction to 16 bits with end-around carry: a positive sum never reduces to zero.\<close>

fun be16_sum :: "byte list \<Rightarrow> nat" where
  "be16_sum [] = 0"
| "be16_sum [x] = unat x * 256"
| "be16_sum (x # y # bs) = unat x * 256 + unat y + be16_sum bs"

definition oc :: "nat \<Rightarrow> nat" where
  "oc n = (if n = 0 then 0 else (n - 1) mod 65535 + 1)"

text \<open>Two numbers that stand for the same ones'-complement value.\<close>

definition oc_rel :: "nat \<Rightarrow> nat \<Rightarrow> bool" where
  "oc_rel a n \<longleftrightarrow> a mod 65535 = n mod 65535 \<and> (a = 0 \<longleftrightarrow> n = 0)"

lemma oc_rel_refl [simp, intro]: "oc_rel a a"
  by (simp add: oc_rel_def)

lemma oc_rel_sym: "oc_rel a b \<Longrightarrow> oc_rel b a"
  by (simp add: oc_rel_def)

lemma oc_rel_trans [trans]: "oc_rel a b \<Longrightarrow> oc_rel b c \<Longrightarrow> oc_rel a c"
  by (simp add: oc_rel_def)

lemma oc_rel_add: "oc_rel a n \<Longrightarrow> oc_rel b m \<Longrightarrow> oc_rel (a + b) (n + m)"
  by (auto simp: oc_rel_def intro: mod_add_cong)

lemma oc_rel_mult: "0 < k \<Longrightarrow> oc_rel a n \<Longrightarrow> oc_rel (k * a) (k * n)"
  by (auto simp: oc_rel_def intro: mod_mult_cong)

lemma oc_rel_multiple: "k mod 65535 = 1 \<Longrightarrow> oc_rel (k * a) a"
  using mod_mult_cong [of k 65535 1 a a] by (auto simp: oc_rel_def intro!: Nat.gr0I)

lemma oc_bound: "oc n \<le> 65535"
  by (auto simp: oc_def Suc_leI)

lemma oc_rel_oc: "oc_rel (oc n) n"
proof (cases n)
  case (Suc m)
  then have "oc n mod 65535 = n mod 65535"
    by (simp add: oc_def mod_Suc_eq)
  with Suc show ?thesis by (simp add: oc_rel_def oc_def)
qed (simp add: oc_def)

lemma oc_unique: "oc_rel a n \<Longrightarrow> a \<le> 65535 \<Longrightarrow> oc n = a"
proof -
  assume a: "oc_rel a n" "a \<le> 65535"
  have r: "oc_rel (oc n) a" using oc_rel_oc a(1) oc_rel_sym oc_rel_trans by blast
  consider "a = 65535" | "a < 65535" using a(2) by linarith
  then show ?thesis
  proof cases
    case 1
    with r have "oc n mod 65535 = 0" "oc n \<noteq> 0" by (auto simp: oc_rel_def)
    with oc_bound [of n] 1 show ?thesis by (cases "oc n = 65535") auto
  next
    case 2
    with r oc_bound [of n] show ?thesis
      by (cases "oc n = 65535") (auto simp: oc_rel_def)
  qed
qed

lemma oc_cong: "oc_rel a b \<Longrightarrow> oc a = oc b"
  by (rule oc_unique [OF oc_rel_trans [OF oc_rel_oc oc_rel_sym] oc_bound])

lemma be16_sum_append [simp]: "even (length xs) \<Longrightarrow> be16_sum (xs @ ys) = be16_sum xs + be16_sum ys"
  by (induction xs rule: be16_sum.induct) auto

lemma be16_sum_two: "length bs = 2 \<Longrightarrow> be16_sum bs = be_nat bs"
  by (auto simp: length_Suc_conv numeral_2_eq_2)

lemma be16_sum_be16 [simp]: "be16_sum (be16 v) = unat v"
  by (simp add: be16_sum_two)

section \<open>Bytes read in native order\<close>

text \<open>Read in native order, a run of bytes stands for its word sum, byte-swapped on a little-endian
  machine; swapping twice is the identity modulo 65535.\<close>

definition swap :: "endian \<Rightarrow> nat \<Rightarrow> nat" where
  "swap en n = (case en of LittleEndian \<Rightarrow> 256 * n | BigEndian \<Rightarrow> n)"

lemma swap_add [simp]: "swap en (m + n) = swap en m + swap en n"
  by (simp add: swap_def split: endian.split)

lemma oc_rel_swap: "oc_rel a b \<Longrightarrow> oc_rel (swap en a) (swap en b)"
  by (simp add: swap_def oc_rel_mult split: endian.split)

lemma oc_rel_swap_swap: "oc_rel (swap en (swap en a)) a"
  using oc_rel_multiple [of 65536 a] by (simp add: swap_def split: endian.split)

lemma be_nat_eq_0: "be_nat bs = 0 \<longleftrightarrow> (\<forall>b \<in> set bs. b = 0)"
  by (induction bs) (auto simp: unat_eq_zero)

lemma be16_sum_eq_0: "be16_sum bs = 0 \<longleftrightarrow> (\<forall>b \<in> set bs. b = 0)"
  by (induction bs rule: be16_sum.induct) (auto simp: unat_eq_zero)

lemma power_256_even_mod: "even n \<Longrightarrow> 256 ^ n mod 65535 = (1 :: nat)"
proof (elim evenE)
  fix k assume "n = 2 * k"
  then have "(256 :: nat) ^ n mod 65535 = 65536 ^ k mod 65535"
    by (simp add: power_mult)
  also have "\<dots> = (65536 mod 65535) ^ k mod 65535" by (rule power_mod [symmetric])
  finally show ?thesis by simp
qed

lemma be_nat_mod_even: "even (length bs) \<Longrightarrow> be_nat bs mod 65535 = be16_sum bs mod 65535"
proof (induction bs rule: be16_sum.induct)
  case (3 x y bs)
  then have ev: "even (length bs)" by simp
  have "be_nat (x # y # bs) = (unat x * 256 + unat y) * 256 ^ length bs + be_nat bs"
    by (simp add: algebra_simps)
  also have "\<dots> mod 65535 = ((unat x * 256 + unat y) * 1 + be16_sum bs) mod 65535"
    using 3 ev by (intro mod_add_cong mod_mult_cong) (auto simp: power_256_even_mod)
  finally show ?case by simp
qed auto

lemma be_nat_rev_mod_even: "even (length bs) \<Longrightarrow> be_nat (rev bs) mod 65535 = 256 * be16_sum bs mod 65535"
proof (induction bs rule: be16_sum.induct)
  case (3 x y bs)
  have "be_nat (rev (x # y # bs)) = 65536 * be_nat (rev bs) + (unat y * 256 + unat x)"
    by (simp add: be_nat_append)
  also have "\<dots> mod 65535 = (1 * (256 * be16_sum bs) + (unat y * 256 + 65536 * unat x)) mod 65535"
    using 3 mod_mult_cong [of 1 65535 65536 "unat x" "unat x"]
    by (intro mod_add_cong mod_mult_cong) auto
  finally show ?case by (simp add: algebra_simps)
qed auto

lemma native_nat_rel: "even (length bs) \<Longrightarrow> oc_rel (native_nat en bs) (swap en (be16_sum bs))"
  using be_nat_mod_even [of bs] be_nat_rev_mod_even [of bs]
  by (auto simp: oc_rel_def native_nat_def swap_def be_nat_eq_0 be16_sum_eq_0 split: endian.split)

lemma native_nat_last: "oc_rel (native_nat en [b, 0]) (swap en (be16_sum [b]))"
  using oc_rel_sym [OF oc_rel_multiple [of 65536 "unat b"]]
  by (simp add: native_nat_def swap_def split: endian.split)

lemma be_nat_rel: "even (length bs) \<Longrightarrow> oc_rel (be_nat bs) (be16_sum bs)"
  using native_nat_rel [of bs BigEndian] by (simp add: native_nat_def swap_def)

lemma native_be64_rel: "oc_rel (unat (native_be64 en x)) (swap en (unat x))"
proof -
  define l where "l = nat_native en 8 (unat x)"
  have len: "length l = 8" by (simp add: l_def)
  have x: "unat x = native_nat en l" using unat_less_power [of x] by (simp add: l_def)
  have "be_nat l < 2 ^ 64" using be_nat_bound [of l] len by simp
  then have "unat (native_be64 en x) = be_nat l"
    by (simp add: native_be64_def l_def unat_of_nat take_bit_nat_eq_self)
  also have "oc_rel (be_nat l) (be16_sum l)" using len by (intro be_nat_rel) simp
  also have "oc_rel (be16_sum l) (swap en (swap en (be16_sum l)))"
    by (rule oc_rel_sym [OF oc_rel_swap_swap])
  also have "oc_rel (swap en (swap en (be16_sum l))) (swap en (unat x))"
    unfolding x using len by (intro oc_rel_swap oc_rel_sym [OF native_nat_rel]) simp
  finally show ?thesis .
qed

section \<open>No carry is lost\<close>

lemma add64_rel:
  assumes "add64 ac x c = (ac', c')" and "unat ac + unat c < 2 ^ 64"
  shows "oc_rel (unat ac' + unat c') (unat ac + unat c + unat x)" and "unat ac' + unat c' < 2 ^ 64"
proof -
  define S where "S = unat ac + unat c + unat x"
  have x: "unat x < 2 ^ 64" using unat_less_power [of x] by simp
  have S: "S < 2 ^ 65 - 1" using assms(2) x by (simp add: S_def)
  have "ac' = of_nat S" using assms(1) by (simp add: add64_def S_def ac_simps split: prod.splits)
  then have ac': "unat ac' = S mod 2 ^ 64" by (simp add: unat_of_nat take_bit_eq_mod)
  have c': "unat c' = (if 2 ^ 64 \<le> S then 1 else 0)"
    using assms(1) by (auto simp: add64_def S_def ac_simps)
  have "oc_rel (unat ac' + unat c') S \<and> unat ac' + unat c' < 2 ^ 64"
  proof (cases "2 ^ 64 \<le> S")
    case True
    then have eq: "S mod 2 ^ 64 = S - 2 ^ 64" using S by (simp add: mod_nat_eqI)
    then have "S = (unat ac' + unat c') + 65535 * 281479271743489"
      using True ac' c' by simp
    then have "(unat ac' + unat c') mod 65535 = S mod 65535" by (metis mod_mult_self2)
    then show ?thesis using True S ac' c' eq by (auto simp: oc_rel_def)
  next
    case False
    then show ?thesis using ac' c' by simp
  qed
  then show "oc_rel (unat ac' + unat c') (unat ac + unat c + unat x)" "unat ac' + unat c' < 2 ^ 64"
    by (simp_all add: S_def)
qed

lemma unat_native64:
  "length bs \<le> 8 \<Longrightarrow> unat (of_nat (native_nat en bs) :: u64) = native_nat en bs"
proof -
  assume "length bs \<le> 8"
  then have "(256 :: nat) ^ length bs \<le> 256 ^ 8" by (intro power_increasing) auto
  then have "native_nat en bs < 2 ^ 64" using native_nat_bound [of en bs] by simp
  then show ?thesis by (simp add: unat_of_nat take_bit_nat_eq_self)
qed

lemma add_words_rel:
  assumes "8 * n \<le> length b" and "unat ac + unat c < 2 ^ 64" and "add_words en n b ac c = (ac', c')"
  shows "oc_rel (unat ac' + unat c') (unat ac + unat c + swap en (be16_sum (take (8 * n) b)))
    \<and> unat ac' + unat c' < 2 ^ 64"
  using assms
proof (induction n arbitrary: b ac c)
  case 0
  then show ?case by (simp add: swap_def split: endian.split)
next
  case (Suc n)
  obtain a1 c1 where s1: "add64 ac (of_nat (native_nat en (take 8 b))) c = (a1, c1)"
    by (cases "add64 ac (of_nat (native_nat en (take 8 b))) c") auto
  have x: "unat (of_nat (native_nat en (take 8 b)) :: u64) = native_nat en (take 8 b)"
    by (rule unat_native64) simp
  note st = add64_rel [OF s1 Suc.prems(2), unfolded x]
  have ih: "oc_rel (unat ac' + unat c') (unat a1 + unat c1 + swap en (be16_sum (take (8 * n) (drop 8 b))))
      \<and> unat ac' + unat c' < 2 ^ 64"
    using Suc.prems st(2) s1 by (intro Suc.IH) auto
  have len8: "length (take 8 b) = 8" using Suc.prems(1) by simp
  have "oc_rel (unat a1 + unat c1 + swap en (be16_sum (take (8 * n) (drop 8 b))))
     (unat ac + unat c + swap en (be16_sum (take 8 b)) + swap en (be16_sum (take (8 * n) (drop 8 b))))"
    using len8 by (intro oc_rel_add oc_rel_refl oc_rel_trans [OF st(1)] native_nat_rel) simp
  moreover have "take (8 * Suc n) b = take 8 b @ take (8 * n) (drop 8 b)"
    by (simp add: take_add [symmetric])
  ultimately show ?case using ih len8 by (auto simp: add.assoc intro: oc_rel_trans)
qed

lemma unat_plus_carry: "unat (a :: u64) + unat c < 2 ^ 64 \<Longrightarrow> unat (a + c) = unat a + unat c"
  by (simp add: unat_word_ariths)

lemma add_block_rel:
  "8 * n \<le> length b \<Longrightarrow>
   oc_rel (unat (add_block en n b ac)) (unat ac + swap en (be16_sum (take (8 * n) b)))"
  using add_words_rel [of n b ac 0 en] unat_less_power [of ac]
  by (auto simp: add_block_def unat_plus_carry split: prod.split)

text \<open>Between the steps, the accumulator and the bytes still to be read stand for one total.\<close>

definition acc_ok :: "endian \<Rightarrow> nat \<Rightarrow> byte list \<times> u64 \<Rightarrow> bool" where
  "acc_ok en T p \<longleftrightarrow> oc_rel (unat (snd p) + swap en (be16_sum (fst p))) T"

lemma be16_sum_split: "even k \<Longrightarrow> k \<le> length b \<Longrightarrow> be16_sum b = be16_sum (take k b) + be16_sum (drop k b)"
  using be16_sum_append [of "take k b" "drop k b"] by simp

lemma acc_ok_consume:
  assumes "acc_ok en T (b, ac)" and "even k" and "k \<le> length b"
    and "oc_rel (unat ac') (unat ac + swap en (be16_sum (take k b)))"
  shows "acc_ok en T (drop k b, ac')"
proof -
  have "oc_rel (unat ac' + swap en (be16_sum (drop k b)))
      (unat ac + swap en (be16_sum (take k b)) + swap en (be16_sum (drop k b)))"
    using assms(4) by (intro oc_rel_add oc_rel_refl)
  with assms(1) show ?thesis
    using be16_sum_split [OF assms(2,3)] by (auto simp: acc_ok_def add.assoc intro: oc_rel_trans)
qed

lemma blocks128_ok: "acc_ok en T (b, ac) \<Longrightarrow> acc_ok en T (blocks128 en b ac)"
proof (induction en b ac rule: blocks128.induct)
  case (1 en b ac)
  show ?case
  proof (cases "128 \<le> length b")
    case True
    then have "acc_ok en T (drop 128 b, add_block en 16 b ac)"
      using 1(2) add_block_rel [of 16 b en ac] by (intro acc_ok_consume) auto
    with 1(1) True show ?thesis by (simp add: blocks128.simps [of en b])
  next
    case False
    with 1(2) show ?thesis by (simp add: blocks128.simps [of en b])
  qed
qed

lemma blocks128_length: "length (fst (blocks128 en b ac)) < 128"
  by (induction en b ac rule: blocks128.induct) (simp add: blocks128.simps)

lemma block_step_ok: "acc_ok en T p \<Longrightarrow> acc_ok en T (block_step en n p)"
  by (cases p) (auto simp: block_step_def intro!: acc_ok_consume add_block_rel)

lemma tail_step_ok: "acc_ok en T p \<Longrightarrow> even k \<Longrightarrow> k \<le> 8 \<Longrightarrow> acc_ok en T (tail_step en k p)"
proof -
  assume p: "acc_ok en T p" "even k" "k \<le> 8"
  obtain b ac where [simp]: "p = (b, ac)" by (cases p)
  obtain a1 c1 where s1: "add64 ac (of_nat (native_nat en (take k b))) 0 = (a1, c1)"
    by (cases "add64 ac (of_nat (native_nat en (take k b))) 0") auto
  have x: "unat (of_nat (native_nat en (take k b)) :: u64) = native_nat en (take k b)"
    using p(3) by (intro unat_native64) simp
  have "unat ac + unat (0 :: u64) < 2 ^ 64" using unat_less_power [of ac] by simp
  note st = add64_rel [OF s1 this, unfolded x]
  show ?thesis
  proof (cases "k \<le> length b")
    case True
    have "oc_rel (unat (a1 + c1)) (unat ac + swap en (be16_sum (take k b)))"
      unfolding unat_plus_carry [OF st(2)] using st(1) p(2) True
      by (auto intro!: oc_rel_trans [OF st(1)] oc_rel_add native_nat_rel)
    with p True s1 show ?thesis by (auto simp: tail_step_def intro: acc_ok_consume)
  qed (use p in \<open>simp add: tail_step_def\<close>)
qed

lemma last_step_ok: "acc_ok en T p \<Longrightarrow> length (fst p) \<le> 1 \<Longrightarrow> oc_rel (unat (last_step en p)) T"
proof -
  assume p: "acc_ok en T p" "length (fst p) \<le> 1"
  obtain b ac where [simp]: "p = (b, ac)" by (cases p)
  show ?thesis
  proof (cases b)
    case (Cons x xs)
    then have b: "b = [x]" using p(2) by simp
    obtain a1 c1 where s1: "add64 ac (of_nat (native_nat en [x, 0])) 0 = (a1, c1)"
      by (cases "add64 ac (of_nat (native_nat en [x, 0])) 0") auto
    have v: "unat (of_nat (native_nat en [x, 0]) :: u64) = native_nat en [x, 0]"
      by (intro unat_native64) simp
    have "unat ac + unat (0 :: u64) < 2 ^ 64" using unat_less_power [of ac] by simp
    note st = add64_rel [OF s1 this, unfolded v]
    have "oc_rel (unat (a1 + c1)) (unat ac + swap en (be16_sum [x]))"
      unfolding unat_plus_carry [OF st(2)]
      by (rule oc_rel_trans [OF st(1)]) (auto intro!: oc_rel_add native_nat_last simp del: be16_sum.simps)
    with p(1) s1 show ?thesis by (auto simp: acc_ok_def last_step_def b intro: oc_rel_trans)
  qed (use p in \<open>simp add: last_step_def acc_ok_def swap_def split: endian.splits\<close>)
qed

lemma block_step_length: "length (fst p) < 16 * n \<Longrightarrow> length (fst (block_step en n p)) < 8 * n"
  by (cases p) (auto simp: block_step_def)

lemma tail_step_length: "length (fst p) < 2 * k \<Longrightarrow> length (fst (tail_step en k p)) < k"
  by (cases p) (auto simp: tail_step_def split: prod.split)

lemma checksumNoFold_rel: "oc_rel (unat (checksumNoFold en b initial)) (unat initial + be16_sum b)"
proof -
  define T where "T = unat (native_be64 en initial) + swap en (be16_sum b)"
  define p7 where "p7 = tail_step en 2 (tail_step en 4 (block_step en 1 (block_step en 2 (block_step en 4
    (block_step en 8 (blocks128 en b (native_be64 en initial)))))))"
  have "acc_ok en T (b, native_be64 en initial)" by (simp add: acc_ok_def T_def)
  then have "acc_ok en T p7"
    unfolding p7_def by (intro tail_step_ok block_step_ok blocks128_ok) auto
  moreover have "length (fst p7) < 2"
  proof -
    define q1 where "q1 = block_step en 8 (blocks128 en b (native_be64 en initial))"
    define q2 where "q2 = block_step en 2 (block_step en 4 q1)"
    have "length (fst q1) < 64"
      using block_step_length [of _ 8] blocks128_length by (simp add: q1_def)
    then have "length (fst q2) < 16"
      using block_step_length [of q1 4 en] block_step_length [of "block_step en 4 q1" 2 en]
      by (simp add: q2_def)
    then show ?thesis
      using block_step_length [of q2 1 en] tail_step_length [of "block_step en 1 q2" 4 en]
        tail_step_length [of "tail_step en 4 (block_step en 1 q2)" 2 en]
      by (simp add: p7_def q1_def [symmetric] q2_def [symmetric])
  qed
  ultimately have "oc_rel (unat (last_step en p7)) T" by (intro last_step_ok) auto
  then have "oc_rel (unat (checksumNoFold en b initial)) (swap en T)"
    unfolding checksumNoFold_def p7_def [symmetric]
    by (intro oc_rel_trans [OF native_be64_rel] oc_rel_swap)
  also have "oc_rel (swap en T) (swap en (swap en (unat initial)) + swap en (swap en (be16_sum b)))"
    by (simp add: T_def oc_rel_add oc_rel_swap native_be64_rel)
  also have "oc_rel \<dots> (unat initial + be16_sum b)"
    by (intro oc_rel_add oc_rel_swap_swap)
  finally show ?thesis .
qed

section \<open>Folding to 16 bits\<close>

lemma unat_fold_once: "unat (fold_once ac) = unat ac div 2 ^ 16 + unat ac mod 2 ^ 16"
proof -
  have m: "ac AND 0xffff = take_bit 16 ac"
    by (simp add: take_bit_eq_mask mask_eq_exp_minus_1)
  have d: "unat (drop_bit 16 ac) = unat ac div 2 ^ 16"
    using unat_less_power [of ac]
    by (simp only: unsigned_drop_bit_eq) (simp add: drop_bit_eq_div take_bit_nat_eq_self)
  have t: "unat (take_bit 16 ac) = unat ac mod 2 ^ 16"
    by (simp only: unsigned_take_bit_eq) (simp add: take_bit_eq_mod)
  have "unat ac < 2 ^ 64" using unat_less_power [of ac] by simp
  then have "unat ac div 2 ^ 16 < 2 ^ 48" by (simp add: div_less_iff_less_mult)
  moreover have "unat ac mod 2 ^ 16 < 2 ^ 16" by simp
  ultimately have "unat (drop_bit 16 ac) + unat (take_bit 16 ac) < 2 ^ 64"
    unfolding d t by simp
  then show ?thesis unfolding fold_once_def m by (simp add: unat_plus_carry d t)
qed

lemma fold_rel: "oc_rel (n div 2 ^ 16 + n mod 2 ^ 16) n"
proof -
  have "n = 2 ^ 16 * (n div 2 ^ 16) + n mod 2 ^ 16" by simp
  then have "n = n div 2 ^ 16 + n mod 2 ^ 16 + 65535 * (n div 2 ^ 16)" by simp
  then have "(n div 2 ^ 16 + n mod 2 ^ 16) mod 65535 = n mod 65535" by (metis mod_mult_self2)
  moreover have "n div 2 ^ 16 + n mod 2 ^ 16 = 0 \<longleftrightarrow> n = 0"
    using div_mult_mod_eq [of n "2 ^ 16"] by auto
  ultimately show ?thesis by (simp add: oc_rel_def)
qed

lemma fold_bound: "(n :: nat) < 65536 * k + 65535 \<Longrightarrow> n div 2 ^ 16 + n mod 2 ^ 16 < k + 65535"
proof -
  assume n: "n < 65536 * k + 65535"
  have "n = 65536 * (n div 65536) + n mod 65536" and "n mod 65536 < 65536" by simp_all
  with n have "n div 65536 + n mod 65536 < k + 65535" by linarith
  then show ?thesis by simp
qed

text \<open>The refinement: the unrolled 64-bit computation is the ones'-complement sum.\<close>

theorem unat_checksum: "unat (checksum en b initial) = oc (unat initial + be16_sum b)"
proof -
  define a where "a = checksumNoFold en b initial"
  define f where "f = fold_once (fold_once (fold_once (fold_once a)))"
  have "unat a < 2 ^ 64" using unat_less_power [of a] by simp
  then have "unat f < 1 + 65535"
    unfolding f_def unat_fold_once by (intro fold_bound) simp
  then have u: "unat (checksum en b initial) = unat f"
    by (simp add: checksum_def f_def a_def unsigned_ucast_eq take_bit_nat_eq_self)
  have "oc_rel (unat f) (unat a)"
    unfolding f_def unat_fold_once
    by (rule oc_rel_trans [OF fold_rel oc_rel_trans [OF fold_rel oc_rel_trans [OF fold_rel fold_rel]]])
  then have "oc_rel (unat f) (unat initial + be16_sum b)"
    unfolding a_def by (rule oc_rel_trans [OF _ checksumNoFold_rel])
  then show ?thesis using \<open>unat f < 1 + 65535\<close> unfolding u by (intro oc_unique [symmetric]) auto
qed

section \<open>The pseudo header\<close>

text \<open>The words of the TCP/UDP pseudo header: both addresses, the protocol and the transport length.\<close>

definition pseudo_sum :: "byte \<Rightarrow> byte list \<Rightarrow> byte list \<Rightarrow> u16 \<Rightarrow> nat" where
  "pseudo_sum protocol srcAddr dstAddr totalLen =
     be16_sum srcAddr + be16_sum dstAddr + unat protocol + unat totalLen"

lemma pseudoHeader_rel:
  "oc_rel (unat (pseudoHeaderChecksumNoFold en protocol srcAddr dstAddr totalLen))
     (pseudo_sum protocol srcAddr dstAddr totalLen)"
proof -
  define s1 where "s1 = checksumNoFold en srcAddr 0"
  define s2 where "s2 = checksumNoFold en dstAddr s1"
  define s3 where "s3 = checksumNoFold en [0, protocol] s2"
  have r1: "oc_rel (unat s1) (be16_sum srcAddr)"
    using checksumNoFold_rel [of en srcAddr 0] by (simp add: s1_def)
  have r2: "oc_rel (unat s2) (be16_sum srcAddr + be16_sum dstAddr)"
    unfolding s2_def by (intro oc_rel_trans [OF checksumNoFold_rel] oc_rel_add r1 oc_rel_refl)
  have r3: "oc_rel (unat s3) (be16_sum srcAddr + be16_sum dstAddr + unat protocol)"
    unfolding s3_def
    by (intro oc_rel_trans [OF checksumNoFold_rel] oc_rel_add r2) (simp add: oc_rel_refl)
  have "oc_rel (unat (checksumNoFold en (be16 totalLen) s3))
      (be16_sum srcAddr + be16_sum dstAddr + unat protocol + unat totalLen)"
    by (intro oc_rel_trans [OF checksumNoFold_rel] oc_rel_add r3) simp
  then show ?thesis
    by (simp add: pseudoHeaderChecksumNoFold_def pseudo_sum_def s1_def s2_def s3_def Let_def)
qed

lemma unat_checksum_pseudo:
  "unat (checksum en b (pseudoHeaderChecksumNoFold en protocol srcAddr dstAddr totalLen))
   = oc (pseudo_sum protocol srcAddr dstAddr totalLen + be16_sum b)"
  unfolding unat_checksum by (intro oc_cong oc_rel_add pseudoHeader_rel oc_rel_refl)

section \<open>What a checksum function promises its callers\<close>

text \<open>Replacing two aligned bytes.\<close>

lemma be16_sum_splice2:
  assumes "even k" and "k + 2 \<le> length b" and "length ys = 2"
  shows "be16_sum (splice b k ys) = be16_sum (splice b k [0, 0]) + be_nat ys"
proof -
  have "be16_sum (splice b k zs) = be16_sum (take k b) + be_nat zs + be16_sum (drop (k + 2) b)"
    if "length zs = 2" for zs
    using assms(1,2) that by (simp add: splice_def be16_sum_two)
  with assms(3) show ?thesis by simp
qed

lemma unat_not16: "unat (NOT (w :: u16)) = 65535 - unat w"
proof -
  have "unat (w + NOT w) = (unat w + unat (NOT w)) mod 65536"
    by (simp only: unat_word_ariths) simp
  moreover have "unat (w + NOT w) = 65535" by (simp add: word_add_not unsigned_minus_1_eq_mask mask_eq_exp_minus_1)
  ultimately have "(unat w + unat (NOT w)) mod 65536 = 65535" by simp
  moreover have "unat w < 65536" "unat (NOT w) < 65536"
    using unat_less_power [of w] unat_less_power [of "NOT w"] by simp_all
  ultimately have "unat w + unat (NOT w) = 65535"
    using div_mult_mod_eq [of "unat w + unat (NOT w)" 65536]
    by (cases "(unat w + unat (NOT w)) div 65536") auto
  then show ?thesis by linarith
qed

locale internet_checksum =
  fixes csum :: "byte list \<Rightarrow> u64 \<Rightarrow> u16"
  assumes csum_oc: "unat (csum b i) = oc (unat i + be16_sum b)"
begin

text \<open>The verification of a checksummed run: the sum is all ones.\<close>

lemma csum_ones_iff:
  "csum b i = 0xffff \<longleftrightarrow> 0 < unat i + be16_sum b \<and> (unat i + be16_sum b) mod 65535 = 0"
proof -
  have "csum b i = 0xffff \<longleftrightarrow> oc (unat i + be16_sum b) = 65535"
    unfolding csum_oc [symmetric] by (simp add: word_unat_eq_iff)
  also have "\<dots> \<longleftrightarrow> 0 < unat i + be16_sum b \<and> (unat i + be16_sum b) mod 65535 = 0"
    using oc_rel_oc [of "unat i + be16_sum b"] oc_unique [of 65535 "unat i + be16_sum b"]
    by (auto simp: oc_rel_def)
  finally show ?thesis .
qed

text \<open>Filling a zeroed aligned field with the complement of the sum makes the run verify.\<close>

lemma csum_fill:
  assumes "even k" and "k + 2 \<le> length b" and z: "z = splice b k [0, 0]"
  shows "csum (splice b k (be16 (NOT (csum z i)))) i = 0xffff"
proof -
  define T where "T = unat i + be16_sum z"
  have v: "unat i + be16_sum (splice b k (be16 (NOT (csum z i)))) = T + (65535 - oc T)"
    using be16_sum_splice2 [OF assms(1,2), of "be16 (NOT (csum z i))"]
    by (simp add: T_def z unat_not16 csum_oc)
  have "oc_rel (oc T) T" by (rule oc_rel_oc)
  then obtain r: "oc T mod 65535 = T mod 65535" and p: "oc T = 0 \<longleftrightarrow> T = 0" by (auto simp: oc_rel_def)
  have "(T + (65535 - oc T)) mod 65535 = (oc T + (65535 - oc T)) mod 65535"
    using r by (intro mod_add_cong) auto
  also have "\<dots> = 0" using oc_bound [of T] by simp
  finally have "(T + (65535 - oc T)) mod 65535 = 0" .
  moreover have "0 < T + (65535 - oc T)" using p by (cases "T = 0") auto
  ultimately show ?thesis unfolding csum_ones_iff v by simp
qed

end

interpretation go_checksum: internet_checksum "checksum en" for en
  by unfold_locales (rule unat_checksum)

section \<open>Properties\<close>

text \<open>C20. The unrolled, 64-bit, native-order \<open>checksum\<close> is the Internet checksum: on either byte order it
  returns the ones'-complement sum of the initial value and the big-endian 16-bit words of the data,
  an odd last byte padded with zero.\<close>

theorem checksum_ones_complement: "checksum en b initial = of_nat (oc (unat initial + be16_sum b))"
  unfolding unat_checksum [of en b initial, symmetric] by simp

text \<open>Chaining \<open>pseudoHeaderChecksumNoFold\<close> into \<open>checksum\<close> is summing one flat run of bytes: source address,
  destination address, zero, protocol, length and data.\<close>

theorem pseudo_checksum_flat:
  assumes "even (length srcAddr)" and "even (length dstAddr)"
  shows "checksum en b (pseudoHeaderChecksumNoFold en protocol srcAddr dstAddr totalLen)
    = checksum en (srcAddr @ dstAddr @ [0, protocol] @ be16 totalLen @ b) 0"
proof -
  have "unat (checksum en b (pseudoHeaderChecksumNoFold en protocol srcAddr dstAddr totalLen))
      = unat (checksum en (srcAddr @ dstAddr @ [0, protocol] @ be16 totalLen @ b) 0)"
    by (subst unat_checksum_pseudo) (use assms in \<open>simp add: unat_checksum pseudo_sum_def ac_simps\<close>)
  then show ?thesis by (simp add: word_unat_eq_iff)
qed

theorem pseudo_checksum_flat_witness:
  "checksum LittleEndian [1, 2, 3] (pseudoHeaderChecksumNoFold LittleEndian 6 [10, 0, 0, 1] [10, 0, 0, 2] 3)
    = checksum LittleEndian ([10, 0, 0, 1] @ [10, 0, 0, 2] @ [0, 6] @ be16 3 @ [1, 2, 3]) 0"
  by (rule pseudo_checksum_flat) simp_all

end
