(* ===== verification/Virtio_Hdr.thy ===== *)
theory Virtio_Hdr
  imports Tun_Prelude
begin

text \<open>
  The virtio network header of \<^verbatim>\<open>offload_linux.go\<close>: the struct \<^verbatim>\<open>virtioNetHdr\<close>, \<open>decode\<close> and
  \<open>encode\<close> (a memory copy of the struct, so in the machine's byte order), and the constants of the
  offload code. \<^verbatim>\<open>unsafe.Sizeof(virtioNetHdr{})\<close> is 10: two bytes and four aligned 16-bit fields,
  no padding. The constants of \<^verbatim>\<open>golang.org/x/sys/unix\<close> are the values of the Linux ABI.
\<close>

section \<open>Constants\<close>

definition virtioNetHdrLen :: int where "virtioNetHdrLen = 10"

definition tcpFlagsOffset :: int where "tcpFlagsOffset = 13"
definition tcpFlagFIN :: byte where "tcpFlagFIN = 0x01"
definition tcpFlagPSH :: byte where "tcpFlagPSH = 0x08"
definition tcpFlagACK :: byte where "tcpFlagACK = 0x10"

definition ipv4FlagMoreFragments :: byte where "ipv4FlagMoreFragments = 0x20"
definition ipv4SrcAddrOffset :: int where "ipv4SrcAddrOffset = 12"
definition ipv6SrcAddrOffset :: int where "ipv6SrcAddrOffset = 8"
definition maxUint16 :: int where "maxUint16 = 65535"
definition udphLen :: int where "udphLen = 8"

definition GSO_NONE :: byte where "GSO_NONE = 0"
definition GSO_TCPV4 :: byte where "GSO_TCPV4 = 1"
definition GSO_TCPV6 :: byte where "GSO_TCPV6 = 4"
definition GSO_UDP_L4 :: byte where "GSO_UDP_L4 = 5"
definition NEEDS_CSUM :: byte where "NEEDS_CSUM = 1"
definition IPPROTO_TCP :: byte where "IPPROTO_TCP = 6"
definition IPPROTO_UDP :: byte where "IPPROTO_UDP = 17"

lemmas tun_consts = virtioNetHdrLen_def tcpFlagsOffset_def tcpFlagFIN_def tcpFlagPSH_def tcpFlagACK_def
  ipv4FlagMoreFragments_def ipv4SrcAddrOffset_def ipv6SrcAddrOffset_def maxUint16_def udphLen_def
  GSO_NONE_def GSO_TCPV4_def GSO_TCPV6_def GSO_UDP_L4_def NEEDS_CSUM_def IPPROTO_TCP_def IPPROTO_UDP_def

section \<open>The header\<close>

record virtioNetHdr =
  flags :: byte
  gsoType :: byte
  hdrLen :: u16
  gsoSize :: u16
  csumStart :: u16
  csumOffset :: u16

text \<open>The memory of the struct.\<close>

definition hdr_bytes :: "endian \<Rightarrow> virtioNetHdr \<Rightarrow> byte list" where
  "hdr_bytes en v = [flags v, gsoType v] @ nat_native en 2 (unat (hdrLen v)) @ nat_native en 2 (unat (gsoSize v))
     @ nat_native en 2 (unat (csumStart v)) @ nat_native en 2 (unat (csumOffset v))"

definition bytes_hdr :: "endian \<Rightarrow> byte list \<Rightarrow> virtioNetHdr" where
  "bytes_hdr en b = \<lparr>flags = b ! 0, gsoType = b ! 1,
     hdrLen = of_nat (native_nat en (take 2 (drop 2 b))), gsoSize = of_nat (native_nat en (take 2 (drop 4 b))),
     csumStart = of_nat (native_nat en (take 2 (drop 6 b))), csumOffset = of_nat (native_nat en (take 2 (drop 8 b)))\<rparr>"

definition zero_hdr :: virtioNetHdr where
  "zero_hdr = \<lparr>flags = 0, gsoType = 0, hdrLen = 0, gsoSize = 0, csumStart = 0, csumOffset = 0\<rparr>"

text \<open>\<^verbatim>\<open>v.decode(b)\<close> reads the struct from the first bytes of \<open>b\<close>.\<close>

definition decode :: "endian \<Rightarrow> gslice \<Rightarrow> go_error + virtioNetHdr" where
  "decode en b = (if int (slen b) < virtioNetHdrLen then Inl ErrShortBuffer
     else Inr (bytes_hdr en (take (nat virtioNetHdrLen) (sarr b))))"

text \<open>\<^verbatim>\<open>v.encode(b)\<close> writes it over the first bytes of \<open>b\<close>.\<close>

definition encode :: "endian \<Rightarrow> virtioNetHdr \<Rightarrow> gslice \<Rightarrow> go_error + gslice" where
  "encode en v b = (if int (slen b) < virtioNetHdrLen then Inl ErrShortBuffer
     else Inr (b\<lparr>sarr := splice (sarr b) 0 (hdr_bytes en v)\<rparr>))"

section \<open>Lemmas\<close>

lemma length_hdr_bytes [simp, byte_simps]: "length (hdr_bytes en v) = 10"
  by (simp add: hdr_bytes_def)

lemma native16 [simp]: "(of_nat (native_nat en (nat_native en 2 (unat (x :: u16)))) :: u16) = x"
  using unat_less_power [of x] by simp

lemma native16_inv [simp]:
  "length bs = 2 \<Longrightarrow> nat_native en 2 (unat (of_nat (native_nat en bs) :: u16)) = bs"
  using native_nat_bound [of en bs] by (simp add: unat_of_nat take_bit_nat_eq_self)

lemma bytes_hdr_hdr_bytes [simp]: "bytes_hdr en (hdr_bytes en v @ r) = v"
  by (simp add: bytes_hdr_def hdr_bytes_def)

lemma hdr_bytes_bytes_hdr: "length b = 10 \<Longrightarrow> hdr_bytes en (bytes_hdr en b) = b"
proof -
  assume "length b = 10"
  then have "length b = Suc (Suc (Suc (Suc (Suc (Suc (Suc (Suc (Suc (Suc 0)))))))))" by simp
  then obtain b0 b1 b2 b3 b4 b5 b6 b7 b8 b9 where "b = [b0, b1, b2, b3, b4, b5, b6, b7, b8, b9]"
    by (auto simp only: length_Suc_conv length_0_conv)
  then show ?thesis by (simp add: hdr_bytes_def bytes_hdr_def del: nat_native_native_nat)
qed

lemma encode_ok:
  "10 \<le> slen b \<Longrightarrow> encode en v b = Inr (b\<lparr>sarr := splice (sarr b) 0 (hdr_bytes en v)\<rparr>)"
  by (simp add: encode_def tun_consts)

lemma decode_ok: "10 \<le> slen b \<Longrightarrow> decode en b = Inr (bytes_hdr en (take 10 (sarr b)))"
  by (simp add: decode_def tun_consts)

section \<open>Properties\<close>

text \<open>The virtio header survives the wire: on either byte order, what \<open>encode\<close> writes into a buffer of at least ten
  bytes \<open>decode\<close> reads back, and only those ten bytes change; a shorter buffer is refused by both.\<close>

theorem virtioNetHdr_roundtrip:
  "case encode en v b of
     Inl e \<Rightarrow> slen b < 10 \<and> e = ErrShortBuffer \<and> decode en b = Inl ErrShortBuffer
   | Inr b' \<Rightarrow> decode en b' = Inr v \<and> slen b' = slen b \<and> drop 10 (sarr b') = drop 10 (sarr b)"
  using bytes_hdr_hdr_bytes [of en v "[]"] by (auto simp: encode_def decode_def tun_consts splice_def)

end
