(* ===== verification/Gso_Split.thy ===== *)
theory Gso_Split
  imports Checksum Virtio_Hdr
begin

text \<open>
  Generic segmentation offload on the read side (\<^verbatim>\<open>offload_linux.go\<close>): the validation of a GSO
  frame (\<open>validateGSOSplit\<close> and its helpers), the split of the frame into the caller's buffers
  (\<open>gsoSplit\<close>, one segment at a time in \<open>gso_segment\<close>) and the checksum of a frame that is not
  segmented (\<open>gsoNoneChecksum\<close>). Every index and slice expression of the code carries its bounds
  check; the lemmas show that none of them fails once the validation has succeeded, that a failed
  validation leaves buffers and sizes alone, and what each segment is.
\<close>

section \<open>Validation\<close>

definition validateVirtioReadOutputs :: "gslice list \<Rightarrow> int list \<Rightarrow> go_error + unit" where
  "validateVirtioReadOutputs outBuffs sizes =
     (if length outBuffs = 0 then Inl (ErrTooManySegments 1 0)
      else if length sizes < length outBuffs then Inl (ErrShortSizes (int (length outBuffs)) (int (length sizes)))
      else Inr ())"

definition validateOutputOffset :: "gslice \<Rightarrow> int \<Rightarrow> int \<Rightarrow> go_error + unit" where
  "validateOutputOffset out offset buffer =
     (if offset < 0 \<or> offset > int (slen out) then Inl (ErrOutputOffset buffer offset (int (slen out))) else Inr ())"

definition validateChecksumPosition :: "int \<Rightarrow> u16 \<Rightarrow> u16 \<Rightarrow> go_error + unit" where
  "validateChecksumPosition packetLen start offset =
     (let at = uint start + uint offset
      in if uint start > packetLen \<or> at > packetLen - 2 then Inl (ErrChecksumPosition at packetLen) else Inr ())"

text \<open>The loop over the output buffers: \<open>k\<close> segments are still to be checked, the next is \<open>i\<close>.\<close>

fun check_outputs ::
  "gslice list \<Rightarrow> int \<Rightarrow> bool \<Rightarrow> int \<Rightarrow> int \<Rightarrow> int \<Rightarrow> int \<Rightarrow> nat \<Rightarrow> int \<Rightarrow> int \<Rightarrow> (go_error + unit) option" where
  "check_outputs outBuffs outOffset isV6 iphLen minimumIPHLen headerLen gso 0 i remaining = Some (Inr ())"
| "check_outputs outBuffs outOffset isV6 iphLen minimumIPHLen headerLen gso (Suc k) i remaining = do {
     out \<leftarrow> elem outBuffs i;
     case validateOutputOffset out outOffset i of
       Inl e \<Rightarrow> Some (Inl e)
     | Inr _ \<Rightarrow>
         let segmentDataLen = min gso remaining;
             totalLen = headerLen + segmentDataLen;
             available = int (slen out) - outOffset
         in if (\<not> isV6 \<and> totalLen > maxUint16) \<or> (isV6 \<and> totalLen - minimumIPHLen > maxUint16)
            then Some (Inl (ErrSegmentTooLong i totalLen))
            else if totalLen - iphLen > maxUint16
            then Some (Inl (ErrSegmentTransportTooLong i (totalLen - iphLen)))
            else if totalLen > available
            then Some (Inl (ErrShortOutput i totalLen available))
            else check_outputs outBuffs outOffset isV6 iphLen minimumIPHLen headerLen gso k (i + 1)
                   (remaining - segmentDataLen)
   }"

text \<open>The checks of the transport header.\<close>

definition check_transport :: "gslice \<Rightarrow> virtioNetHdr \<Rightarrow> int \<Rightarrow> int \<Rightarrow> (go_error + unit) option" where
  "check_transport inp hdr iphLen transportHeaderLen =
     (if gsoType hdr = GSO_UDP_L4
      then (if transportHeaderLen \<noteq> udphLen then Some (Inl (ErrTransportHeaderLen transportHeaderLen))
            else if csumOffset hdr \<noteq> 6 then Some (Inl (ErrChecksumOffset (csumOffset hdr)))
            else Some (Inr ()))
      else (if transportHeaderLen < 20 \<or> transportHeaderLen > 60 \<or> transportHeaderLen mod 4 \<noteq> 0
            then Some (Inl (ErrTransportHeaderLen transportHeaderLen))
            else do {
              b \<leftarrow> rd inp (iphLen + 12);
              let tcpHeaderLen = uint (drop_bit 4 b) * 4;
              if tcpHeaderLen \<noteq> transportHeaderLen then Some (Inl (ErrTCPHeaderMismatch tcpHeaderLen transportHeaderLen))
              else if csumOffset hdr \<noteq> 16 then Some (Inl (ErrChecksumOffset (csumOffset hdr)))
              else Some (Inr ())
            }))"

text \<open>The checks of the IP header length against \<^verbatim>\<open>csumStart\<close>.\<close>

definition check_ip_header :: "byte \<Rightarrow> bool \<Rightarrow> int \<Rightarrow> int \<Rightarrow> go_error + unit" where
  "check_ip_header b0 isV6 iphLen minimumIPHLen =
     (if iphLen < minimumIPHLen then Inl (ErrIPHeaderLen iphLen minimumIPHLen)
      else if \<not> isV6 then
        (let ipv4HeaderLen = uint (b0 AND 0x0f) * 4
         in if ipv4HeaderLen < minimumIPHLen \<or> ipv4HeaderLen > 60 \<or> ipv4HeaderLen \<noteq> iphLen
            then Inl (ErrIPHeaderLen ipv4HeaderLen iphLen) else Inr ())
      else Inr ())"

definition segment_count :: "int \<Rightarrow> int \<Rightarrow> int" where
  "segment_count payloadLen gso = payloadLen div gso + (if payloadLen mod gso \<noteq> 0 then 1 else 0)"

definition validateGSOSplit ::
  "gslice \<Rightarrow> virtioNetHdr \<Rightarrow> gslice list \<Rightarrow> int list \<Rightarrow> int \<Rightarrow> bool \<Rightarrow> (go_error + int) option" where
  "validateGSOSplit inp hdr outBuffs sizes outOffset isV6 =
     (case validateVirtioReadOutputs outBuffs sizes of
        Inl e \<Rightarrow> Some (Inl e)
      | Inr _ \<Rightarrow>
     if gsoSize hdr = 0 then Some (Inl ErrGsoSizeZero)
     else if slen inp = 0 then Some (Inl ErrGsoEmpty)
     else do {
       b0 \<leftarrow> rd inp 0;
       let ipVersion = drop_bit 4 b0;
       if (isV6 \<and> ipVersion \<noteq> 6) \<or> (\<not> isV6 \<and> ipVersion \<noteq> 4) then Some (Inl (ErrIPVersion ipVersion isV6))
       else if gsoType hdr = GSO_TCPV4 \<and> isV6 then Some (Inl ErrGsoHeaderFamily)
       else if gsoType hdr = GSO_TCPV6 \<and> \<not> isV6 then Some (Inl ErrGsoHeaderFamily)
       else if gsoType hdr \<notin> {GSO_TCPV4, GSO_TCPV6, GSO_UDP_L4} then Some (Inl (ErrGsoType (gsoType hdr)))
       else
       let iphLen = uint (csumStart hdr);
           minimumIPHLen = (if isV6 then 40 else 20)
       in case check_ip_header b0 isV6 iphLen minimumIPHLen of
            Inl e \<Rightarrow> Some (Inl e)
          | Inr _ \<Rightarrow>
       let headerLen = uint (hdrLen hdr); inLen = int (slen inp)
       in if headerLen < iphLen then Some (Inl (ErrHdrLenBeforeCsumStart headerLen iphLen))
       else if headerLen > inLen then Some (Inl (ErrPacketLenBeforeHdrLen inLen headerLen))
       else if headerLen = inLen then Some (Inl ErrNoPayload)
       else case validateChecksumPosition headerLen (csumStart hdr) (csumOffset hdr) of
            Inl e \<Rightarrow> Some (Inl e)
          | Inr _ \<Rightarrow> do {
       tr \<leftarrow> check_transport inp hdr iphLen (headerLen - iphLen);
       case tr of Inl e \<Rightarrow> Some (Inl e) | Inr _ \<Rightarrow>
       let payloadLen = inLen - headerLen;
           gso = uint (gsoSize hdr);
           segmentCount = segment_count payloadLen gso
       in if segmentCount > int (length outBuffs)
          then Some (Inl (ErrTooManySegments segmentCount (int (length outBuffs))))
          else if segmentCount > int (length sizes)
          then Some (Inl (ErrShortSizes segmentCount (int (length sizes))))
          else do {
            r \<leftarrow> check_outputs outBuffs outOffset isV6 iphLen minimumIPHLen headerLen gso
                  (nat segmentCount) 0 payloadLen;
            case r of Inl e \<Rightarrow> Some (Inl e) | Inr _ \<Rightarrow> Some (Inr segmentCount)
          }
       }
     })"

section \<open>The split\<close>

text \<open>The IP header of a segment, written over \<open>out\<close>: identification, total length and header
  checksum for IPv4, payload length for IPv6.\<close>

definition segment_ip :: "endian \<Rightarrow> bool \<Rightarrow> int \<Rightarrow> int \<Rightarrow> int \<Rightarrow> gslice \<Rightarrow> gslice option" where
  "segment_ip en isV6 iphLen totalLen i out =
     (if \<not> isV6 then do {
        out \<leftarrow> (if i > 0 then do { id \<leftarrow> get16 out 4; put16 out 4 (id + of_int i) } else Some out);
        out \<leftarrow> put16 out 2 (of_int totalLen);
        out \<leftarrow> wr out 10 0;
        out \<leftarrow> wr out 11 0;
        h \<leftarrow> sub out 0 iphLen;
        put16 out 10 (NOT (checksum en (vis h) 0))
      }
      else put16 out 4 (of_int (totalLen - iphLen)))"

text \<open>The TCP sequence number and flags, or the UDP length.\<close>

definition segment_transport ::
  "virtioNetHdr \<Rightarrow> byte \<Rightarrow> u32 \<Rightarrow> int \<Rightarrow> int \<Rightarrow> int \<Rightarrow> int \<Rightarrow> gslice \<Rightarrow> gslice option" where
  "segment_transport hdr protocol firstTCPSeqNum inLen nextSegmentDataAt nextSegmentEnd segmentDataLen out =
     (if protocol = IPPROTO_TCP then do {
        let tcpSeq = firstTCPSeqNum + of_int (nextSegmentDataAt - uint (hdrLen hdr));
        out \<leftarrow> put32 out (uint (csumStart hdr + 4)) tcpSeq;
        if nextSegmentEnd \<noteq> inLen then do {
          let clearFlags = tcpFlagFIN OR tcpFlagPSH;
          let at = uint (csumStart hdr + of_int tcpFlagsOffset);
          b \<leftarrow> rd out at;
          wr out at (b AND NOT clearFlags)
        } else Some out
      }
      else put16 out (uint (csumStart hdr + 4)) (of_int segmentDataLen + (hdrLen hdr - csumStart hdr)))"

text \<open>The transport checksum, over the pseudo header and the finished transport part of \<open>out\<close>.\<close>

definition segment_checksum ::
  "endian \<Rightarrow> gslice \<Rightarrow> virtioNetHdr \<Rightarrow> bool \<Rightarrow> byte \<Rightarrow> int \<Rightarrow> int \<Rightarrow> gslice \<Rightarrow> gslice option" where
  "segment_checksum en inp hdr isV6 protocol segmentDataLen totalLen out = do {
     let srcAddrOffset = (if isV6 then ipv6SrcAddrOffset else ipv4SrcAddrOffset);
     let addrLen = (if isV6 then 16 else 4);
     let transportHeaderLen = uint (hdrLen hdr - csumStart hdr);
     let lenForPseudo = of_int (transportHeaderLen + segmentDataLen);
     src \<leftarrow> sub inp srcAddrOffset (srcAddrOffset + addrLen);
     dst \<leftarrow> sub inp (srcAddrOffset + addrLen) (srcAddrOffset + addrLen * 2);
     let transportCSumNoFold = pseudoHeaderChecksumNoFold en protocol (vis src) (vis dst) lenForPseudo;
     t \<leftarrow> sub out (uint (csumStart hdr)) totalLen;
     let transportCSum = NOT (checksum en (vis t) transportCSumNoFold);
     put16 out (uint (csumStart hdr + csumOffset hdr)) transportCSum
   }"

text \<open>One segment, built in the \<open>totalLen\<close> bytes of \<open>out\<close>.\<close>

definition gso_segment ::
  "endian \<Rightarrow> gslice \<Rightarrow> virtioNetHdr \<Rightarrow> bool \<Rightarrow> byte \<Rightarrow> u32 \<Rightarrow> int \<Rightarrow> int \<Rightarrow> int \<Rightarrow> gslice \<Rightarrow> gslice option" where
  "gso_segment en inp hdr isV6 protocol firstTCPSeqNum i nextSegmentDataAt segmentDataLen out = do {
     let iphLen = uint (csumStart hdr);
     let transportCsumAt = uint (csumStart hdr) + uint (csumOffset hdr);
     let nextSegmentEnd = nextSegmentDataAt + segmentDataLen;
     let totalLen = uint (hdrLen hdr) + segmentDataLen;
     out \<leftarrow> copy_range out 0 (int (slen out)) inp 0 iphLen;
     out \<leftarrow> segment_ip en isV6 iphLen totalLen i out;
     out \<leftarrow> copy_range out (uint (csumStart hdr)) (uint (hdrLen hdr)) inp (uint (csumStart hdr)) (uint (hdrLen hdr));
     out \<leftarrow> wr out transportCsumAt 0;
     out \<leftarrow> wr out (transportCsumAt + 1) 0;
     out \<leftarrow> segment_transport hdr protocol firstTCPSeqNum (int (slen inp)) nextSegmentDataAt nextSegmentEnd
              segmentDataLen out;
     out \<leftarrow> copy_range out (uint (hdrLen hdr)) (int (slen out)) inp nextSegmentDataAt nextSegmentEnd;
     segment_checksum en inp hdr isV6 protocol segmentDataLen totalLen out
   }"

text \<open>The loop: \<open>k\<close> segments to go, the next is \<open>i\<close>, its payload starts at \<open>nextSegmentDataAt\<close>.\<close>

fun gso_loop ::
  "endian \<Rightarrow> gslice \<Rightarrow> virtioNetHdr \<Rightarrow> int \<Rightarrow> bool \<Rightarrow> byte \<Rightarrow> u32 \<Rightarrow> nat \<Rightarrow> int \<Rightarrow> int \<Rightarrow> gslice list \<Rightarrow> int list
    \<Rightarrow> (gslice list \<times> int list) option" where
  "gso_loop en inp hdr outOffset isV6 protocol firstTCPSeqNum 0 i nextSegmentDataAt outBuffs sizes =
     Some (outBuffs, sizes)"
| "gso_loop en inp hdr outOffset isV6 protocol firstTCPSeqNum (Suc k) i nextSegmentDataAt outBuffs sizes = do {
     let segmentDataLen = min (uint (gsoSize hdr)) (int (slen inp) - nextSegmentDataAt);
     let totalLen = uint (hdrLen hdr) + segmentDataLen;
     buf \<leftarrow> elem outBuffs i;
     out \<leftarrow> sub buf outOffset (outOffset + totalLen);
     out \<leftarrow> gso_segment en inp hdr isV6 protocol firstTCPSeqNum i nextSegmentDataAt segmentDataLen out;
     outBuffs \<leftarrow> set_elem outBuffs i (put_back buf outOffset out);
     sizes \<leftarrow> set_elem sizes i totalLen;
     gso_loop en inp hdr outOffset isV6 protocol firstTCPSeqNum k (i + 1) (nextSegmentDataAt + segmentDataLen)
       outBuffs sizes
   }"

text \<open>The result carries the caller's buffers and sizes as the call leaves them.\<close>

definition gsoSplit ::
  "endian \<Rightarrow> gslice \<Rightarrow> virtioNetHdr \<Rightarrow> gslice list \<Rightarrow> int list \<Rightarrow> int \<Rightarrow> bool
    \<Rightarrow> (gslice list \<times> int list \<times> (go_error + int)) option" where
  "gsoSplit en inp hdr outBuffs sizes outOffset isV6 = do {
     v \<leftarrow> validateGSOSplit inp hdr outBuffs sizes outOffset isV6;
     case v of
       Inl e \<Rightarrow> Some (outBuffs, sizes, Inl e)
     | Inr segmentCount \<Rightarrow> do {
         (protocol, firstTCPSeqNum) \<leftarrow>
           (if gsoType hdr = GSO_TCPV4 \<or> gsoType hdr = GSO_TCPV6
            then do { s \<leftarrow> get32 inp (uint (csumStart hdr + 4)); Some (IPPROTO_TCP, s) }
            else Some (IPPROTO_UDP, 0));
         (outBuffs', sizes') \<leftarrow> gso_loop en inp hdr outOffset isV6 protocol firstTCPSeqNum
           (nat segmentCount) 0 (uint (hdrLen hdr)) outBuffs sizes;
         Some (outBuffs', sizes', Inr segmentCount)
       }
   }"

section \<open>Frames that are not segmented\<close>

definition gsoNoneChecksum :: "endian \<Rightarrow> gslice \<Rightarrow> u16 \<Rightarrow> u16 \<Rightarrow> (gslice \<times> (go_error + unit)) option" where
  "gsoNoneChecksum en inp cSumStart cSumOffset =
     (case validateChecksumPosition (int (slen inp)) cSumStart cSumOffset of
        Inl e \<Rightarrow> Some (inp, Inl e)
      | Inr _ \<Rightarrow> do {
          let cSumAt = uint cSumStart + uint cSumOffset;
          initial \<leftarrow> get16 inp cSumAt;
          inp \<leftarrow> wr inp cSumAt 0;
          inp \<leftarrow> wr inp (cSumAt + 1) 0;
          t \<leftarrow> sub_from inp (uint cSumStart);
          inp \<leftarrow> put16 inp cSumAt (NOT (checksum en (vis t) (ucast initial)));
          Some (inp, Inr ())
        })"

section \<open>What a segment is\<close>

text \<open>The IP header of segment \<open>i\<close> of total length \<open>T\<close>, as a function of the IP header of the frame.\<close>

definition seg_ip :: "endian \<Rightarrow> bool \<Rightarrow> nat \<Rightarrow> nat \<Rightarrow> byte list \<Rightarrow> byte list" where
  "seg_ip en isV6 T i iph =
     (if isV6 then splice iph 4 (be16 (of_nat (T - length iph)))
      else
        let x = (if 0 < i then splice iph 4 (be16 (of_nat (be_nat (take 2 (drop 4 iph))) + of_nat i)) else iph);
            x = splice x 2 (be16 (of_nat T));
            x = splice x 10 [0, 0]
        in splice x 10 (be16 (NOT (checksum en x 0))))"

lemma segment_ip_eq:
  assumes "isV6 \<longrightarrow> 40 \<le> length X" and "\<not> isV6 \<longrightarrow> 20 \<le> length X"
    and "length X \<le> T" and "T \<le> length X + length R"
  shows "segment_ip en isV6 (int (length X)) (int T) (int i) \<lparr>sarr = X @ R, slen = T\<rparr>
    = Some \<lparr>sarr = seg_ip en isV6 T i X @ R, slen = T\<rparr>"
proof (cases isV6)
  case True
  with assms show ?thesis by (simp add: segment_ip_def seg_ip_def put16_def flip: of_nat_diff) 
next
  case False
  with assms show ?thesis 
  by (simp add: segment_ip_def seg_ip_def put16_def get16_def wr_def sub_def vis_def Let_def splice_two [of 10, simplified])
qed

text \<open>The first \<open>h - c\<close> bytes of the transport part: sequence number and flags, or UDP length.\<close>

definition seg_tr1 :: "bool \<Rightarrow> u32 \<Rightarrow> bool \<Rightarrow> nat \<Rightarrow> byte list \<Rightarrow> byte list" where
  "seg_tr1 tcp tcpSeq lst d x =
     (if tcp then
        (let x = splice x 4 (be32 tcpSeq)
         in if lst then x else splice x 13 [x ! 13 AND NOT (tcpFlagFIN OR tcpFlagPSH)])
      else splice x 4 (be16 (of_nat (length x + d))))"

lemma segment_transport_eq:
  assumes c: "uint (csumStart hdr) = int (length X)" and h: "uint (hdrLen hdr) = int (length X + length Y)"
    and y: "14 \<le> length Y \<or> protocol \<noteq> IPPROTO_TCP \<and> 6 \<le> length Y" and T: "T = length X + length Y + d"
    and a: "length X + length Y \<le> a"
  shows "segment_transport hdr protocol sq (int L) (int a) e (int d) \<lparr>sarr = X @ Y @ R, slen = T\<rparr>
    = Some \<lparr>sarr = X @ seg_tr1 (protocol = IPPROTO_TCP) (sq + of_nat (a - (length X + length Y))) (e = int L) d Y @ R,
        slen = T\<rparr>"
proof -
  have le: "length X + length Y < 65536" using uint_range_size [of "hdrLen hdr"] h by (simp add: word_size)
  have k4: "uint (csumStart hdr + 4) = int (length X + 4)"
    using le y c by (subst uint16_add) auto
  have k13: "uint (csumStart hdr + 13) = int (length X + 13)" if "14 \<le> length Y"
    using le that c by (subst uint16_add) auto
  show ?thesis
  proof (cases "protocol = IPPROTO_TCP")
    case True
    with assms le show ?thesis
      by (simp add: segment_transport_def seg_tr1_def Let_def put32_def put16_def rd_def wr_def k4 k13 nth_append tcpFlagsOffset_def)
  next
    case False
    have "uint (hdrLen hdr - csumStart hdr) = int (length Y)" using c h by (simp add: uint16_diff)
    then have w: "hdrLen hdr - csumStart hdr = of_nat (length Y)" by (rule word_of_uint)
    have "6 \<le> length Y" using y by auto
    with False assms le show ?thesis
      by (simp add: segment_transport_def seg_tr1_def put32_def put16_def k4 w ac_simps)
  qed
qed

text \<open>The whole transport part, with its checksum.\<close>

definition seg_tr ::
  "endian \<Rightarrow> nat \<Rightarrow> byte \<Rightarrow> u32 \<Rightarrow> bool \<Rightarrow> byte list \<Rightarrow> byte list \<Rightarrow> byte list \<Rightarrow> byte list \<Rightarrow> byte list" where
  "seg_tr en co protocol tcpSeq lst src dst th payload =
     (let t = seg_tr1 (protocol = IPPROTO_TCP) tcpSeq lst (length payload) (splice th co [0, 0]) @ payload
      in splice t co (be16 (NOT (checksum en t
           (pseudoHeaderChecksumNoFold en protocol src dst (of_nat (length t)))))))"

lemma length_seg_tr1 [simp]: "14 \<le> length x \<or> \<not> tcp \<and> 6 \<le> length x \<Longrightarrow> length (seg_tr1 tcp q lst d x) = length x"
  by (auto simp: seg_tr1_def Let_def)

lemma length_seg_ip [simp]: "14 \<le> length x \<Longrightarrow> length (seg_ip en v T i x) = length x"
  by (auto simp: seg_ip_def Let_def)

lemma segment_checksum_eq:
  assumes wf: "wf_slice inp" and c: "uint (csumStart hdr) = int (length X)"
    and h: "uint (hdrLen hdr) = int (length X + n)" and co: "uint (csumOffset hdr) = int co"
    and n: "co + 2 \<le> n" and v: "(if isV6 then 40 else 20) \<le> slen inp" and B: "length B = n + d"
  shows "segment_checksum en inp hdr isV6 protocol (int d) (int (length X + n) + int d) \<lparr>sarr = X @ B @ R, slen = length X + n + d\<rparr>
    = Some \<lparr>sarr = X @ splice B co (be16 (NOT (checksum en B (pseudoHeaderChecksumNoFold en protocol
            (take (if isV6 then 16 else 4) (drop (if isV6 then 8 else 12) (vis inp)))
            (take (if isV6 then 16 else 4) (drop (if isV6 then 24 else 16) (vis inp))) (of_nat (length B)))))) @ R,
        slen = length X + n + d\<rparr>"
proof -
  define sa :: nat where "sa = (if isV6 then 8 else 12)"
  define al :: nat where "al = (if isV6 then 16 else 4)"
  have sal: "sa + 2 * al \<le> slen inp" using v by (simp add: sa_def al_def split: if_splits)
  have ad: "(if isV6 then ipv6SrcAddrOffset else ipv4SrcAddrOffset) = int sa" "(if isV6 then 16 else 4) = int al"
    "(if isV6 then 16 else 4) = al" "(if isV6 then 8 else 12) = sa" "(if isV6 then 24 else 16) = sa + al"
    by (simp_all add: sa_def al_def tun_consts)
  have s: "sub inp (int sa) (int sa + int al) = Some \<lparr>sarr = drop sa (sarr inp), slen = al\<rparr>"
    "sub inp (int sa + int al) (int sa + int al * 2) = Some \<lparr>sarr = drop (sa + al) (sarr inp), slen = al\<rparr>"
    using wf sal by (simp_all add: sub_def wf_slice_def)
  have vs: "vis \<lparr>sarr = drop sa (sarr inp), slen = al\<rparr> = take al (drop sa (vis inp))"
    "vis \<lparr>sarr = drop (sa + al) (sarr inp), slen = al\<rparr> = take al (drop (sa + al) (vis inp))"
    using wf sal by (simp_all add: vis_sub)
  have t: "sub \<lparr>sarr = X @ B @ R, slen = length X + n + d\<rparr> (int (length X)) (int (length X + n) + int d)
      = Some \<lparr>sarr = B @ R, slen = n + d\<rparr>" "vis \<lparr>sarr = B @ R, slen = n + d\<rparr> = B"
    using B by (simp_all add: sub_def vis_def)
  have w: "uint (hdrLen hdr - csumStart hdr) = int n" using c h by (simp add: uint16_diff)
  have "length X + n < 65536" using uint_range_size [of "hdrLen hdr"] h by (simp add: word_size)
  then have kco: "uint (csumStart hdr + csumOffset hdr) = int (length X + co)"
    using n c co by (subst uint16_add) auto
  have lp: "of_int (int n + int d) = (of_nat (length B) :: u16)" using B by simp
  show ?thesis
    unfolding segment_checksum_def Let_def ad
    using n by (simp only: c s vs t w kco lp Option.bind.simps) (simp add: put16_def B)
qed

lemma gso_segment_eq:
  assumes wf: "wf_slice inp" and L: "slen inp = L"
    and c: "uint (csumStart hdr) = int c" and h: "uint (hdrLen hdr) = int h" and co: "uint (csumOffset hdr) = int co"
    and ch: "c \<le> h" "c + co + 2 \<le> h" "h \<le> a" and v: "isV6 \<longrightarrow> 40 \<le> c" "\<not> isV6 \<longrightarrow> 20 \<le> c"
    and y: "14 \<le> h - c \<or> protocol \<noteq> IPPROTO_TCP \<and> 6 \<le> h - c"
    and ad: "a + d \<le> L"
    and out: "length O1 = h + d"
  shows "gso_segment en inp hdr isV6 protocol sq (int i) (int a) (int d) \<lparr>sarr = O1 @ R, slen = h + d\<rparr>
    = Some \<lparr>sarr = seg_ip en isV6 (h + d) i (take c (vis inp))
        @ seg_tr en co protocol (sq + of_nat (a - h)) (a + d = L)
            (take (if isV6 then 16 else 4) (drop (if isV6 then 8 else 12) (vis inp)))
            (take (if isV6 then 16 else 4) (drop (if isV6 then 24 else 16) (vis inp)))
            (drop c (take h (vis inp))) (take d (drop a (vis inp)))
        @ R, slen = h + d\<rparr>"
proof -
  define iph where "iph = take c (vis inp)"
  define th where "th = drop c (take h (vis inp))"
  define pl where "pl = take d (drop a (vis inp))"
  define ip where "ip = seg_ip en isV6 (h + d) i iph"
  define th1 where "th1 = seg_tr1 (protocol = IPPROTO_TCP) (sq + of_nat (a - h)) (a + d = L) d (splice th co [0, 0])"
  have lens: "length iph = c" "length th = h - c" "length pl = d" "length ip = c" "length th1 = h - c"
    using wf L ch ad y v by (auto simp: iph_def th_def pl_def ip_def th1_def)
  have th': "th = take (h - c) (drop c (vis inp))" by (simp add: th_def take_drop ch)
  obtain O0 O2 O3 where O1: "O1 = O0 @ O2 @ O3" "length O0 = c" "length O2 = h - c" "length O3 = d"
  proof
    show "O1 = take c O1 @ take (h - c) (drop c O1) @ drop (h - c) (drop c O1)" by (simp only: append_take_drop_id)
  qed (use out ch in auto)
  have c1: "copy_range \<lparr>sarr = O1 @ R, slen = h + d\<rparr> 0 (int (h + d)) inp 0 (int c)
      = Some \<lparr>sarr = iph @ O2 @ O3 @ R, slen = h + d\<rparr>"
    using copy_range_middle [of inp 0 c "[]" 0 O0 "h + d" "O2 @ O3 @ R" "h + d"] wf L ch ad O1(2-4)
    by (simp add: iph_def O1(1))
  have s2: "segment_ip en isV6 (int c) (int h + int d) (int i) \<lparr>sarr = iph @ O2 @ O3 @ R, slen = h + d\<rparr>
     = Some \<lparr>sarr = ip @ O2 @ O3 @ R, slen = h + d\<rparr>"
    using segment_ip_eq [of isV6 iph "h + d" "O2 @ O3 @ R" en i] v ch lens O1 by (simp add: ip_def)
  have c2: "copy_range \<lparr>sarr = ip @ O2 @ O3 @ R, slen = h + d\<rparr> (int c) (int h) inp (int c) (int h)
      = Some \<lparr>sarr = ip @ th @ O3 @ R, slen = h + d\<rparr>"
    using copy_range_middle [of inp c "h - c" ip c O2 h "O3 @ R" "h + d"] wf L ch ad O1(3,4) lens(4) by (simp add: th')
  have w: "wr \<lparr>sarr = ip @ th @ O3 @ R, slen = h + d\<rparr> (int c + int co) 0
      = Some \<lparr>sarr = ip @ splice th co [0] @ O3 @ R, slen = h + d\<rparr>"
    "wr \<lparr>sarr = ip @ splice th co [0] @ O3 @ R, slen = h + d\<rparr> (int c + int co + 1) 0
      = Some \<lparr>sarr = ip @ splice th co [0, 0] @ O3 @ R, slen = h + d\<rparr>"
    using lens ch by (simp_all add: wr_def splice_two)
  have eL: "int a + int d = int L \<longleftrightarrow> a + d = L" by linarith
  have s5: "segment_transport hdr protocol sq (int L) (int a) (int a + int d) (int d)
      \<lparr>sarr = ip @ splice th co [0, 0] @ O3 @ R, slen = h + d\<rparr>
    = Some \<lparr>sarr = ip @ th1 @ O3 @ R, slen = h + d\<rparr>"
    using segment_transport_eq [of hdr ip "splice th co [0, 0]" protocol "h + d" d a sq L "int a + int d" "O3 @ R"]
      c h ch lens y eL by (simp add: th1_def)
  have c3: "copy_range \<lparr>sarr = ip @ th1 @ O3 @ R, slen = h + d\<rparr> (int h) (int (h + d)) inp (int a) (int a + int d)
      = Some \<lparr>sarr = ip @ th1 @ pl @ R, slen = h + d\<rparr>"
    using copy_range_middle [of inp a d "ip @ th1" h O3 "h + d" R "h + d"] wf L ch ad O1 lens by (simp add: pl_def)
  have fin: "segment_checksum en inp hdr isV6 protocol (int d) (int h + int d) \<lparr>sarr = ip @ th1 @ pl @ R, slen = h + d\<rparr>
     = Some \<lparr>sarr = ip @ seg_tr en co protocol (sq + of_nat (a - h)) (a + d = L)
            (take (if isV6 then 16 else 4) (drop (if isV6 then 8 else 12) (vis inp)))
            (take (if isV6 then 16 else 4) (drop (if isV6 then 24 else 16) (vis inp))) th pl @ R, slen = h + d\<rparr>"
  proof -
    have e: "length ip + (h - c) = h" using lens ch by simp
    have "seg_tr en co protocol (sq + of_nat (a - h)) (a + d = L) src dst th pl
      = splice (th1 @ pl) co (be16 (NOT (checksum en (th1 @ pl)
          (pseudoHeaderChecksumNoFold en protocol src dst (of_nat (length (th1 @ pl)))))))" for src dst
      using lens by (simp only: seg_tr_def th1_def Let_def)
    moreover have "co + 2 \<le> h - c" "(if isV6 then 40 else 20) \<le> slen inp" "length (th1 @ pl) = h - c + d"
      using ch v ad L lens by auto
    ultimately show ?thesis
      using segment_checksum_eq [of inp hdr ip "h - c" co isV6 "th1 @ pl" d en protocol R] wf c h co lens(4)
      unfolding e by (simp only: append_assoc)
  qed
  show ?thesis
    unfolding gso_segment_def Let_def
    by (simp only: c h co L gslice.simps c1 s2 c2 w s5 c3 fin Option.bind.simps) (simp add: ip_def iph_def th_def pl_def)
qed
section \<open>The frame as a list of segments\<close>

text \<open>Protocol and first sequence number as \<open>gsoSplit\<close> picks them, and the addresses of the frame.\<close>

definition gso_tcp :: "virtioNetHdr \<Rightarrow> bool" where
  "gso_tcp hdr \<longleftrightarrow> gsoType hdr = GSO_TCPV4 \<or> gsoType hdr = GSO_TCPV6"

definition gso_protocol :: "virtioNetHdr \<Rightarrow> byte" where
  "gso_protocol hdr = (if gso_tcp hdr then IPPROTO_TCP else IPPROTO_UDP)"

definition gso_seq :: "virtioNetHdr \<Rightarrow> byte list \<Rightarrow> u32" where
  "gso_seq hdr pkt = (if gso_tcp hdr then of_nat (be_nat (take 4 (drop (unat (csumStart hdr) + 4) pkt))) else 0)"

definition src_addr :: "bool \<Rightarrow> byte list \<Rightarrow> byte list" where
  "src_addr isV6 pkt = take (if isV6 then 16 else 4) (drop (if isV6 then 8 else 12) pkt)"

definition dst_addr :: "bool \<Rightarrow> byte list \<Rightarrow> byte list" where
  "dst_addr isV6 pkt = take (if isV6 then 16 else 4) (drop (if isV6 then 24 else 16) pkt)"

text \<open>Segment \<open>i\<close>, with the \<open>d\<close> payload bytes that start at \<open>a\<close>; the \<open>k\<close> segments from there; and where
  they go: each into its output, at the offset.\<close>

definition gso_seg :: "endian \<Rightarrow> virtioNetHdr \<Rightarrow> bool \<Rightarrow> byte list \<Rightarrow> nat \<Rightarrow> nat \<Rightarrow> nat \<Rightarrow> byte list" where
  "gso_seg en hdr isV6 pkt i a d =
     (let c = unat (csumStart hdr); h = unat (hdrLen hdr)
      in seg_ip en isV6 (h + d) i (take c pkt)
         @ seg_tr en (unat (csumOffset hdr)) (gso_protocol hdr) (gso_seq hdr pkt + of_nat (a - h)) (a + d = length pkt)
             (src_addr isV6 pkt) (dst_addr isV6 pkt) (drop c (take h pkt)) (take d (drop a pkt)))"

fun gso_segs :: "endian \<Rightarrow> virtioNetHdr \<Rightarrow> bool \<Rightarrow> byte list \<Rightarrow> nat \<Rightarrow> nat \<Rightarrow> nat \<Rightarrow> byte list list" where
  "gso_segs en hdr isV6 pkt 0 i a = []"
| "gso_segs en hdr isV6 pkt (Suc k) i a =
     (let d = min (unat (gsoSize hdr)) (length pkt - a)
      in gso_seg en hdr isV6 pkt i a d # gso_segs en hdr isV6 pkt k (Suc i) (a + d))"

fun deliver :: "nat \<Rightarrow> byte list list \<Rightarrow> gslice list \<Rightarrow> gslice list" where
  "deliver off [] outs = outs"
| "deliver off (s # segs) [] = []"
| "deliver off (s # segs) (out # outs) = out\<lparr>sarr := splice (sarr out) off s\<rparr> # deliver off segs outs"

lemma length_gso_segs [simp]: "length (gso_segs en hdr isV6 pkt k i a) = k"
  by (induction k arbitrary: i a) (auto simp: Let_def)

lemma length_deliver [simp]: "length (deliver off segs outs) = length outs"
  by (induction off segs outs rule: deliver.induct) auto

text \<open>The facts about the headers the validation establishes.\<close>

definition gso_headers :: "virtioNetHdr \<Rightarrow> bool \<Rightarrow> byte list \<Rightarrow> bool" where
  "gso_headers hdr isV6 pkt \<longleftrightarrow>
     0 < unat (gsoSize hdr) \<and> unat (hdrLen hdr) < length pkt \<and>
     (if isV6 then 40 else 20) \<le> unat (csumStart hdr) \<and>
     (\<not> isV6 \<longrightarrow> unat (csumStart hdr) = unat (pkt ! 0 AND 0x0f) * 4) \<and>
     drop_bit 4 (pkt ! 0) = (if isV6 then 6 else 4) \<and>
     (if gso_tcp hdr
      then unat (csumStart hdr) + 20 \<le> unat (hdrLen hdr) \<and> unat (hdrLen hdr) \<le> unat (csumStart hdr) + 60 \<and>
        unat (csumOffset hdr) = 16 \<and>
        unat (drop_bit 4 (pkt ! (unat (csumStart hdr) + 12))) * 4 = unat (hdrLen hdr) - unat (csumStart hdr) \<and>
        gsoType hdr = (if isV6 then GSO_TCPV6 else GSO_TCPV4)
      else unat (hdrLen hdr) = unat (csumStart hdr) + 8 \<and> unat (csumOffset hdr) = 6 \<and> gsoType hdr = GSO_UDP_L4)"

section \<open>Validation is total, and what it establishes\<close>

lemma check_outputs_total:
  "i + k \<le> length outs \<Longrightarrow> check_outputs outs off v iph mi h gso k (int i) rem \<noteq> None"
proof (induction k arbitrary: i rem)
  case (Suc k)
  have "check_outputs outs off v iph mi h gso k (int i + 1) rm \<noteq> None" for rm
    using Suc.IH [of "Suc i" rm] Suc.prems by (simp add: add.commute)
  with Suc.prems show ?case
    unfolding check_outputs.simps Let_def by (intro no_panic) (auto simp: elem_ok)
qed simp

lemma check_transport_total:
  "0 \<le> iph \<Longrightarrow> iph + th \<le> int (slen inp) \<Longrightarrow> check_transport inp hdr iph th \<noteq> None"
  unfolding check_transport_def Let_def by (intro no_panic) (auto simp: rd_def)

lemma segment_count_bounds:
  assumes "0 < g" "0 < p"
  obtains n where "segment_count (int p) (int g) = int (Suc n)" "n * g < p" "p \<le> Suc n * g"
proof (cases "p mod g = 0")
  case True
  then obtain m where "p = g * m" by auto
  moreover with assms obtain n where "m = Suc n" by (cases m) auto
  moreover from assms have "int g * (1 + int n) div int g = 1 + int n" by (intro nonzero_mult_div_cancel_left) simp
  ultimately show ?thesis using assms
    by (intro that [of n]) (auto simp: segment_count_def simp flip: zmod_int zdiv_int)
next
  case False
  have "p div g * g < p" using False by (metis div_mult_mod_eq less_add_same_cancel1 neq0_conv)
  moreover have "p < Suc (p div g) * g" using assms by (metis dividend_less_times_div mult.commute mult_Suc_right)
  moreover have "int p mod int g \<noteq> 0" using False by (simp flip: zmod_int)
  ultimately show ?thesis
    by (intro that [of "p div g"]) (auto simp: segment_count_def simp flip: zdiv_int)
qed

lemma validateGSOSplit_total: "validateGSOSplit inp hdr outs sizes off v \<noteq> None"
proof -
  have co: "check_outputs outs off v iph mi h gso (nat n) 0 rem \<noteq> None" if "\<not> int (length outs) < n" for iph mi h gso n rem
    using check_outputs_total [of 0 "nat n" outs] that by simp
  show ?thesis
    unfolding validateGSOSplit_def Let_def
    by (intro no_panic co check_transport_total) (auto simp: rd_def)
qed

text \<open>What a successful validation says, check by check.\<close>

lemma check_transport_Inr:
  assumes "check_transport inp hdr iph th = Some (Inr ())"
  shows "if gsoType hdr = GSO_UDP_L4 then th = 8 \<and> csumOffset hdr = 6
    else 20 \<le> th \<and> th \<le> 60 \<and> csumOffset hdr = 16 \<and> (\<exists>b. rd inp (iph + 12) = Some b \<and> uint (drop_bit 4 b) * 4 = th)"
  using assms by (auto simp: check_transport_def Let_def tun_consts bind_eq_Some_conv split: if_splits)

lemma check_ip_header_Inr:
  assumes "check_ip_header b isV6 iph mi = Inr ()"
  shows "mi \<le> iph \<and> (\<not> isV6 \<longrightarrow> iph = uint (b AND 0x0f) * 4)"
  using assms by (auto simp: check_ip_header_def Let_def split: if_splits)

lemma validateChecksumPosition_Inr:
  "validateChecksumPosition n st at = Inr () \<longleftrightarrow> uint st \<le> n \<and> uint st + uint at + 2 \<le> n"
  by (auto simp: validateChecksumPosition_def Let_def)

lemma validateVirtioReadOutputs_Inr:
  "validateVirtioReadOutputs outs sizes = Inr () \<longleftrightarrow> outs \<noteq> [] \<and> length outs \<le> length sizes"
  by (auto simp: validateVirtioReadOutputs_def)

lemma validateGSOSplit_Inr:
  assumes "validateGSOSplit inp hdr outs sizes off v = Some (Inr n)"
  obtains b0 where "outs \<noteq> []" "length outs \<le> length sizes" "gsoSize hdr \<noteq> 0" "rd inp 0 = Some b0"
    "drop_bit 4 b0 = (if v then 6 else 4)" "gsoType hdr \<in> {GSO_TCPV4, GSO_TCPV6, GSO_UDP_L4}"
    "gsoType hdr = GSO_TCPV4 \<longrightarrow> \<not> v" "gsoType hdr = GSO_TCPV6 \<longrightarrow> v"
    "check_ip_header b0 v (uint (csumStart hdr)) (if v then 40 else 20) = Inr ()"
    "uint (csumStart hdr) \<le> uint (hdrLen hdr)" "uint (hdrLen hdr) < int (slen inp)"
    "check_transport inp hdr (uint (csumStart hdr)) (uint (hdrLen hdr) - uint (csumStart hdr)) = Some (Inr ())"
    "n = segment_count (int (slen inp) - uint (hdrLen hdr)) (uint (gsoSize hdr))" "n \<le> int (length outs)"
    "check_outputs outs off v (uint (csumStart hdr)) (if v then 40 else 20) (uint (hdrLen hdr)) (uint (gsoSize hdr))
       (nat n) 0 (int (slen inp) - uint (hdrLen hdr)) = Some (Inr ())"
  using assms unfolding validateGSOSplit_def Let_def
  by (elim run_elims) (auto simp: validateVirtioReadOutputs_Inr intro: that)

lemma validateGSOSplit_headers:
  assumes "wf_slice inp" and val: "validateGSOSplit inp hdr outs sizes off v = Some (Inr n)"
  shows "gso_headers hdr v (vis inp)"
  using val
proof (cases rule: validateGSOSplit_Inr)
  case (1 b0)
  have b0: "b0 = vis inp ! 0" using 1(4) rd_ok [of 0 inp] assms(1) by (simp add: rd_def split: if_splits)
  have h: "unat (hdrLen hdr) < slen inp" using 1(11) by (simp flip: of_nat_less_iff [where 'a = int])
  have g: "0 < unat (gsoSize hdr)" using 1(3) by (simp add: unat_gt_0)
  note i = check_ip_header_Inr [OF 1(9)] and t = check_transport_Inr [OF 1(12)]
  have "unat (drop_bit 4 (vis inp ! (unat (csumStart hdr) + 12))) * 4 = unat (hdrLen hdr) - unat (csumStart hdr)"
    if "gso_tcp hdr"
  proof -
    have t': "gsoType hdr \<noteq> GSO_UDP_L4" using that by (auto simp: gso_tcp_def tun_consts)
    with t obtain b where b: "rd inp (uint (csumStart hdr) + 12) = Some b" "uint (drop_bit 4 b) * 4 = uint (hdrLen hdr) - uint (csumStart hdr)"
      by auto
    have "unat (csumStart hdr) + 12 < slen inp" using b(1) by (simp add: rd_def flip: of_nat_less_iff [where 'a = int] split: if_splits)
    then have "b = vis inp ! (unat (csumStart hdr) + 12)"
      using b(1) rd_ok [of "unat (csumStart hdr) + 12" inp] assms(1) by simp
    with b(2) 1(10) show ?thesis
      by (simp flip: of_nat_eq_iff [where 'a = int] add: int_ops(6))
  qed
  moreover have "unat (csumStart hdr) + 20 \<le> unat (hdrLen hdr) \<and> unat (hdrLen hdr) \<le> unat (csumStart hdr) + 60
      \<and> unat (csumOffset hdr) = 16" if "gso_tcp hdr"
    using t that by (auto simp: gso_tcp_def tun_consts simp flip: of_nat_le_iff [where 'a = int])
  moreover have "unat (hdrLen hdr) = unat (csumStart hdr) + 8 \<and> unat (csumOffset hdr) = 6" if "gsoType hdr = GSO_UDP_L4"
    using t that by (auto simp flip: of_nat_eq_iff [where 'a = int])
  moreover have "(if v then 40 else 20) \<le> unat (csumStart hdr)" "\<not> v \<longrightarrow> unat (csumStart hdr) = unat (b0 AND 0x0f) * 4"
    using i by (auto simp flip: of_nat_le_iff [where 'a = int] of_nat_eq_iff [where 'a = int])
  ultimately show ?thesis
    using 1(5-8) h g assms(1) by (auto simp: gso_headers_def gso_tcp_def b0)
qed

section \<open>The loop delivers the segments\<close>

text \<open>The outputs have room for \<open>k\<close> more segments, and no length field overflows.\<close>

fun outputs_fit :: "bool \<Rightarrow> nat \<Rightarrow> nat \<Rightarrow> nat \<Rightarrow> nat \<Rightarrow> nat \<Rightarrow> nat \<Rightarrow> gslice list \<Rightarrow> bool" where
  "outputs_fit v off c h gso 0 rem outs = True"
| "outputs_fit v off c h gso (Suc k) rem [] = False"
| "outputs_fit v off c h gso (Suc k) rem (out # outs) =
     (let T = h + min gso rem
      in off + T \<le> slen out \<and> (if v then T \<le> 65535 + 40 else T \<le> 65535) \<and> T \<le> 65535 + c \<and>
         outputs_fit v off c h gso k (rem - min gso rem) outs)"

lemma check_outputs_fit:
  assumes "check_outputs outs off v (int c) (if v then 40 else 20) (int h) (int gso) k (int i) (int rem) = Some (Inr ())"
    and "i \<le> length outs"
  shows "outputs_fit v (nat off) c h gso k rem (drop i outs) \<and> (0 < k \<longrightarrow> 0 \<le> off)"
  using assms
proof (induction k arbitrary: i rem)
  case (Suc k)
  have m: "min (int gso) (int rem) = int (min gso rem)" "int rem - int (min gso rem) = int (rem - min gso rem)"
    by (simp_all add: of_nat_min)
  from Suc.prems(1) obtain out where o: "elem outs (int i) = Some out" "validateOutputOffset out off (int i) = Inr ()"
    "if v then h + min gso rem \<le> 65535 + 40 else h + min gso rem \<le> 65535" "h + min gso rem \<le> 65535 + c"
    "int (h + min gso rem) \<le> int (slen out) - off"
    "check_outputs outs off v (int c) (if v then 40 else 20) (int h) (int gso) k (int (Suc i)) (int (rem - min gso rem)) = Some (Inr ())"
    unfolding check_outputs.simps Let_def m
    by (elim run_elims) (auto simp: tun_consts add.commute)
  have i: "i < length outs" "out = outs ! i" using o(1) by (auto simp: elem_def split: if_splits)
  have off: "0 \<le> off" using o(2) by (auto simp: validateOutputOffset_def split: if_splits)
  have "outputs_fit v (nat off) c h gso k (rem - min gso rem) (drop (Suc i) outs)"
    using Suc.IH [OF o(6)] i by simp
  moreover have "nat off + (h + min gso rem) \<le> slen out" using o(5) off by linarith
  ultimately show ?case using o(3,4) i off
    by (auto simp: Cons_nth_drop_Suc [symmetric] Let_def)
qed simp

lemma gso_headersD:
  assumes "gso_headers hdr v pkt"
  shows "14 \<le> unat (hdrLen hdr) - unat (csumStart hdr)
      \<or> gso_protocol hdr \<noteq> IPPROTO_TCP \<and> 6 \<le> unat (hdrLen hdr) - unat (csumStart hdr)"
    and "unat (csumStart hdr) \<le> unat (hdrLen hdr)" and "unat (csumStart hdr) + unat (csumOffset hdr) + 2 \<le> unat (hdrLen hdr)"
    and "v \<longrightarrow> 40 \<le> unat (csumStart hdr)" and "\<not> v \<longrightarrow> 20 \<le> unat (csumStart hdr)"
    and "unat (hdrLen hdr) < length pkt" and "0 < unat (gsoSize hdr)"
  using assms by (auto simp: gso_headers_def gso_protocol_def tun_consts split: if_splits)

lemma length_seg_tr:
  assumes "14 \<le> length th \<or> p \<noteq> IPPROTO_TCP \<and> 6 \<le> length th" "co + 2 \<le> length th"
  shows "length (seg_tr en co p q lst sa da th pl) = length th + length pl"
  using assms by (simp add: seg_tr_def Let_def)

lemma length_gso_seg:
  assumes "gso_headers hdr v pkt" and "a + d \<le> length pkt"
  shows "length (gso_seg en hdr v pkt i a d) = unat (hdrLen hdr) + d"
proof -
  note h = gso_headersD [OF assms(1)]
  have "length (drop (unat (csumStart hdr)) (take (unat (hdrLen hdr)) pkt)) = unat (hdrLen hdr) - unat (csumStart hdr)"
    using h by simp
  then show ?thesis
    unfolding gso_seg_def Let_def length_append
    using h assms(2) by (subst length_seg_tr; cases v) auto
qed

text \<open>The headers give what \<open>gso_segment_eq\<close> needs.\<close>

lemma gso_segment_seg:
  assumes wf: "wf_slice inp" and hd: "gso_headers hdr v (vis inp)" and a: "unat (hdrLen hdr) \<le> a" "a + d \<le> slen inp"
    and out: "wf_slice out" "off + (unat (hdrLen hdr) + d) \<le> slen out"
  shows "gso_segment en inp hdr v (gso_protocol hdr) (gso_seq hdr (vis inp)) (int i) (int a) (int d)
      \<lparr>sarr = drop off (sarr out), slen = unat (hdrLen hdr) + d\<rparr>
    = Some \<lparr>sarr = splice (drop off (sarr out)) 0 (gso_seg en hdr v (vis inp) i a d), slen = unat (hdrLen hdr) + d\<rparr>"
proof -
  define h where "h = unat (hdrLen hdr)"
  have O: "drop off (sarr out) = take (h + d) (drop off (sarr out)) @ drop (h + d) (drop off (sarr out))"
    by (simp only: append_take_drop_id)
  have lo: "length (take (h + d) (drop off (sarr out))) = h + d"
    using out by (simp add: h_def wf_slice_def)
  note c = gso_headersD [OF hd]
  have u: "uint (csumStart hdr) = int (unat (csumStart hdr))" "uint (hdrLen hdr) = int h" "uint (csumOffset hdr) = int (unat (csumOffset hdr))"
    by (simp_all add: h_def)
  note e = gso_segment_eq [of inp "slen inp" hdr "unat (csumStart hdr)" h "unat (csumOffset hdr)" a v "gso_protocol hdr" d
      "take (h + d) (drop off (sarr out))" en "gso_seq hdr (vis inp)" i "drop (h + d) (drop off (sarr out))",
      OF wf refl u c(2,3) [folded h_def] a(1) [folded h_def] c(4,5) c(1) [folded h_def] a(2) lo]
  have "splice (drop off (sarr out)) 0 (gso_seg en hdr v (vis inp) i a d)
      = gso_seg en hdr v (vis inp) i a d @ drop (h + d) (drop off (sarr out))"
    using length_gso_seg [OF hd] wf a(2) by (simp add: splice_def h_def del: drop_drop)
  then show ?thesis
    using e wf unfolding O [symmetric] h_def [symmetric]
    by (simp only: gso_seg_def Let_def h_def [symmetric] src_addr_def dst_addr_def append_assoc length_vis)
qed

lemma gso_loop_eq:
  assumes wf: "wf_slice inp" and hd: "gso_headers hdr v (vis inp)" and a: "unat (hdrLen hdr) \<le> a" "a \<le> slen inp"
    and fit: "outputs_fit v off c (unat (hdrLen hdr)) (unat (gsoSize hdr)) k (slen inp - a) os"
    and l: "length os0 = length zs0" "length os \<le> length zs" and wfo: "\<forall>out\<in>set os. wf_slice out"
  shows "gso_loop en inp hdr (int off) v (gso_protocol hdr) (gso_seq hdr (vis inp)) k (int (length os0)) (int a) (os0 @ os) (zs0 @ zs)
    = Some (let segs = gso_segs en hdr v (vis inp) k (length os0) a
            in (os0 @ deliver off segs os, zs0 @ map (int \<circ> length) segs @ drop k zs))"
  using a fit l wfo
proof (induction k arbitrary: a os0 os zs0 zs)
  case (Suc k)
  define h where "h = unat (hdrLen hdr)"
  define d where "d = min (unat (gsoSize hdr)) (slen inp - a)"
  have d: "min (uint (gsoSize hdr)) (int (slen inp) - int a) = int d"
    using Suc.prems(2) by (simp add: d_def of_nat_min int_ops(6))
  have ad: "a + d \<le> slen inp" "slen inp - a - d = slen inp - (a + d)" using Suc.prems(2) by (auto simp: d_def)
  obtain out os' where os: "os = out # os'" using Suc.prems(3) by (cases os) auto
  then obtain z zs' where zs: "zs = z # zs'" using Suc.prems(5) by (cases zs) auto
  have o: "off + (h + d) \<le> slen out" "wf_slice out"
      "outputs_fit v off c h (unat (gsoSize hdr)) k (slen inp - (a + d)) os'"
    using Suc.prems(3,6) ad by (auto simp: os Let_def d_def h_def)
  define seg where "seg = gso_seg en hdr v (vis inp) (length os0) a d"
  have IH: "gso_loop en inp hdr (int off) v (gso_protocol hdr) (gso_seq hdr (vis inp)) k (int (length (os0 @ [x])))
      (int (a + d)) ((os0 @ [x]) @ os') ((zs0 @ [y]) @ zs')
    = Some (let segs = gso_segs en hdr v (vis inp) k (length (os0 @ [x])) (a + d)
            in ((os0 @ [x]) @ deliver off segs os', (zs0 @ [y]) @ map (int \<circ> length) segs @ drop k zs'))" for x y
    using Suc.prems Suc.IH [of "a + d" os' "os0 @ [x]" "zs0 @ [y]" zs'] ad o by (simp add: os zs h_def comp_def)
  have sb: "sub out (int off) (int off + (uint (hdrLen hdr) + int d)) = Some \<lparr>sarr = drop off (sarr out), slen = h + d\<rparr>"
  proof -
    have "uint (hdrLen hdr) = int h" by (simp add: h_def)
    then show ?thesis using o by (simp add: sub_def wf_slice_def nat_add_distrib)
  qed
  have sg: "gso_segment en inp hdr v (gso_protocol hdr) (gso_seq hdr (vis inp)) (int (length os0)) (int a) (int d)
      \<lparr>sarr = drop off (sarr out), slen = h + d\<rparr> = Some \<lparr>sarr = splice (drop off (sarr out)) 0 seg, slen = h + d\<rparr>"
    using gso_segment_seg [OF wf hd Suc.prems(1) ad(1) o(2)] o(1) by (simp add: h_def seg_def)
  have ls: "length seg = h + d" using length_gso_seg [OF hd] ad wf by (simp add: seg_def h_def)
  have pb: "put_back out (int off) \<lparr>sarr = splice (drop off (sarr out)) 0 seg, slen = h + d\<rparr>
      = out\<lparr>sarr := splice (sarr out) off seg\<rparr>"
    using o ls by (simp add: put_back_def splice_def add.commute)
  have tl: "uint (hdrLen hdr) + int d = int (length seg)" "int a + int d = int (a + d)" by (simp_all add: ls h_def)
  have segs: "gso_segs en hdr v (vis inp) (Suc k) (length os0) a
      = seg # gso_segs en hdr v (vis inp) k (Suc (length os0)) (a + d)"
    using wf by (simp add: Let_def d_def seg_def)
  have len: "length zs0 = length os0" using Suc.prems(4) by simp
  show ?case
    unfolding gso_loop.simps Let_def d segs using IH [unfolded Let_def] unfolding tl
    by (simp add: os zs sb [unfolded tl] sg elem_def set_elem_def pb comp_def len list_update_append add.commute [of 1 "int (length os0)"] del: of_nat_add)
qed simp

definition gso_count :: "virtioNetHdr \<Rightarrow> byte list \<Rightarrow> int" where
  "gso_count hdr pkt = segment_count (int (length pkt) - uint (hdrLen hdr)) (uint (gsoSize hdr))"

definition gso_packets :: "endian \<Rightarrow> virtioNetHdr \<Rightarrow> bool \<Rightarrow> byte list \<Rightarrow> byte list list" where
  "gso_packets en hdr isV6 pkt = gso_segs en hdr isV6 pkt (nat (gso_count hdr pkt)) 0 (unat (hdrLen hdr))"

lemma gso_loop_packets:
  assumes wf: "wf_slice inp" "\<forall>out\<in>set outs. wf_slice out"
    and val: "validateGSOSplit inp hdr outs sizes off v = Some (Inr n)"
  shows "gso_loop en inp hdr off v (gso_protocol hdr) (gso_seq hdr (vis inp)) (nat n) 0 (uint (hdrLen hdr)) outs sizes
    = Some (deliver (nat off) (gso_packets en hdr v (vis inp)) outs,
        map (int \<circ> length) (gso_packets en hdr v (vis inp)) @ drop (nat n) sizes)"
    and "n = gso_count hdr (vis inp)" and "0 < n" and "0 \<le> off" and "n \<le> int (length outs)" and "length outs \<le> length sizes"
    and "outputs_fit v (nat off) (unat (csumStart hdr)) (unat (hdrLen hdr)) (unat (gsoSize hdr)) (nat n)
      (slen inp - unat (hdrLen hdr)) outs"
proof -
  define h where "h = unat (hdrLen hdr)"
  note hd = validateGSOSplit_headers [OF wf(1) val]
  note hf = gso_headersD [OF hd]
  have hl: "h < slen inp" using hf(6) wf by (simp add: h_def)
  have hd2: "int (slen inp) - uint (hdrLen hdr) = int (slen inp - h)" using hl by (simp add: h_def of_nat_diff)
  have hu: "uint (hdrLen hdr) = int h" by (simp add: h_def)
  have F: "n = segment_count (int (slen inp) - uint (hdrLen hdr)) (uint (gsoSize hdr))" "n \<le> int (length outs)"
    "length outs \<le> length sizes"
    "check_outputs outs off v (uint (csumStart hdr)) (if v then 40 else 20) (uint (hdrLen hdr)) (uint (gsoSize hdr))
       (nat n) 0 (int (slen inp) - uint (hdrLen hdr)) = Some (Inr ())"
    by (rule validateGSOSplit_Inr [OF val], assumption)+
  show n: "n = gso_count hdr (vis inp)" using wf F(1) by (simp add: gso_count_def)
  obtain m where "segment_count (int (slen inp - h)) (int (unat (gsoSize hdr))) = int (Suc m)"
    by (rule segment_count_bounds [of "unat (gsoSize hdr)" "slen inp - h", OF hf(7)]) (use hl in simp_all)
  then have m: "n = int (Suc m)" by (simp only: F(1) hd2 uint_nat [of "gsoSize hdr"])
  show "0 < n" by (simp add: m)
  have fit: "outputs_fit v (nat off) (unat (csumStart hdr)) h (unat (gsoSize hdr)) (nat n) (slen inp - h) (drop 0 outs) \<and>
      (0 < nat n \<longrightarrow> 0 \<le> off)"
    by (rule check_outputs_fit) (use F(4) [unfolded hd2] in \<open>simp_all add: h_def\<close>)
  then show off: "0 \<le> off" using m by simp
  show le: "n \<le> int (length outs)" "length outs \<le> length sizes" by (rule F)+
  show f: "outputs_fit v (nat off) (unat (csumStart hdr)) (unat (hdrLen hdr)) (unat (gsoSize hdr)) (nat n)
      (slen inp - unat (hdrLen hdr)) outs" using fit by (simp add: h_def)
  show "gso_loop en inp hdr off v (gso_protocol hdr) (gso_seq hdr (vis inp)) (nat n) 0 (uint (hdrLen hdr)) outs sizes
    = Some (deliver (nat off) (gso_packets en hdr v (vis inp)) outs,
        map (int \<circ> length) (gso_packets en hdr v (vis inp)) @ drop (nat n) sizes)"
  proof -
    have "gso_packets en hdr v (vis inp) = gso_segs en hdr v (vis inp) (nat n) 0 h"
      by (simp only: gso_packets_def n h_def)
    moreover have "gso_loop en inp hdr (int (nat off)) v (gso_protocol hdr) (gso_seq hdr (vis inp)) (nat n) (int (length ([] :: gslice list)))
        (int h) ([] @ outs) ([] @ sizes)
      = Some (let segs = gso_segs en hdr v (vis inp) (nat n) (length ([] :: gslice list)) h
              in ([] @ deliver (nat off) segs outs, [] @ map (int \<circ> length) segs @ drop (nat n) sizes))"
      by (rule gso_loop_eq [OF wf(1) hd]) (use f hl le wf(2) in \<open>simp_all add: h_def\<close>)
    ultimately show ?thesis using off by (simp add: hu Let_def)
  qed
qed

end
