(* ===== verification/Gso_Segments.thy ===== *)
theory Gso_Segments
  imports Gso_Split
begin

text \<open>
  What the segments of \<open>gsoSplit\<close> are worth to a receiver: their payloads concatenate to the payload
  of the frame, their length, identification, sequence number and flag fields are the ones of a
  segmented connection, and their checksums verify.
\<close>

section \<open>Payloads\<close>

lemma gso_segs_nth:
  assumes "i < k" "a + i * unat (gsoSize hdr) \<le> length pkt"
  shows "gso_segs en hdr v pkt k j a ! i = gso_seg en hdr v pkt (j + i) (a + i * unat (gsoSize hdr))
    (min (unat (gsoSize hdr)) (length pkt - (a + i * unat (gsoSize hdr))))"
  using assms
proof (induction k arbitrary: i j a)
  case (Suc k)
  show ?case
  proof (cases i)
    case (Suc i')
    have "min (unat (gsoSize hdr)) (length pkt - a) = unat (gsoSize hdr)" using Suc.prems(2) Suc by simp
    then show ?thesis using Suc Suc.IH [of i' "a + unat (gsoSize hdr)" "Suc j"] Suc.prems
      by (simp add: Let_def add.assoc)
  qed (simp add: Let_def)
qed simp

lemma gso_count_bounds:
  assumes "gso_headers hdr v pkt"
  obtains n where "gso_count hdr pkt = int (Suc n)" "unat (hdrLen hdr) + n * unat (gsoSize hdr) < length pkt"
    "length pkt \<le> unat (hdrLen hdr) + Suc n * unat (gsoSize hdr)"
proof -
  note h = gso_headersD(6,7) [OF assms]
  define P where "P = length pkt - unat (hdrLen hdr)"
  have P: "0 < P" "int (length pkt) - uint (hdrLen hdr) = int P" using h by (simp_all add: P_def of_nat_diff)
  obtain n where n: "segment_count (int P) (int (unat (gsoSize hdr))) = int (Suc n)" "n * unat (gsoSize hdr) < P"
      "P \<le> Suc n * unat (gsoSize hdr)"
    by (rule segment_count_bounds [OF h(2) P(1)])
  show ?thesis
    by (rule that [of n]) (use n P(2) h in \<open>auto simp: gso_count_def P_def uint_nat [of "gsoSize hdr"] simp del: of_nat_unat\<close>)
qed

lemma gso_packets_nth:
  assumes hd: "gso_headers hdr v pkt" and i: "i < length (gso_packets en hdr v pkt)"
  shows "gso_packets en hdr v pkt ! i = gso_seg en hdr v pkt i (unat (hdrLen hdr) + i * unat (gsoSize hdr))
      (min (unat (gsoSize hdr)) (length pkt - (unat (hdrLen hdr) + i * unat (gsoSize hdr))))"
    and "unat (hdrLen hdr) + i * unat (gsoSize hdr) < length pkt"
proof -
  obtain n where n: "gso_count hdr pkt = int (Suc n)" "unat (hdrLen hdr) + n * unat (gsoSize hdr) < length pkt"
    by (rule gso_count_bounds [OF hd])
  have "i \<le> n" using i n(1) by (simp add: gso_packets_def)
  then have "i * unat (gsoSize hdr) \<le> n * unat (gsoSize hdr)" by simp
  with n(2) show l: "unat (hdrLen hdr) + i * unat (gsoSize hdr) < length pkt" by linarith
  show "gso_packets en hdr v pkt ! i = gso_seg en hdr v pkt i (unat (hdrLen hdr) + i * unat (gsoSize hdr))
      (min (unat (gsoSize hdr)) (length pkt - (unat (hdrLen hdr) + i * unat (gsoSize hdr))))"
    unfolding gso_packets_def using i l
    by (subst gso_segs_nth) (auto simp: gso_packets_def)
qed

lemma drop_gso_seg:
  assumes "gso_headers hdr v pkt" and "a + d \<le> length pkt"
  shows "drop (unat (hdrLen hdr)) (gso_seg en hdr v pkt i a d) = take d (drop a pkt)"
proof -
  note h = gso_headersD [OF assms(1)]
  define th where "th = drop (unat (csumStart hdr)) (take (unat (hdrLen hdr)) pkt)"
  have l: "length th = unat (hdrLen hdr) - unat (csumStart hdr)" using h by (simp add: th_def)
  have "drop (length th) (seg_tr en (unat (csumOffset hdr)) p q lst sa da th pl) = pl" if "p = gso_protocol hdr" for p q lst sa da pl
    using h l that by (simp add: seg_tr_def Let_def)
  then show ?thesis
    unfolding gso_seg_def Let_def th_def [symmetric] using h l
    by (cases v) (simp_all add: drop_append)
qed

lemma concat_gso_segs:
  assumes "gso_headers hdr v pkt" and "a \<le> length pkt"
  shows "concat (map (drop (unat (hdrLen hdr))) (gso_segs en hdr v pkt k i a)) = take (k * unat (gsoSize hdr)) (drop a pkt)"
  using assms(2)
proof (induction k arbitrary: i a)
  case (Suc k)
  define d where "d = min (unat (gsoSize hdr)) (length pkt - a)"
  have "concat (map (drop (unat (hdrLen hdr))) (gso_segs en hdr v pkt (Suc k) i a))
      = take d (drop a pkt) @ take (k * unat (gsoSize hdr)) (drop (a + d) pkt)"
    using Suc drop_gso_seg [OF assms(1), of a d] by (simp add: Let_def d_def)
  also have "take d (drop a pkt) = take (unat (gsoSize hdr)) (drop a pkt)"
    using Suc.prems by (cases "unat (gsoSize hdr) \<le> length pkt - a") (auto simp: d_def)
  also have "take (k * unat (gsoSize hdr)) (drop (a + d) pkt) = take (k * unat (gsoSize hdr)) (drop (a + unat (gsoSize hdr)) pkt)"
    using Suc.prems by (cases "unat (gsoSize hdr) \<le> length pkt - a") (auto simp: d_def)
  also have "take (unat (gsoSize hdr)) (drop a pkt) @ take (k * unat (gsoSize hdr)) (drop (a + unat (gsoSize hdr)) pkt)
      = take (Suc k * unat (gsoSize hdr)) (drop a pkt)"
    by (simp only: mult_Suc take_add drop_drop add.commute [of a])
  finally show ?case .
qed simp

lemma concat_gso_packets:
  assumes "gso_headers hdr v pkt"
  shows "concat (map (drop (unat (hdrLen hdr))) (gso_packets en hdr v pkt)) = drop (unat (hdrLen hdr)) pkt"
proof -
  obtain n where n: "gso_count hdr pkt = int (Suc n)" "length pkt \<le> unat (hdrLen hdr) + Suc n * unat (gsoSize hdr)"
    by (rule gso_count_bounds [OF assms])
  have "nat (gso_count hdr pkt) = Suc n" by (simp only: n(1) nat_int)
  moreover have "take (Suc n * unat (gsoSize hdr)) (drop (unat (hdrLen hdr)) pkt) = drop (unat (hdrLen hdr)) pkt"
    using n(2) by (intro take_all) simp
  ultimately show ?thesis
    unfolding gso_packets_def using concat_gso_segs [OF assms, of "unat (hdrLen hdr)" en "Suc n" 0] gso_headersD(6) [OF assms]
    by (simp only: less_imp_le)
qed

section \<open>Headers and checksums\<close>

lemma splice_two_self: "i + 2 \<le> length xs \<Longrightarrow> xs ! i = a \<Longrightarrow> xs ! Suc i = b \<Longrightarrow> splice xs i [a, b] = xs"
  by (auto simp: nth_splice less_Suc_eq intro!: nth_equalityI)

lemma splice_zero_seg_tr1:
  assumes "(tcp \<and> co = 16 \<and> 20 \<le> length th) \<or> (\<not> tcp \<and> co = 6 \<and> 8 \<le> length th)"
  shows "splice (seg_tr1 tcp q lst d (splice th co [0, 0])) co [0, 0] = seg_tr1 tcp q lst d (splice th co [0, 0])"
  using assms
proof
  assume "tcp \<and> co = 16 \<and> 20 \<le> length th"
  then show ?thesis by (intro splice_two_self) (simp_all add: seg_tr1_def Let_def nth_splice)
next
  assume "\<not> tcp \<and> co = 6 \<and> 8 \<le> length th"
  then show ?thesis by (intro splice_two_self) (simp_all add: seg_tr1_def Let_def nth_splice)
qed

lemma seg_tr_verifies:
  assumes "(p = IPPROTO_TCP \<and> co = 16 \<and> 20 \<le> length th) \<or> (p \<noteq> IPPROTO_TCP \<and> co = 6 \<and> 8 \<le> length th)"
  shows "checksum en (seg_tr en co p q lst sa da th pl)
    (pseudoHeaderChecksumNoFold en p sa da (of_nat (length th + length pl))) = 0xffff"
proof -
  define t where "t = seg_tr1 (p = IPPROTO_TCP) q lst (length pl) (splice th co [0, 0]) @ pl"
  have l: "length t = length th + length pl" using assms by (auto simp: t_def)
  have z: "t = splice t co [0, 0]"
    using splice_zero_seg_tr1 [of "p = IPPROTO_TCP" co th q lst "length pl"] assms by (auto simp: t_def)
  have "even co" "co + 2 \<le> length t" using assms l by auto
  from go_checksum.csum_fill [OF this z, of en] show ?thesis
    using l by (simp add: seg_tr_def Let_def t_def [symmetric])
qed

lemma seg_ip_verifies:
  assumes "20 \<le> length iph"
  shows "checksum en (seg_ip en False T i iph) 0 = 0xffff"
proof -
  define x where "x = splice (splice (if 0 < i then splice iph 4 (be16 (of_nat (be_nat (take 2 (drop 4 iph))) + of_nat i))
    else iph) 2 (be16 (of_nat T))) 10 [0, 0 :: byte]"
  have "even (10 :: nat)" "10 + 2 \<le> length x" "x = splice x 10 [0, 0]" using assms by (auto simp: x_def)
  from go_checksum.csum_fill [OF this, of en] show ?thesis
    unfolding seg_ip_def Let_def if_False x_def by blast
qed

lemma nth_seg_ip:
  assumes "(if v then 40 else 20) \<le> length iph" and "j < length iph" and "j \<notin> (if v then {4, 5} else {2, 3, 4, 5, 10, 11})"
  shows "seg_ip en v T i iph ! j = iph ! j"
proof (cases v)
  case True
  with assms show ?thesis by (auto simp: seg_ip_def nth_splice)
next
  case False
  define x where "x = (if 0 < i then splice iph 4 (be16 (of_nat (be_nat (take 2 (drop 4 iph))) + of_nat i)) else iph)"
  have "x ! j = iph ! j" "length x = length iph" using assms False by (auto simp: x_def nth_splice)
  then show ?thesis using assms False
    by (auto simp: seg_ip_def Let_def x_def [symmetric] nth_splice)
qed

lemma take_drop_splice_other:
  "k + n \<le> i \<or> i + length ys \<le> k \<Longrightarrow> i + length ys \<le> length xs \<Longrightarrow>
   take n (drop k (splice xs i ys)) = take n (drop k xs)"
proof (elim disjE)
  assume "k + n \<le> i" "i + length ys \<le> length xs"
  then show ?thesis by (simp add: drop_splice_before)
next
  assume "i + length ys \<le> k" "i + length ys \<le> length xs"
  then show ?thesis by (cases "k \<le> length xs") (simp_all add: splice_def)
qed

text \<open>Big-endian fields of a packet.\<close>

definition field16 :: "byte list \<Rightarrow> nat \<Rightarrow> nat" where
  "field16 p k = be_nat (take 2 (drop k p))"

definition field32 :: "byte list \<Rightarrow> nat \<Rightarrow> nat" where
  "field32 p k = be_nat (take 4 (drop k p))"

lemma field16_splice:
  "i + length ys \<le> length xs \<Longrightarrow> k + 2 \<le> i \<or> i + length ys \<le> k \<Longrightarrow> field16 (splice xs i ys) k = field16 xs k"
  "k + 2 \<le> length xs \<Longrightarrow> field16 (splice xs k (be16 w)) k = unat w"
  by (simp_all add: field16_def take_drop_splice_other)

lemma field32_splice:
  "i + length ys \<le> length xs \<Longrightarrow> k + 4 \<le> i \<or> i + length ys \<le> k \<Longrightarrow> field32 (splice xs i ys) k = field32 xs k"
  "k + 4 \<le> length xs \<Longrightarrow> field32 (splice xs k (be32 w)) k = unat w"
  by (simp_all add: field32_def take_drop_splice_other)

lemma field_append1:
  "k + 2 \<le> length xs \<Longrightarrow> field16 (xs @ ys) k = field16 xs k"
  "k + 4 \<le> length xs \<Longrightarrow> field32 (xs @ ys) k = field32 xs k"
  by (simp_all add: field16_def field32_def)

lemma field_append2:
  "field16 (xs @ ys) (length xs + k) = field16 ys k"
  "field32 (xs @ ys) (length xs + k) = field32 ys k"
  by (simp_all add: field16_def field32_def)

lemma unat_of_nat32: "unat (of_nat n :: u32) = n mod 2 ^ 32"
  by (simp add: unat_of_nat take_bit_eq_mod)

lemma seg_ip_fields4:
  assumes "20 \<le> length iph" and "T \<le> 65535"
  shows "field16 (seg_ip en False T i iph) 2 = T"
    and "field16 (seg_ip en False T i iph) 4 = (field16 iph 4 + i) mod 65536"
proof -
  define x where "x = (if 0 < i then splice iph 4 (be16 (of_nat (be_nat (take 2 (drop 4 iph))) + of_nat i)) else iph)"
  have l: "length x = length iph" using assms by (auto simp: x_def)
  show "field16 (seg_ip en False T i iph) 2 = T"
    using assms l by (simp add: seg_ip_def Let_def x_def [symmetric] field16_splice unat_of_nat take_bit_nat_eq_self)
  have "field16 iph 4 < 65536" using be_nat_bound [of "take 2 (drop 4 iph)"] assms by (simp add: field16_def)
  moreover have "unat (of_nat (be_nat (take 2 (drop 4 iph))) + of_nat i :: u16) = (field16 iph 4 + i) mod 65536"
    by (simp add: field16_def unat_of_nat take_bit_eq_mod flip: of_nat_add)
  ultimately have "field16 x 4 = (field16 iph 4 + i) mod 65536"
    using assms by (simp add: x_def field16_splice)
  then show "field16 (seg_ip en False T i iph) 4 = (field16 iph 4 + i) mod 65536"
    using assms l by (simp add: seg_ip_def Let_def x_def [symmetric] field16_splice)
qed

lemma seg_ip_fields6:
  "40 \<le> length iph \<Longrightarrow> T - length iph \<le> 65535 \<Longrightarrow> field16 (seg_ip en True T i iph) 4 = T - length iph"
  by (simp add: seg_ip_def field16_splice unat_of_nat take_bit_nat_eq_self)

lemma seg_tr_tcp:
  assumes "20 \<le> length th"
  shows "field32 (seg_tr en 16 IPPROTO_TCP q lst sa da th pl) 4 = unat q"
    and "seg_tr en 16 IPPROTO_TCP q lst sa da th pl ! 13 = (if lst then th ! 13 else th ! 13 AND NOT (tcpFlagFIN OR tcpFlagPSH))"
  using assms by (simp_all add: seg_tr_def seg_tr1_def Let_def nth_splice field32_splice nth_append field_append1)

lemma seg_tr_udp:
  assumes "8 \<le> length th" and "length th + length pl \<le> 65535"
  shows "field16 (seg_tr en 6 IPPROTO_UDP q lst sa da th pl) 4 = length th + length pl"
proof -
  have "unat (of_nat (length th) + of_nat (length pl) :: u16) = length th + length pl"
    using assms(2) by (simp add: unat_of_nat take_bit_nat_eq_self flip: of_nat_add)
  then show ?thesis
    using assms by (simp add: seg_tr_def seg_tr1_def Let_def tun_consts field16_splice field_append1)
qed

text \<open>The shape of one segment of the frame.\<close>

lemma gso_packet_shape:
  assumes hd: "gso_headers hdr v pkt" and i: "i < length (gso_packets en hdr v pkt)"
  obtains iph th pl lst T where
    "gso_packets en hdr v pkt ! i = seg_ip en v T i iph @ seg_tr en (unat (csumOffset hdr)) (gso_protocol hdr)
       (gso_seq hdr pkt + of_nat (i * unat (gsoSize hdr))) lst (src_addr v pkt) (dst_addr v pkt) th pl"
    "iph = take (unat (csumStart hdr)) pkt" "th = drop (unat (csumStart hdr)) (take (unat (hdrLen hdr)) pkt)"
    "length iph = unat (csumStart hdr)" "length th = unat (hdrLen hdr) - unat (csumStart hdr)"
    "pl = take (unat (gsoSize hdr)) (drop (unat (hdrLen hdr) + i * unat (gsoSize hdr)) pkt)"
    "lst \<longleftrightarrow> Suc i = length (gso_packets en hdr v pkt)" "T = unat (hdrLen hdr) + length pl"
    "length (gso_packets en hdr v pkt ! i) = T"
proof -
  define a where "a = unat (hdrLen hdr) + i * unat (gsoSize hdr)"
  define d where "d = min (unat (gsoSize hdr)) (length pkt - a)"
  note h = gso_headersD [OF hd] and nth = gso_packets_nth [OF hd i, folded a_def, folded d_def]
  have ad: "a + d \<le> length pkt" using nth(2) by (simp add: d_def)
  have l: "length (take d (drop a pkt)) = d" using ad by simp
  have pl: "take d (drop a pkt) = take (unat (gsoSize hdr)) (drop a pkt)" by (simp add: d_def min_def)
  obtain n where n: "gso_count hdr pkt = int (Suc n)" "unat (hdrLen hdr) + n * unat (gsoSize hdr) < length pkt"
    "length pkt \<le> unat (hdrLen hdr) + Suc n * unat (gsoSize hdr)" by (rule gso_count_bounds [OF hd])
  have len: "length (gso_packets en hdr v pkt) = Suc n" by (simp add: gso_packets_def n(1) nat_add_distrib del: gso_segs.simps)
  have "a + d = length pkt \<longleftrightarrow> i = n"
  proof
    assume "i = n" then show "a + d = length pkt" using n(2,3) by (simp add: a_def d_def)
  next
    assume e: "a + d = length pkt"
    then have "length pkt \<le> unat (hdrLen hdr) + (i + 1) * unat (gsoSize hdr)" by (simp add: a_def d_def)
    then have "n * unat (gsoSize hdr) < (i + 1) * unat (gsoSize hdr)" using n(2) by linarith
    then have "n < i + 1" by (simp only: mult_less_cancel2)
    then show "i = n" using i len by simp
  qed
  then have lst: "a + d = length pkt \<longleftrightarrow> Suc i = length (gso_packets en hdr v pkt)" using len by simp
  show ?thesis
  proof (rule that)
    show "gso_packets en hdr v pkt ! i = seg_ip en v (unat (hdrLen hdr) + d) i (take (unat (csumStart hdr)) pkt)
      @ seg_tr en (unat (csumOffset hdr)) (gso_protocol hdr) (gso_seq hdr pkt + of_nat (i * unat (gsoSize hdr))) (a + d = length pkt)
         (src_addr v pkt) (dst_addr v pkt) (drop (unat (csumStart hdr)) (take (unat (hdrLen hdr)) pkt)) (take d (drop a pkt))"
      by (simp add: nth(1) gso_seg_def Let_def a_def)
    show "length (gso_packets en hdr v pkt ! i) = unat (hdrLen hdr) + d"
      unfolding nth(1) by (rule length_gso_seg [OF hd ad])
    show "take d (drop a pkt) = take (unat (gsoSize hdr)) (drop (unat (hdrLen hdr) + i * unat (gsoSize hdr)) pkt)"
      using pl by (simp add: a_def)
  qed (use h l lst in auto)
qed

lemma gso_packet_checksums:
  assumes hd: "gso_headers hdr v pkt" and i: "i < length (gso_packets en hdr v pkt)" and p: "p = gso_packets en hdr v pkt ! i"
  shows "\<not> v \<Longrightarrow> checksum en (take (unat (csumStart hdr)) p) 0 = 0xffff"
    and "checksum en (drop (unat (csumStart hdr)) p) (pseudoHeaderChecksumNoFold en (gso_protocol hdr)
      (src_addr v p) (dst_addr v p) (of_nat (length p - unat (csumStart hdr)))) = 0xffff"
proof -
  obtain iph th pl lst T where s: "p = seg_ip en v T i iph @ seg_tr en (unat (csumOffset hdr)) (gso_protocol hdr)
       (gso_seq hdr pkt + of_nat (i * unat (gsoSize hdr))) lst (src_addr v pkt) (dst_addr v pkt) th pl"
    "iph = take (unat (csumStart hdr)) pkt" "length iph = unat (csumStart hdr)" "length th = unat (hdrLen hdr) - unat (csumStart hdr)"
    "T = unat (hdrLen hdr) + length pl" "length p = T"
    using gso_packet_shape [OF hd i] p by metis
  note h = gso_headersD [OF hd]
  have li: "length (seg_ip en v T i iph) = unat (csumStart hdr)" using h s(3) by (cases v) auto
  show "checksum en (take (unat (csumStart hdr)) p) 0 = 0xffff" if "\<not> v"
    using seg_ip_verifies [of iph en T i] h that s(1,3) li by simp
  have c: "(gso_protocol hdr = IPPROTO_TCP \<and> unat (csumOffset hdr) = 16 \<and> 20 \<le> length th)
      \<or> (gso_protocol hdr \<noteq> IPPROTO_TCP \<and> unat (csumOffset hdr) = 6 \<and> 8 \<le> length th)"
    using hd s(4) by (auto simp: gso_headers_def gso_protocol_def tun_consts split: if_splits)
  have "src_addr v p = src_addr v pkt \<and> dst_addr v p = dst_addr v pkt"
  proof -
    have len: "(if v then 40 else 20) \<le> length iph" using h s(3) by auto
    have "p ! j = pkt ! j" if "j < unat (csumStart hdr)" "j \<notin> (if v then {4, 5} else {2, 3, 4, 5, 10, 11})" for j
      using nth_seg_ip [OF len, of j en T i] that li s(1-3) by (simp add: nth_append)
    then show ?thesis
      using h s(5,6) by (auto simp: src_addr_def dst_addr_def intro!: nth_equalityI)
  qed
  then show "checksum en (drop (unat (csumStart hdr)) p) (pseudoHeaderChecksumNoFold en (gso_protocol hdr)
      (src_addr v p) (dst_addr v p) (of_nat (length p - unat (csumStart hdr)))) = 0xffff"
    using seg_tr_verifies [OF c, of en] li s(1,3-6) h(2) by (simp add: of_nat_diff)
qed

lemma gso_packet_fields:
  assumes hd: "gso_headers hdr v pkt" and i: "i < length (gso_packets en hdr v pkt)" and p: "p = gso_packets en hdr v pkt ! i"
    and T: "\<not> v \<Longrightarrow> length p \<le> 65535" "length p \<le> 65535 + unat (csumStart hdr)"
  shows "if v then field16 p 4 = length p - unat (csumStart hdr)
         else field16 p 2 = length p \<and> field16 p 4 = (field16 pkt 4 + i) mod 65536"
    and "if gso_tcp hdr
         then field32 p (unat (csumStart hdr) + 4) = (field32 pkt (unat (csumStart hdr) + 4) + i * unat (gsoSize hdr)) mod 2 ^ 32 \<and>
           p ! (unat (csumStart hdr) + 13) =
             (if Suc i = length (gso_packets en hdr v pkt) then pkt ! (unat (csumStart hdr) + 13)
              else pkt ! (unat (csumStart hdr) + 13) AND NOT (tcpFlagFIN OR tcpFlagPSH))
         else field16 p (unat (csumStart hdr) + 4) = length p - unat (csumStart hdr)"
proof -
  define c where "c = unat (csumStart hdr)"
  obtain iph th pl lst T where s: "p = seg_ip en v T i iph @ seg_tr en (unat (csumOffset hdr)) (gso_protocol hdr)
       (gso_seq hdr pkt + of_nat (i * unat (gsoSize hdr))) lst (src_addr v pkt) (dst_addr v pkt) th pl"
    "iph = take c pkt" "length iph = c" "th = drop c (take (unat (hdrLen hdr)) pkt)" "length th = unat (hdrLen hdr) - c"
    "T = unat (hdrLen hdr) + length pl" "length p = T" "lst \<longleftrightarrow> Suc i = length (gso_packets en hdr v pkt)"
    using gso_packet_shape [OF hd i] p by (metis c_def)
  note h = gso_headersD [OF hd, folded c_def]
  have li: "length (seg_ip en v T i iph) = c" using h s(3) by (cases v) auto
  have fld: "field16 p k = field16 (seg_ip en v T i iph) k" if "k + 2 \<le> 20" for k
    using that li h unfolding s(1) by (intro field_append1) auto
  show "if v then field16 p 4 = length p - unat (csumStart hdr)
         else field16 p 2 = length p \<and> field16 p 4 = (field16 pkt 4 + i) mod 65536"
  proof (cases v)
    case True
    then show ?thesis
      using fld [of 4] seg_ip_fields6 [of iph T en i] T(2) h s(3,7) by (simp add: c_def)
  next
    case False
    have "field16 iph 4 = field16 pkt 4" using h False by (simp add: s(2) field16_def drop_take min_def)
    then show ?thesis
      using fld [of 2] fld [of 4] seg_ip_fields4 [of iph T en i] T(1) h s(3,7) False by simp
  qed
  define tr where "tr = seg_tr en (unat (csumOffset hdr)) (gso_protocol hdr)
       (gso_seq hdr pkt + of_nat (i * unat (gsoSize hdr))) lst (src_addr v pkt) (dst_addr v pkt) th pl"
  have at: "p ! (c + 13) = tr ! 13" "field32 p (c + 4) = field32 tr 4" "field16 p (c + 4) = field16 tr 4"
    unfolding s(1) tr_def [symmetric] using li nth_append_length_plus [of "seg_ip en v T i iph" tr 13]
      field_append2 [of "seg_ip en v T i iph" tr 4] by simp_all
  show "if gso_tcp hdr
         then field32 p (unat (csumStart hdr) + 4) = (field32 pkt (unat (csumStart hdr) + 4) + i * unat (gsoSize hdr)) mod 2 ^ 32 \<and>
           p ! (unat (csumStart hdr) + 13) =
             (if Suc i = length (gso_packets en hdr v pkt) then pkt ! (unat (csumStart hdr) + 13)
              else pkt ! (unat (csumStart hdr) + 13) AND NOT (tcpFlagFIN OR tcpFlagPSH))
         else field16 p (unat (csumStart hdr) + 4) = length p - unat (csumStart hdr)"
  proof (cases "gso_tcp hdr")
    case True
    then have t: "20 \<le> length th" "unat (csumOffset hdr) = 16" "gso_protocol hdr = IPPROTO_TCP"
      using hd s(5) by (auto simp: gso_headers_def gso_protocol_def c_def)
    have "th ! 13 = pkt ! (c + 13)" using t(1) h by (simp add: s(4,5))
    moreover have "unat (gso_seq hdr pkt + of_nat (i * unat (gsoSize hdr)))
        = (field32 pkt (c + 4) + i * unat (gsoSize hdr)) mod 2 ^ 32"
      using True by (simp only: gso_seq_def field32_def if_True c_def unat_of_nat32 flip: of_nat_add)
    ultimately show ?thesis
      using True at seg_tr_tcp [OF t(1)] s(8) unfolding c_def [symmetric] tr_def t(2,3) by simp
  next
    case False
    then have u: "8 \<le> length th" "unat (csumOffset hdr) = 6" "gso_protocol hdr = IPPROTO_UDP" "length th + length pl = T - c"
      using hd s(5,6) by (auto simp: gso_headers_def gso_protocol_def c_def)
    then show ?thesis
      using False at(3) seg_tr_udp [OF u(1)] T(2) s(7) unfolding c_def [symmetric] tr_def u(2,3) by simp
  qed
qed

section \<open>The refinement of \<open>gsoSplit\<close>\<close>

lemma gsoSplit_eq:
  assumes "wf_slice inp" and "\<forall>out\<in>set outs. wf_slice out"
  shows "gsoSplit en inp hdr outs sizes off v = (case validateGSOSplit inp hdr outs sizes off v of
      None \<Rightarrow> None
    | Some (Inl e) \<Rightarrow> Some (outs, sizes, Inl e)
    | Some (Inr n) \<Rightarrow> Some (deliver (nat off) (gso_packets en hdr v (vis inp)) outs,
        map (int \<circ> length) (gso_packets en hdr v (vis inp)) @ drop (nat n) sizes, Inr n))"
proof (cases "validateGSOSplit inp hdr outs sizes off v")
  case (Some r)
  show ?thesis
  proof (cases r)
    case (Inr n)
    note val = Some [unfolded Inr]
    note l = gso_loop_packets(1) [OF assms val, of en] and hd = validateGSOSplit_headers [OF assms(1) val]
    have "(if gso_tcp hdr then do { s \<leftarrow> get32 inp (uint (csumStart hdr + 4)); Some (IPPROTO_TCP, s) } else Some (IPPROTO_UDP, 0))
        = Some (gso_protocol hdr, gso_seq hdr (vis inp))"
    proof (cases "gso_tcp hdr")
      case True
      then have c: "unat (csumStart hdr) + 20 \<le> unat (hdrLen hdr)" "unat (hdrLen hdr) < slen inp"
        using hd assms(1) by (auto simp: gso_headers_def)
      have "unat (hdrLen hdr) < 65536" using unat_less_power [of "hdrLen hdr"] by simp
      then have "uint (csumStart hdr + 4) = int (unat (csumStart hdr) + 4)" using c by (subst uint16_add) (auto simp: uint_nat simp del: of_nat_unat)
      then show ?thesis using True c assms(1) get32_ok [of "unat (csumStart hdr) + 4" inp]
        by (simp add: gso_seq_def gso_protocol_def)
    qed (simp add: gso_seq_def gso_protocol_def)
    then show ?thesis using val Inr l unfolding gso_tcp_def by (simp add: gsoSplit_def)
  qed (use Some in \<open>simp add: gsoSplit_def\<close>)
qed (simp add: gsoSplit_def)

section \<open>What the caller finds\<close>

lemma deliver_nth:
  "i < length outs \<Longrightarrow> deliver off segs outs ! i =
     (if i < length segs then (outs ! i)\<lparr>sarr := splice (sarr (outs ! i)) off (segs ! i)\<rparr> else outs ! i)"
  by (induction off segs outs arbitrary: i rule: deliver.induct) (auto simp: nth_Cons split: nat.splits)

lemma outputs_fit_nth:
  assumes "outputs_fit v off c h gso k rem outs" and "i < k" and "i * gso \<le> rem"
  shows "off + (h + min gso (rem - i * gso)) \<le> slen (outs ! i) \<and>
    (if v then h + min gso (rem - i * gso) \<le> 65535 + 40 else h + min gso (rem - i * gso) \<le> 65535) \<and>
    h + min gso (rem - i * gso) \<le> 65535 + c"
  using assms
proof (induction v off c h gso k rem outs arbitrary: i rule: outputs_fit.induct)
  case (3 v off c h gso k rem out outs)
  show ?case
  proof (cases i)
    case 0
    with 3(2) show ?thesis by (auto simp: Let_def)
  next
    case (Suc i')
    then have m: "min gso rem = gso" "i' * gso \<le> rem - gso" "rem - i * gso = rem - gso - i' * gso" using 3(4) by auto
    have f: "outputs_fit v off c h gso k (rem - gso) outs" and k: "i' < k" using 3(2,3) Suc by (simp_all add: Let_def m(1))
    show ?thesis unfolding m(3) using 3(1) [OF refl, unfolded m(1), OF f k m(2)] Suc by (cases v) simp_all
  qed
qed auto

text \<open>The bytes the caller finds in output \<open>out\<close> when it reads \<open>sz\<close> bytes at the offset.\<close>

definition segment_of :: "int \<Rightarrow> gslice \<Rightarrow> int \<Rightarrow> byte list" where
  "segment_of off out sz = take (nat sz) (drop (nat off) (vis out))"

lemma gsoSplit_success:
  assumes wf: "wf_slice inp" "\<forall>out\<in>set outs. wf_slice out"
    and val: "validateGSOSplit inp hdr outs sizes off v = Some (Inr n)"
  obtains outs' sizes' where "gsoSplit en inp hdr outs sizes off v = Some (outs', sizes', Inr n)"
    "outs' = deliver (nat off) (gso_packets en hdr v (vis inp)) outs"
    "length outs' = length outs" "length sizes' = length sizes" "drop (nat n) sizes' = drop (nat n) sizes"
    "length (gso_packets en hdr v (vis inp)) = nat n" "nat n \<le> length outs"
    "\<And>i. i < nat n \<Longrightarrow> sizes' ! i = int (length (gso_packets en hdr v (vis inp) ! i))"
    "\<And>i. i < nat n \<Longrightarrow> nat off + length (gso_packets en hdr v (vis inp) ! i) \<le> slen (outs ! i)"
    "\<And>i. i < nat n \<Longrightarrow> segment_of off (outs' ! i) (sizes' ! i) = gso_packets en hdr v (vis inp) ! i"
    "\<And>i. i < nat n \<Longrightarrow> \<not> v \<longrightarrow> length (gso_packets en hdr v (vis inp) ! i) \<le> 65535"
    "\<And>i. i < nat n \<Longrightarrow> length (gso_packets en hdr v (vis inp) ! i) \<le> 65535 + unat (csumStart hdr)"
proof -
  define segs where "segs = gso_packets en hdr v (vis inp)"
  note L = gso_loop_packets [OF wf val] and hd = validateGSOSplit_headers [OF wf(1) val]
  define outs' where "outs' = deliver (nat off) segs outs"
  define sizes' where "sizes' = map (int \<circ> length) segs @ drop (nat n) sizes"
  have n: "length segs = nat n" using L(2) by (simp add: segs_def gso_packets_def)
  have le: "nat n \<le> length outs" "nat n \<le> length sizes" using L(5,6) by linarith+
  have fit: "nat off + length (segs ! i) \<le> slen (outs ! i)" "\<not> v \<longrightarrow> length (segs ! i) \<le> 65535"
    "length (segs ! i) \<le> 65535 + unat (csumStart hdr)" if "i < nat n" for i
  proof -
    note nth = gso_packets_nth [OF hd, of i en, folded segs_def, unfolded n, OF that]
    have len: "length (segs ! i) = unat (hdrLen hdr) + min (unat (gsoSize hdr)) (slen inp - unat (hdrLen hdr) - i * unat (gsoSize hdr))"
      unfolding nth(1) using nth(2) wf by (subst length_gso_seg [OF hd]) auto
    have "i * unat (gsoSize hdr) \<le> slen inp - unat (hdrLen hdr)" using nth(2) wf by simp
    from outputs_fit_nth [OF L(7) that this] len
    show "nat off + length (segs ! i) \<le> slen (outs ! i)" "\<not> v \<longrightarrow> length (segs ! i) \<le> 65535"
      "length (segs ! i) \<le> 65535 + unat (csumStart hdr)" by auto
  qed
  have so: "segment_of off (outs' ! i) (sizes' ! i) = segs ! i" if "i < nat n" for i
  proof -
    have "outs ! i \<in> set outs" using that le by simp
    then have "wf_slice (outs ! i)" using wf(2) by blast
    with fit(1) [OF that] that le n show ?thesis
      by (simp add: segment_of_def outs'_def sizes'_def deliver_nth nth_append)
  qed
  show ?thesis
    by (rule that [of outs' sizes', folded segs_def])
      (use gsoSplit_eq [OF wf] val n le fit so in \<open>simp_all add: outs'_def sizes'_def segs_def [symmetric] nth_append\<close>)
qed

section \<open>Frames that are not segmented\<close>

lemma gsoNoneChecksum_eq:
  assumes "wf_slice inp"
  shows "gsoNoneChecksum en inp st co = Some
    (case validateChecksumPosition (int (slen inp)) st co of
       Inl e \<Rightarrow> (inp, Inl e)
     | Inr _ \<Rightarrow> let at = unat st + unat co;
                    pkt = splice (vis inp) at [0, 0];
                    csum = NOT (checksum en (drop (unat st) pkt) (of_nat (field16 (vis inp) at)))
                in (inp\<lparr>sarr := splice (sarr inp) at (be16 csum)\<rparr>, Inr ()))"
proof (cases "validateChecksumPosition (int (slen inp)) st co")
  case (Inr u)
  define s where "s = unat st"
  define c where "c = unat co"
  have su: "uint st = int s" "uint co = int c" by (simp_all add: s_def c_def)
  have "int s + int c + 2 \<le> int (slen inp)" using Inr by (simp add: validateChecksumPosition_Inr s_def c_def)
  then have at: "s + c + 2 \<le> slen inp" by linarith
  have cap: "slen inp \<le> length (sarr inp)" using assms by (simp add: wf_slice_def)
  have wf: "wf_slice (inp\<lparr>sarr := splice (sarr inp) (s + c) ys\<rparr>)" if "length ys \<le> 2" for ys
    using assms at cap that by (intro wf_splice) auto
  have x: "(ucast (of_nat n :: u16) :: u64) = of_nat n" if "n < 65536" for n
    using that by (simp add: word_unat_eq_iff unsigned_ucast_eq unat_of_nat take_bit_nat_eq_self)
  have f: "field16 (vis inp) (s + c) < 65536"
    using be_nat_bound [of "take 2 (drop (s + c) (vis inp))"] at assms by (simp add: field16_def)
  have v: "vis \<lparr>sarr = drop s (splice (sarr inp) (s + c) [0, 0]), slen = slen inp - s\<rparr> = drop s (splice (vis inp) (s + c) [0, 0])"
    using at assms cap vis_splice [of inp "s + c" "[0, 0]"] by (simp add: vis_def flip: drop_take)
  have g: "get16 inp (int s + int c) = Some (of_nat (field16 (vis inp) (s + c)))"
    using get16_ok [of "s + c" inp] at assms by (simp add: field16_def)
  have w: "wr inp (int s + int c) 0 = Some (inp\<lparr>sarr := splice (sarr inp) (s + c) [0]\<rparr>)"
    "wr (inp\<lparr>sarr := splice (sarr inp) (s + c) [0]\<rparr>) (int s + int c + 1) 0 = Some (inp\<lparr>sarr := splice (sarr inp) (s + c) [0, 0]\<rparr>)"
    using at cap by (simp_all add: wr_def splice_two)
  have sf: "sub_from (inp\<lparr>sarr := splice (sarr inp) (s + c) [0, 0]\<rparr>) (int s)
      = Some \<lparr>sarr = drop s (splice (sarr inp) (s + c) [0, 0]), slen = slen inp - s\<rparr>"
    using sub_from_ok [of s, OF _ wf [of "[0, 0]"]] at by simp
  have p: "put16 (inp\<lparr>sarr := splice (sarr inp) (s + c) [0, 0]\<rparr>) (int s + int c) x
      = Some (inp\<lparr>sarr := splice (sarr inp) (s + c) (be16 x)\<rparr>)" for x
    using at cap put16_ok [of "s + c" "inp\<lparr>sarr := splice (sarr inp) (s + c) [0, 0]\<rparr>" x] by simp
  show ?thesis
    unfolding gsoNoneChecksum_def Inr Let_def s_def [symmetric] c_def [symmetric] su
    by (simp only: g w sf p v x [OF f] sum.case Option.bind.simps)
qed (simp add: gsoNoneChecksum_def)

section \<open>Properties\<close>

text \<open>The frame of the witnesses: an IPv4 TCP packet with three payload bytes, cut every two bytes.\<close>

definition ex_frame :: gslice where
  "ex_frame = of_bytes
     ([0x45, 0, 0, 43, 0, 7, 0, 0, 64, 6, 0, 0, 10, 0, 0, 1, 10, 0, 0, 2] @
      [0, 80, 1, 187, 0, 0, 0, 9, 0, 0, 0, 0, 0x50, 0x18, 1, 0, 0, 0, 0, 0] @ [1, 2, 3])"

definition ex_hdr :: virtioNetHdr where
  "ex_hdr = \<lparr>flags = NEEDS_CSUM, gsoType = GSO_TCPV4, hdrLen = 40, gsoSize = 2, csumStart = 20, csumOffset = 16\<rparr>"

definition ex_outs :: "gslice list" where
  "ex_outs = [of_bytes (replicate 44 0), of_bytes (replicate 44 0)]"


lemma ex_wf: "wf_slice ex_frame" "\<forall>out\<in>set ex_outs. wf_slice out"
  by (simp_all add: ex_frame_def ex_outs_def)

lemma check_outputs_2:
  "check_outputs outs off v iph mi h gso 2 i rem = check_outputs outs off v iph mi h gso (Suc (Suc 0)) i rem"
  by (simp add: numeral_2_eq_2)

lemma ex_valid: "validateGSOSplit ex_frame ex_hdr ex_outs [0, 0] 2 False = Some (Inr 2)"
  by (simp add: validateGSOSplit_def ex_frame_def ex_hdr_def ex_outs_def of_bytes_def tun_consts validateVirtioReadOutputs_def
    rd_def check_ip_header_def validateChecksumPosition_def check_transport_def segment_count_def Let_def
    validateOutputOffset_def elem_def check_outputs_2)

text \<open>C19. For well-formed slices \<open>gsoSplit\<close> never panics. A frame the validation rejects leaves every buffer
  and every size as it was; an accepted frame is delivered segment by segment, each segment at the
  offset of its own buffer with its length in \<open>sizes\<close>, and the call returns their number.\<close>

theorem gsoSplit_delivers:
  assumes "wf_slice inp" and "\<forall>out\<in>set outs. wf_slice out"
  shows "\<exists>r. validateGSOSplit inp hdr outs sizes off v = Some r \<and>
    gsoSplit en inp hdr outs sizes off v = Some (case r of
        Inl e \<Rightarrow> (outs, sizes, Inl e)
      | Inr n \<Rightarrow> (deliver (nat off) (gso_packets en hdr v (vis inp)) outs,
          map (int \<circ> length) (gso_packets en hdr v (vis inp)) @ drop (nat n) sizes, Inr n))"
  using validateGSOSplit_total [of inp hdr outs sizes off v] gsoSplit_eq [OF assms, of en hdr sizes off v]
  by (auto split: sum.splits)

theorem gsoSplit_delivers_witness:
  "\<exists>r. validateGSOSplit ex_frame ex_hdr ex_outs [0, 0] 2 False = Some r \<and>
    gsoSplit LittleEndian ex_frame ex_hdr ex_outs [0, 0] 2 False = Some (case r of
        Inl e \<Rightarrow> (ex_outs, [0, 0], Inl e)
      | Inr n \<Rightarrow> (deliver (nat 2) (gso_packets LittleEndian ex_hdr False (vis ex_frame)) ex_outs,
          map (int \<circ> length) (gso_packets LittleEndian ex_hdr False (vis ex_frame)) @ drop (nat n) [0, 0], Inr n))"
  by (rule gsoSplit_delivers [OF ex_wf])

lemma gso_packet_size:
  assumes "gso_headers hdr v pkt" and "i < length (gso_packets en hdr v pkt)"
  shows "if Suc i < length (gso_packets en hdr v pkt)
    then length (gso_packets en hdr v pkt ! i) = unat (hdrLen hdr) + unat (gsoSize hdr)
    else unat (hdrLen hdr) < length (gso_packets en hdr v pkt ! i) \<and>
      length (gso_packets en hdr v pkt ! i) \<le> unat (hdrLen hdr) + unat (gsoSize hdr)"
proof -
  note nth = gso_packets_nth [OF assms]
  have l: "length (gso_packets en hdr v pkt ! i) = unat (hdrLen hdr)
      + min (unat (gsoSize hdr)) (length pkt - (unat (hdrLen hdr) + i * unat (gsoSize hdr)))"
    unfolding nth(1) using nth(2) by (intro length_gso_seg [OF assms(1)]) auto
  show ?thesis
  proof (cases "Suc i < length (gso_packets en hdr v pkt)")
    case True
    from gso_packets_nth(2) [OF assms(1) this] have "unat (gsoSize hdr) \<le> length pkt - (unat (hdrLen hdr) + i * unat (gsoSize hdr))"
      by simp
    then show ?thesis using True l by simp
  qed (use l nth(2) gso_headersD(7) [OF assms(1)] in simp)
qed

text \<open>C7. An accepted frame is cut without losing, duplicating or reordering payload: at least one segment,
  the payloads behind the copied headers concatenate to the payload of the frame, and every segment
  but the last carries exactly \<open>gsoSize\<close> bytes of it, the last at least one and at most \<open>gsoSize\<close>.\<close>

theorem gsoSplit_payload:
  assumes "wf_slice inp" and "\<forall>out\<in>set outs. wf_slice out"
    and "validateGSOSplit inp hdr outs sizes off v = Some (Inr n)"
  shows "\<exists>outs' sizes'. gsoSplit en inp hdr outs sizes off v = Some (outs', sizes', Inr n) \<and> 0 < n \<and>
    concat (map (\<lambda>i. drop (unat (hdrLen hdr)) (segment_of off (outs' ! i) (sizes' ! i))) [0..<nat n])
      = drop (unat (hdrLen hdr)) (vis inp) \<and>
    (\<forall>i<nat n. if Suc i < nat n then sizes' ! i = uint (hdrLen hdr) + uint (gsoSize hdr)
       else uint (hdrLen hdr) < sizes' ! i \<and> sizes' ! i \<le> uint (hdrLen hdr) + uint (gsoSize hdr))"
proof -
  define segs where "segs = gso_packets en hdr v (vis inp)"
  note hd = validateGSOSplit_headers [OF assms(1,3)]
  obtain outs' sizes' where r: "gsoSplit en inp hdr outs sizes off v = Some (outs', sizes', Inr n)"
    "length segs = nat n" "\<And>i. i < nat n \<Longrightarrow> sizes' ! i = int (length (segs ! i))"
    "\<And>i. i < nat n \<Longrightarrow> segment_of off (outs' ! i) (sizes' ! i) = segs ! i"
    unfolding segs_def by (rule gsoSplit_success [OF assms, of en]) blast
  have "map (\<lambda>i. drop (unat (hdrLen hdr)) (segment_of off (outs' ! i) (sizes' ! i))) [0..<nat n]
      = map (drop (unat (hdrLen hdr))) segs"
    using r(2,4) by (intro nth_equalityI) auto
  moreover have "if Suc i < nat n then sizes' ! i = uint (hdrLen hdr) + uint (gsoSize hdr)
       else uint (hdrLen hdr) < sizes' ! i \<and> sizes' ! i \<le> uint (hdrLen hdr) + uint (gsoSize hdr)" if "i < nat n" for i
    using gso_packet_size [OF hd, of i en, folded segs_def] r(2,3) that
    by (auto simp: uint_nat simp del: of_nat_unat split: if_splits)
  ultimately show ?thesis
    using r(1) concat_gso_packets [OF hd, of en] gso_loop_packets(3) [OF assms] by (auto simp: segs_def)
qed

theorem gsoSplit_payload_witness:
  "\<exists>outs' sizes'. gsoSplit LittleEndian ex_frame ex_hdr ex_outs [0, 0] 2 False = Some (outs', sizes', Inr 2) \<and>
    concat (map (\<lambda>i. drop 40 (segment_of 2 (outs' ! i) (sizes' ! i))) [0..<2]) = [1, 2, 3] \<and>
    sizes' ! 0 = 42"
proof -
  have "vis ex_frame = take 40 (vis ex_frame) @ [1, 2, 3]" "hdrLen ex_hdr = 40" "gsoSize ex_hdr = 2"
    by (simp_all add: ex_frame_def ex_hdr_def)
  then show ?thesis
    using gsoSplit_payload [OF ex_wf ex_valid, of LittleEndian] by (auto simp: ex_frame_def)
qed

text \<open>C8. Every segment of an accepted frame verifies at the receiver: over the IPv4 header, and over the
  transport header and payload with the pseudo header of the segment itself, the Internet checksum
  computed by the code's own routine is all ones.\<close>

theorem gsoSplit_checksums:
  assumes "wf_slice inp" and "\<forall>out\<in>set outs. wf_slice out"
    and "validateGSOSplit inp hdr outs sizes off v = Some (Inr n)"
  shows "\<exists>outs' sizes'. gsoSplit en inp hdr outs sizes off v = Some (outs', sizes', Inr n) \<and>
    (\<forall>i<nat n. let p = segment_of off (outs' ! i) (sizes' ! i); c = unat (csumStart hdr)
       in (\<not> v \<longrightarrow> checksum en (take c p) 0 = 0xffff) \<and>
          checksum en (drop c p) (pseudoHeaderChecksumNoFold en (gso_protocol hdr) (src_addr v p) (dst_addr v p)
            (of_nat (length p - c))) = 0xffff)"
proof -
  define segs where "segs = gso_packets en hdr v (vis inp)"
  obtain outs' sizes' where r: "gsoSplit en inp hdr outs sizes off v = Some (outs', sizes', Inr n)" "length segs = nat n"
    "\<And>i. i < nat n \<Longrightarrow> segment_of off (outs' ! i) (sizes' ! i) = segs ! i"
    unfolding segs_def by (rule gsoSplit_success [OF assms, of en]) blast
  note c = gso_packet_checksums [OF validateGSOSplit_headers [OF assms(1,3)], of _ en, folded segs_def, unfolded r(2), OF _ refl]
  show ?thesis unfolding Let_def using c r(1,3) by (intro exI conjI allI impI) auto
qed

theorem gsoSplit_checksums_witness:
  "\<exists>outs' sizes'. gsoSplit BigEndian ex_frame ex_hdr ex_outs [0, 0] 2 False = Some (outs', sizes', Inr 2) \<and>
    (\<forall>i<nat 2. let p = segment_of 2 (outs' ! i) (sizes' ! i); c = unat (csumStart ex_hdr)
       in (\<not> False \<longrightarrow> checksum BigEndian (take c p) 0 = 0xffff) \<and>
          checksum BigEndian (drop c p) (pseudoHeaderChecksumNoFold BigEndian (gso_protocol ex_hdr) (src_addr False p)
            (dst_addr False p) (of_nat (length p - c))) = 0xffff)"
  by (rule gsoSplit_checksums [OF ex_wf ex_valid])

text \<open>C18. The header fields of every segment are those of a segmented connection. IPv4: the total length is the
  length of the segment and the identification counts up from the frame's, modulo 2^16. IPv6: the
  payload length is the length behind \<open>csumStart\<close>. TCP: the sequence number advances by the payload
  bytes before the segment, modulo 2^32, and FIN and PSH are cleared on all but the last. UDP: the
  length is that of the UDP header and payload.\<close>

theorem gsoSplit_fields:
  assumes "wf_slice inp" and "\<forall>out\<in>set outs. wf_slice out"
    and "validateGSOSplit inp hdr outs sizes off v = Some (Inr n)"
  shows "\<exists>outs' sizes'. gsoSplit en inp hdr outs sizes off v = Some (outs', sizes', Inr n) \<and>
    (\<forall>i<nat n. let p = segment_of off (outs' ! i) (sizes' ! i); c = unat (csumStart hdr); pkt = vis inp
       in (if v then field16 p 4 = length p - c
           else field16 p 2 = length p \<and> field16 p 4 = (field16 pkt 4 + i) mod 65536) \<and>
          (if gso_tcp hdr
           then field32 p (c + 4) = (field32 pkt (c + 4) + i * unat (gsoSize hdr)) mod 2 ^ 32 \<and>
             p ! (c + 13) = (if Suc i = nat n then pkt ! (c + 13)
                             else pkt ! (c + 13) AND NOT (tcpFlagFIN OR tcpFlagPSH))
           else field16 p (c + 4) = length p - c))"
proof -
  note hd = validateGSOSplit_headers [OF assms(1,3)]
  define segs where "segs = gso_packets en hdr v (vis inp)"
  obtain outs' sizes' where r: "gsoSplit en inp hdr outs sizes off v = Some (outs', sizes', Inr n)" "length segs = nat n"
    "\<And>i. i < nat n \<Longrightarrow> segment_of off (outs' ! i) (sizes' ! i) = segs ! i"
    "\<And>i. i < nat n \<Longrightarrow> \<not> v \<longrightarrow> length (segs ! i) \<le> 65535"
    "\<And>i. i < nat n \<Longrightarrow> length (segs ! i) \<le> 65535 + unat (csumStart hdr)"
    unfolding segs_def by (rule gsoSplit_success [OF assms, of en]) blast
  note f = gso_packet_fields [OF hd, of _ en, folded segs_def, unfolded r(2), OF _ refl]
  show ?thesis
    unfolding Let_def using f r(1,3,4,5) by (intro exI conjI allI impI) auto
qed

theorem gsoSplit_fields_witness:
  "\<exists>outs' sizes'. gsoSplit LittleEndian ex_frame ex_hdr ex_outs [0, 0] 2 False = Some (outs', sizes', Inr 2) \<and>
    field32 (segment_of 2 (outs' ! 1) (sizes' ! 1)) 24 = 11 \<and> field16 (segment_of 2 (outs' ! 1) (sizes' ! 1)) 4 = 8 \<and>
    segment_of 2 (outs' ! 0) (sizes' ! 0) ! 33 = 0x10"
proof -
  have e: "unat (csumStart ex_hdr) = 20" "unat (gsoSize ex_hdr) = 2" "gso_tcp ex_hdr"
    "field32 (vis ex_frame) 24 = 9" "field16 (vis ex_frame) 4 = 7" "vis ex_frame ! 33 AND NOT tcpFlagFIN AND NOT tcpFlagPSH = 0x10"
    by (simp_all add: ex_hdr_def ex_frame_def gso_tcp_def field32_def field16_def tun_consts)
  obtain outs' sizes' where g: "gsoSplit LittleEndian ex_frame ex_hdr ex_outs [0, 0] 2 False = Some (outs', sizes', Inr 2)"
    and p: "\<forall>i<nat 2. let p = segment_of 2 (outs' ! i) (sizes' ! i); c = unat (csumStart ex_hdr); pkt = vis ex_frame
       in (if False then field16 p 4 = length p - c
           else field16 p 2 = length p \<and> field16 p 4 = (field16 pkt 4 + i) mod 65536) \<and>
          (if gso_tcp ex_hdr
           then field32 p (c + 4) = (field32 pkt (c + 4) + i * unat (gsoSize ex_hdr)) mod 2 ^ 32 \<and>
             p ! (c + 13) = (if Suc i = nat 2 then pkt ! (c + 13)
                             else pkt ! (c + 13) AND NOT (tcpFlagFIN OR tcpFlagPSH))
           else field16 p (c + 4) = length p - c)"
    using gsoSplit_fields [OF ex_wf ex_valid, of LittleEndian] by blast
  show ?thesis using g p [rule_format, of 0] p [rule_format, of 1] by (auto simp: Let_def e)
qed

text \<open>\<open>gsoSplit\<close> writes nothing but the segments: every buffer keeps its length and capacity, its bytes in front
  of the offset and behind its segment (the memory behind its visible length included), and the
  buffers and sizes beyond the segment count are untouched.\<close>

theorem gsoSplit_frame:
  assumes "wf_slice inp" and "\<forall>out\<in>set outs. wf_slice out"
    and "validateGSOSplit inp hdr outs sizes off v = Some (Inr n)"
  shows "\<exists>outs' sizes'. gsoSplit en inp hdr outs sizes off v = Some (outs', sizes', Inr n) \<and>
    length outs' = length outs \<and> drop (nat n) outs' = drop (nat n) outs \<and> drop (nat n) sizes' = drop (nat n) sizes \<and>
    (\<forall>i<nat n. nat off + nat (sizes' ! i) \<le> slen (outs ! i) \<and> slen (outs' ! i) = slen (outs ! i) \<and>
      length (sarr (outs' ! i)) = length (sarr (outs ! i)) \<and>
      take (nat off) (sarr (outs' ! i)) = take (nat off) (sarr (outs ! i)) \<and>
      drop (nat off + nat (sizes' ! i)) (sarr (outs' ! i)) = drop (nat off + nat (sizes' ! i)) (sarr (outs ! i)))"
proof -
  define segs where "segs = gso_packets en hdr v (vis inp)"
  obtain outs' sizes' where r: "gsoSplit en inp hdr outs sizes off v = Some (outs', sizes', Inr n)"
    "outs' = deliver (nat off) segs outs" "length outs' = length outs" "drop (nat n) sizes' = drop (nat n) sizes"
    "length segs = nat n" "nat n \<le> length outs"
    "\<And>i. i < nat n \<Longrightarrow> sizes' ! i = int (length (segs ! i))"
    "\<And>i. i < nat n \<Longrightarrow> nat off + length (segs ! i) \<le> slen (outs ! i)"
    unfolding segs_def by (rule gsoSplit_success [OF assms, of en]) blast
  have "drop (nat n) outs' = drop (nat n) outs"
    using r(2,3,5,6) by (intro nth_equalityI) (auto simp: deliver_nth)
  moreover have "nat off + nat (sizes' ! i) \<le> slen (outs ! i) \<and> slen (outs' ! i) = slen (outs ! i) \<and>
      length (sarr (outs' ! i)) = length (sarr (outs ! i)) \<and>
      take (nat off) (sarr (outs' ! i)) = take (nat off) (sarr (outs ! i)) \<and>
      drop (nat off + nat (sizes' ! i)) (sarr (outs' ! i)) = drop (nat off + nat (sizes' ! i)) (sarr (outs ! i))"
    if "i < nat n" for i
  proof -
    have "wf_slice (outs ! i)" using assms(2) that r(6) by simp
    then have "nat off + length (segs ! i) \<le> length (sarr (outs ! i))" using r(8) [OF that] by (simp add: wf_slice_def)
    then show ?thesis using r(5-8) that by (simp add: r(2) deliver_nth)
  qed
  ultimately show ?thesis using r(1,3,4) by blast
qed

theorem gsoSplit_frame_witness:
  "\<exists>outs' sizes'. gsoSplit LittleEndian ex_frame ex_hdr ex_outs [0, 0] 2 False = Some (outs', sizes', Inr 2) \<and>
    take 2 (sarr (outs' ! 0)) = [0, 0] \<and> length (sarr (outs' ! 1)) = 44"
  using gsoSplit_frame [OF ex_wf ex_valid, of LittleEndian] by (auto simp: ex_outs_def of_bytes_def numeral_2_eq_2)



end
