(* ===== verification/Virtio_Read.thy ===== *)
theory Virtio_Read
  imports Gso_Segments
begin

text \<open>
  The read side behind the device file: \<open>validateReadBuffers\<close> (\<^verbatim>\<open>read_validation.go\<close>) and
  \<open>handleVirtioRead\<close> (\<^verbatim>\<open>tun_linux.go\<close>), which takes one frame with its virtio header and either copies
  it into the first output, finishing its checksum, or hands it to \<open>gsoSplit\<close> with a header length it
  computes itself. The lemmas show that no frame, however malformed, makes it panic, and that an
  error leaves the caller's buffers and sizes alone.
\<close>

definition validateReadBuffers :: "int \<Rightarrow> gslice list \<Rightarrow> int list \<Rightarrow> go_error + unit" where
  "validateReadBuffers batch bufs sizes =
     (if int (length bufs) < batch \<or> length sizes < length bufs then Inl ErrShortBuffer else Inr ())"

section \<open>The frame that is not segmented\<close>

text \<open>\<open>out\<close> shares memory with \<open>bufs[0]\<close>; the result carries the buffers and sizes as the call leaves
  them.\<close>

definition virtio_read_none ::
  "endian \<Rightarrow> virtioNetHdr \<Rightarrow> gslice \<Rightarrow> gslice list \<Rightarrow> int list \<Rightarrow> int \<Rightarrow> (gslice list \<times> int list \<times> (go_error + int)) option" where
  "virtio_read_none en hdr inp bufs sizes offset =
     (case validateVirtioReadOutputs bufs sizes of
        Inl e \<Rightarrow> Some (bufs, sizes, Inl e)
      | Inr _ \<Rightarrow> do {
     buf0 \<leftarrow> elem bufs 0;
     case validateOutputOffset buf0 offset 0 of
        Inl e \<Rightarrow> Some (bufs, sizes, Inl e)
      | Inr _ \<Rightarrow>
     let available = int (slen buf0) - offset
     in if int (slen inp) > available then Some (bufs, sizes, Inl (ErrShortOutput 0 (int (slen inp)) available))
     else case (if flags hdr AND NEEDS_CSUM \<noteq> 0
                then validateChecksumPosition (int (slen inp)) (csumStart hdr) (csumOffset hdr) else Inr ()) of
        Inl e \<Rightarrow> Some (bufs, sizes, Inl e)
      | Inr _ \<Rightarrow> do {
     out \<leftarrow> sub buf0 offset (offset + int (slen inp));
     let out = copy out inp;
     (out, r) \<leftarrow> (if flags hdr AND NEEDS_CSUM \<noteq> 0 then gsoNoneChecksum en out (csumStart hdr) (csumOffset hdr)
                  else Some (out, Inr ()));
     bufs \<leftarrow> set_elem bufs 0 (put_back buf0 offset out);
     case r of
        Inl e \<Rightarrow> Some (bufs, sizes, Inl e)
      | Inr _ \<Rightarrow> do {
          sizes \<leftarrow> set_elem sizes 0 (int (slen inp));
          Some (bufs, sizes, Inr 1)
        }
     }})"

section \<open>The header length of a GSO frame\<close>

text \<open>The header length is recomputed from the packet: \<open>hdr.hdrLen\<close> of the kernel is not trusted.\<close>

definition virtio_hdr_len :: "virtioNetHdr \<Rightarrow> gslice \<Rightarrow> (go_error + u16) option" where
  "virtio_hdr_len hdr inp =
     (if gsoType hdr = GSO_UDP_L4
      then (if uint (csumStart hdr) > maxUint16 - udphLen then Some (Inl (ErrCsumStartTooLarge (csumStart hdr)))
            else Some (Inr (csumStart hdr + of_int udphLen)))
      else let tcpDataOffsetAt = uint (csumStart hdr) + 12
           in if tcpDataOffsetAt \<ge> int (slen inp) then Some (Inl ErrPacketTooShort)
              else do {
                b \<leftarrow> rd inp tcpDataOffsetAt;
                let tcpHLen = ucast (drop_bit 4 b) * 4;
                if tcpHLen < 20 \<or> tcpHLen > 60 then Some (Inl (ErrTCPHeaderLen tcpHLen))
                else if uint (csumStart hdr) > maxUint16 - uint tcpHLen then Some (Inl (ErrCsumStartTooLarge (csumStart hdr)))
                else Some (Inr (csumStart hdr + tcpHLen))
              })"

definition check_gso_version :: "byte \<Rightarrow> byte \<Rightarrow> go_error + unit" where
  "check_gso_version ipVersion gt =
     (if ipVersion = 4
      then (if gt \<noteq> GSO_TCPV4 \<and> gt \<noteq> GSO_UDP_L4 then Inl (ErrIPHeaderVersion ipVersion gt) else Inr ())
      else if ipVersion = 6
      then (if gt \<noteq> GSO_TCPV6 \<and> gt \<noteq> GSO_UDP_L4 then Inl (ErrIPHeaderVersion ipVersion gt) else Inr ())
      else Inl (ErrInvalidIPVersion ipVersion))"

section \<open>The whole handler\<close>

definition handleVirtioRead ::
  "endian \<Rightarrow> gslice \<Rightarrow> gslice list \<Rightarrow> int list \<Rightarrow> int \<Rightarrow> (gslice list \<times> int list \<times> (go_error + int)) option" where
  "handleVirtioRead en inp bufs sizes offset =
     (case decode en inp of
        Inl e \<Rightarrow> Some (bufs, sizes, Inl e)
      | Inr hdr \<Rightarrow> do {
     inp \<leftarrow> sub_from inp virtioNetHdrLen;
     if gsoType hdr = GSO_NONE then virtio_read_none en hdr inp bufs sizes offset
     else if gsoType hdr \<noteq> GSO_TCPV4 \<and> gsoType hdr \<noteq> GSO_TCPV6 \<and> gsoType hdr \<noteq> GSO_UDP_L4
     then Some (bufs, sizes, Inl (ErrGsoType (gsoType hdr)))
     else if slen inp = 0 then Some (bufs, sizes, Inl ErrGsoEmpty)
     else do {
     b0 \<leftarrow> rd inp 0;
     let ipVersion = drop_bit 4 b0;
     case check_gso_version ipVersion (gsoType hdr) of
        Inl e \<Rightarrow> Some (bufs, sizes, Inl e)
      | Inr _ \<Rightarrow> do {
     l \<leftarrow> virtio_hdr_len hdr inp;
     case l of
        Inl e \<Rightarrow> Some (bufs, sizes, Inl e)
      | Inr len \<Rightarrow>
     let hdr = hdr\<lparr>hdrLen := len\<rparr>
     in if int (slen inp) < uint (hdrLen hdr)
        then Some (bufs, sizes, Inl (ErrPacketLenBeforeHdrLen (int (slen inp)) (uint (hdrLen hdr))))
        else if hdrLen hdr < csumStart hdr
        then Some (bufs, sizes, Inl (ErrHdrLenBeforeCsumStart (uint (hdrLen hdr)) (uint (csumStart hdr))))
        else case validateChecksumPosition (uint (hdrLen hdr)) (csumStart hdr) (csumOffset hdr) of
           Inl e \<Rightarrow> Some (bufs, sizes, Inl e)
         | Inr _ \<Rightarrow> gsoSplit en inp hdr bufs sizes offset (ipVersion = 6)
     }}})"

section \<open>Frames delivered or nothing\<close>

text \<open>What the checksum flag does to a frame that is not segmented.\<close>

definition finish_checksum :: "endian \<Rightarrow> virtioNetHdr \<Rightarrow> byte list \<Rightarrow> byte list" where
  "finish_checksum en hdr pkt =
     (if flags hdr AND NEEDS_CSUM \<noteq> 0
      then (let at = unat (csumStart hdr) + unat (csumOffset hdr)
            in splice pkt at (be16 (NOT (checksum en (drop (unat (csumStart hdr)) (splice pkt at [0, 0]))
                 (of_nat (field16 pkt at))))))
      else pkt)"

definition frame_packets :: "endian \<Rightarrow> virtioNetHdr \<Rightarrow> byte list \<Rightarrow> byte list list" where
  "frame_packets en hdr pkt =
     (if gsoType hdr = GSO_NONE then [finish_checksum en hdr pkt]
      else gso_packets en hdr (drop_bit 4 (pkt ! 0) = 6) pkt)"

text \<open>All or nothing: an error with the outputs as they were, or the packets in their outputs.\<close>

definition delivered ::
  "int \<Rightarrow> byte list list \<Rightarrow> gslice list \<Rightarrow> int list \<Rightarrow> gslice list \<times> int list \<times> (go_error + int) \<Rightarrow> bool" where
  "delivered off segs bufs sizes res \<longleftrightarrow> (case res of (bufs', sizes', r) \<Rightarrow>
     (case r of
        Inl e \<Rightarrow> bufs' = bufs \<and> sizes' = sizes
      | Inr n \<Rightarrow> n = int (length segs) \<and> 0 < n \<and> length segs \<le> length bufs \<and> length bufs \<le> length sizes \<and> 0 \<le> off \<and>
          bufs' = deliver (nat off) segs bufs \<and> sizes' = map (int \<circ> length) segs @ drop (length segs) sizes \<and>
          (\<forall>i<length segs. nat off + length (segs ! i) \<le> slen (bufs ! i))))"

lemma delivered_error [simp]: "delivered off segs bufs sizes (bufs, sizes, Inl e)"
  by (simp add: delivered_def)

lemma virtio_read_none_delivered:
  assumes wf: "wf_slice inp" "\<forall>buf\<in>set bufs. wf_slice buf"
  shows "returns (virtio_read_none en hdr inp bufs sizes off) (delivered off [finish_checksum en hdr (vis inp)] bufs sizes)"
proof (cases "validateVirtioReadOutputs bufs sizes")
  case (Inr u)
  then have ne: "bufs \<noteq> []" and ls: "length bufs \<le> length sizes" by (simp_all add: validateVirtioReadOutputs_Inr)
  define b where "b = bufs ! 0"
  have el: "elem bufs 0 = Some b" using ne by (simp add: elem_def b_def)
  have wb: "wf_slice b" using wf(2) ne by (simp add: b_def)
  show ?thesis
  proof (cases "validateOutputOffset b off 0 = Inr () \<and> int (slen inp) \<le> int (slen b) - off \<and>
      (if flags hdr AND NEEDS_CSUM \<noteq> 0
       then validateChecksumPosition (int (slen inp)) (csumStart hdr) (csumOffset hdr) else Inr ()) = Inr ()")
    case False
    then show ?thesis using Inr
      by (auto simp: returns_def virtio_read_none_def el Let_def split: sum.splits)
  next
    case True
    define o' where "o' = nat off"
    have off: "off = int o'" "o' + slen inp \<le> slen b"
      using True by (auto simp: validateOutputOffset_def o'_def split: if_splits)
    define out where "out = \<lparr>sarr = drop o' (sarr b), slen = slen inp\<rparr>"
    have cap: "slen b \<le> length (sarr b)" "slen inp \<le> length (sarr inp)" using wb wf(1) by (simp_all add: wf_slice_def)
    have sb: "sub b off (off + int (slen inp)) = Some out"
      using off cap by (simp add: sub_def out_def)
    define cp where "cp = copy out inp"
    have cp: "wf_slice cp" "slen cp = slen inp" "vis cp = vis inp" "sarr cp = vis inp @ drop (o' + slen inp) (sarr b)"
      using off cap wf(1) by (simp_all add: cp_def copy_def out_def wf_slice_def vis_def splice_def add.commute)
    define fc where "fc = finish_checksum en hdr (vis inp)"
    have csum: "(if flags hdr AND NEEDS_CSUM \<noteq> 0 then gsoNoneChecksum en cp (csumStart hdr) (csumOffset hdr)
        else Some (cp, Inr ())) = Some (cp\<lparr>sarr := splice (sarr cp) 0 fc\<rparr>, Inr ())" and lfc: "length fc = slen inp"
    proof -
      have *: "length fc = slen inp" using True wf(1)
        by (auto simp: fc_def finish_checksum_def validateChecksumPosition_Inr Let_def uint_nat simp del: of_nat_unat split: if_splits)
      then show "length fc = slen inp" .
      show "(if flags hdr AND NEEDS_CSUM \<noteq> 0 then gsoNoneChecksum en cp (csumStart hdr) (csumOffset hdr)
        else Some (cp, Inr ())) = Some (cp\<lparr>sarr := splice (sarr cp) 0 fc\<rparr>, Inr ())"
      proof (cases "flags hdr AND NEEDS_CSUM = 0")
        case True
        then have "splice (sarr cp) 0 fc = sarr cp" using cp(4) by (simp add: fc_def finish_checksum_def)
        then show ?thesis using True by simp
      next
        case False
        define at where "at = unat (csumStart hdr) + unat (csumOffset hdr)"
        have v: "validateChecksumPosition (int (slen inp)) (csumStart hdr) (csumOffset hdr) = Inr ()"
          using True False by (auto split: if_splits)
        then have "at + 2 \<le> length (vis inp)"
          using wf(1) by (simp add: validateChecksumPosition_Inr at_def uint_nat del: of_nat_unat)
        then have "splice (sarr cp) at (be16 w) = splice (vis inp) at (be16 w) @ drop (o' + slen inp) (sarr b)" for w
          by (simp add: cp(4))
        moreover have "splice (sarr cp) 0 fc = fc @ drop (o' + slen inp) (sarr b)"
          using * wf(1) by (simp add: cp(4))
        ultimately show ?thesis
          using False v gsoNoneChecksum_eq [OF cp(1), of en "csumStart hdr" "csumOffset hdr"]
          by (simp add: cp(2,3) fc_def finish_checksum_def Let_def at_def [symmetric])
      qed
    qed
    have pb: "put_back b off (cp\<lparr>sarr := splice (sarr cp) 0 fc\<rparr>) = b\<lparr>sarr := splice (sarr b) o' fc\<rparr>"
      using off cp(4) lfc cap wf(1) by (simp add: put_back_def splice_def)
    obtain rest where rest: "bufs = b # rest" using ne by (cases bufs) (auto simp: b_def)
    obtain z zs where zs: "sizes = z # zs" using ne ls by (cases sizes) auto
    have "virtio_read_none en hdr inp bufs sizes off
        = Some (b\<lparr>sarr := splice (sarr b) o' fc\<rparr> # rest, int (slen inp) # zs, Inr 1)"
    proof -
      have T: "validateOutputOffset b off 0 = Inr ()" "(int (slen b) - off < int (slen inp)) = False"
        "(if flags hdr AND NEEDS_CSUM \<noteq> 0
          then validateChecksumPosition (int (slen inp)) (csumStart hdr) (csumOffset hdr) else Inr ()) = Inr ()"
        using True by auto
      have se: "set_elem bufs 0 x = Some (x # rest)" "set_elem sizes 0 y = Some (y # zs)" for x y
        by (simp_all add: set_elem_def rest zs)
      show ?thesis
        unfolding virtio_read_none_def Inr Let_def
        by (simp only: el T sb cp_def [symmetric] csum pb se sum.case Option.bind.simps prod.case if_False)
    qed
    then show ?thesis using ls off lfc
      by (simp add: returns_def delivered_def rest zs fc_def [symmetric] o'_def [symmetric])
  qed
qed (simp add: returns_def virtio_read_none_def)

text \<open>The header with the length the code computes.\<close>

definition effective_hdr :: "virtioNetHdr \<Rightarrow> byte list \<Rightarrow> virtioNetHdr" where
  "effective_hdr hdr pkt =
     (if gsoType hdr = GSO_NONE then hdr
      else if gsoType hdr = GSO_UDP_L4 then hdr\<lparr>hdrLen := csumStart hdr + 8\<rparr>
      else hdr\<lparr>hdrLen := csumStart hdr + ucast (drop_bit 4 (pkt ! (unat (csumStart hdr) + 12))) * 4\<rparr>)"

lemma virtio_hdr_len_effective:
  assumes "wf_slice inp"
  shows "virtio_hdr_len hdr inp \<noteq> None"
    and "virtio_hdr_len hdr inp = Some (Inr l) \<Longrightarrow> gsoType hdr \<noteq> GSO_NONE \<Longrightarrow> hdr\<lparr>hdrLen := l\<rparr> = effective_hdr hdr (vis inp)"
proof -
  show "virtio_hdr_len hdr inp \<noteq> None"
    unfolding virtio_hdr_len_def Let_def by (intro no_panic) (auto simp: rd_def)
  assume a: "virtio_hdr_len hdr inp = Some (Inr l)" "gsoType hdr \<noteq> GSO_NONE"
  show "hdr\<lparr>hdrLen := l\<rparr> = effective_hdr hdr (vis inp)"
  proof (cases "gsoType hdr = GSO_UDP_L4")
    case True
    with a show ?thesis by (auto simp: virtio_hdr_len_def effective_hdr_def tun_consts split: if_splits)
  next
    case False
    with a(1) obtain b where b: "rd inp (uint (csumStart hdr) + 12) = Some b" "l = csumStart hdr + ucast (drop_bit 4 b) * 4"
      unfolding virtio_hdr_len_def Let_def by (elim run_elims) auto
    then have "unat (csumStart hdr) + 12 < slen inp" by (simp add: rd_def uint_nat del: of_nat_unat split: if_splits)
    then have "b = vis inp ! (unat (csumStart hdr) + 12)"
      using b(1) rd_ok [of "unat (csumStart hdr) + 12" inp] assms by simp
    with a(2) b(2) False show ?thesis by (simp add: effective_hdr_def)
  qed
qed

lemma gsoSplit_delivered:
  assumes wf: "wf_slice inp" "\<forall>out\<in>set outs. wf_slice out"
  shows "returns (gsoSplit en inp hdr outs sizes off v) (delivered off (gso_packets en hdr v (vis inp)) outs sizes)"
proof -
  obtain r where r: "validateGSOSplit inp hdr outs sizes off v = Some r"
    using validateGSOSplit_total [of inp hdr outs sizes off v] by auto
  show ?thesis
  proof (cases r)
    case (Inl e)
    then show ?thesis by (simp add: gsoSplit_eq [OF wf] r returns_def)
  next
    case (Inr n)
    note val = r [unfolded Inr] and L = gso_loop_packets(3,4,6) [OF wf r [unfolded Inr]]
    obtain "length (gso_packets en hdr v (vis inp)) = nat n" "nat n \<le> length outs"
      "\<And>i. i < nat n \<Longrightarrow> nat off + length (gso_packets en hdr v (vis inp) ! i) \<le> slen (outs ! i)"
      by (rule gsoSplit_success [OF wf val, of en]) blast
    then show ?thesis using L by (simp add: gsoSplit_eq [OF wf] val returns_def delivered_def)
  qed
qed

lemma handleVirtioRead_delivered:
  assumes wf: "wf_slice inp" "\<forall>buf\<in>set bufs. wf_slice buf"
  shows "returns (handleVirtioRead en inp bufs sizes off) (delivered off
    (frame_packets en (effective_hdr (bytes_hdr en (take 10 (vis inp))) (drop 10 (vis inp))) (drop 10 (vis inp))) bufs sizes)"
proof (cases "decode en inp")
  case (Inr hdr)
  define inp' where "inp' = \<lparr>sarr = drop 10 (sarr inp), slen = slen inp - 10\<rparr>"
  have l: "10 \<le> slen inp" and hdr: "hdr = bytes_hdr en (take 10 (vis inp))"
    using Inr by (auto simp: decode_def vis_def tun_consts min_def split: if_splits)
  have sf: "sub_from inp virtioNetHdrLen = Some inp'"
    using sub_from_ok [of 10 inp] l wf(1) by (simp add: tun_consts inp'_def)
  have wf': "wf_slice inp'" and vis': "vis inp' = drop 10 (vis inp)"
    using wf(1) l by (auto simp: inp'_def wf_slice_def vis_def drop_take)
  define F where "F = frame_packets en (effective_hdr hdr (vis inp')) (vis inp')"
  have "returns (handleVirtioRead en inp bufs sizes off) (delivered off F bufs sizes)"
    unfolding handleVirtioRead_def Inr sum.case sf Option.bind.simps Let_def
  proof (intro returns_intros)
    assume "gsoType hdr = GSO_NONE"
    then show "returns (virtio_read_none en hdr inp' bufs sizes off) (delivered off F bufs sizes)"
      using virtio_read_none_delivered [OF wf' wf(2), of en hdr sizes off] by (simp add: F_def frame_packets_def effective_hdr_def)
  next
    fix b0 l len
    assume a: "gsoType hdr \<noteq> GSO_NONE" "slen inp' \<noteq> 0" "rd inp' 0 = Some b0" "virtio_hdr_len hdr inp' = Some l" "l = Inr len"
    then have "hdr\<lparr>hdrLen := len\<rparr> = effective_hdr hdr (vis inp')" using virtio_hdr_len_effective [OF wf'] by simp
    moreover have "gsoType (effective_hdr hdr (vis inp')) = gsoType hdr" by (simp add: effective_hdr_def)
    moreover have "b0 = vis inp' ! 0" using a(2,3) rd_ok [of 0 inp'] wf' by simp
    ultimately show "returns (gsoSplit en inp' (hdr\<lparr>hdrLen := len\<rparr>) bufs sizes off (drop_bit 4 b0 = 6)) (delivered off F bufs sizes)"
      using a(1) gsoSplit_delivered [OF wf' wf(2), of en "hdr\<lparr>hdrLen := len\<rparr>" sizes off "drop_bit 4 b0 = 6"]
      by (simp add: F_def frame_packets_def)
  qed (use virtio_hdr_len_effective(1) [OF wf'] in \<open>auto simp: rd_def\<close>)
  then show ?thesis by (simp add: F_def vis' hdr)
qed (simp add: handleVirtioRead_def returns_def)

section \<open>Properties\<close>

text \<open>C1. \<open>handleVirtioRead\<close> is all or nothing on every input frame, malformed ones included: it never panics;
  an error leaves every buffer and every size as it was; a success fills the outputs with exactly the
  packets of the frame (the one packet with its checksum finished, or the segments under the header
  length the code computes from the packet), each inside the visible part of its output, and returns
  their number.\<close>

theorem handleVirtioRead_all_or_nothing:
  assumes "wf_slice inp" and "\<forall>buf\<in>set bufs. wf_slice buf"
  shows "\<exists>bufs' sizes' r. handleVirtioRead en inp bufs sizes off = Some (bufs', sizes', r) \<and>
    (let hdr = bytes_hdr en (take 10 (vis inp)); pkt = drop 10 (vis inp);
         segs = frame_packets en (effective_hdr hdr pkt) pkt
     in case r of
          Inl e \<Rightarrow> bufs' = bufs \<and> sizes' = sizes
        | Inr n \<Rightarrow> n = int (length segs) \<and> 0 < n \<and> length segs \<le> length bufs \<and>
            bufs' = deliver (nat off) segs bufs \<and> sizes' = map (int \<circ> length) segs @ drop (length segs) sizes \<and>
            (\<forall>i<length segs. nat off + length (segs ! i) \<le> slen (bufs ! i)))"
proof -
  obtain bufs' sizes' r where "handleVirtioRead en inp bufs sizes off = Some (bufs', sizes', r)"
    "delivered off (frame_packets en (effective_hdr (bytes_hdr en (take 10 (vis inp))) (drop 10 (vis inp))) (drop 10 (vis inp)))
       bufs sizes (bufs', sizes', r)"
    using handleVirtioRead_delivered [OF assms, of en sizes off] by (auto simp: returns_iff)
  then show ?thesis by (cases r) (auto simp: delivered_def Let_def)
qed

theorem handleVirtioRead_all_or_nothing_witness:
  "\<exists>bufs' sizes' r. handleVirtioRead LittleEndian (of_bytes (hdr_bytes LittleEndian ex_hdr @ vis ex_frame)) ex_outs [0, 0] 2
      = Some (bufs', sizes', r) \<and> (\<forall>e. r = Inl e \<longrightarrow> bufs' = ex_outs \<and> sizes' = [0, 0])"
  using handleVirtioRead_all_or_nothing [of "of_bytes (hdr_bytes LittleEndian ex_hdr @ vis ex_frame)" ex_outs LittleEndian "[0, 0]" 2]
    ex_wf(2) by (auto simp: Let_def)

end
