(* ===== verification/Gro_Table.thy ===== *)
theory Gro_Table
  imports Virtio_Hdr "HOL-Library.AList" "HOL-Library.Multiset"
begin

text \<open>
  The flow tables of generic receive offload (\<^verbatim>\<open>offload_linux.go\<close>): flow keys, the bookkeeping items of
  the packets of a flow, the TCP and UDP tables with their pools of recycled item slices, and the
  contract both tables satisfy.

  A Go map is an association list of distinct keys in insertion order. A pooled slice is empty; only
  how many there are matters, and taking one from an empty pool panics. The code that walks the items
  of a flow holds a slice that shares memory with the table; it reads only positions below the one it
  last changed, so the model reads them from the list it started with.
\<close>

section \<open>Keys and items\<close>

definition IdealBatchSize :: int where "IdealBatchSize = 128"

record udpFlowKey =
  srcAddr :: "byte list"
  dstAddr :: "byte list"
  srcPort :: u16
  dstPort :: u16
  isV6 :: bool

record tcpFlowKey = udpFlowKey +
  rxAck :: u32

record 'k gro_item =
  key :: 'k
  bufsIndex :: u16
  numMerged :: u16
  itemGsoSize :: u16
  iphLen :: byte

record tcpGROItem = "tcpFlowKey gro_item" +
  sentSeq :: u32
  tcphLen :: byte
  pshSet :: bool

record udpGROItem = "udpFlowKey gro_item" +
  cSumKnownInvalid :: bool

text \<open>\<^verbatim>\<open>copy(key.srcAddr[:], b)\<close> into a zeroed 16-byte array.\<close>

definition addr16 :: "gslice \<Rightarrow> byte list" where
  "addr16 b = take 16 (vis b) @ replicate (16 - slen b) 0"

definition newTCPFlowKey :: "gslice \<Rightarrow> int \<Rightarrow> int \<Rightarrow> int \<Rightarrow> tcpFlowKey option" where
  "newTCPFlowKey pkt srcAddrOffset dstAddrOffset tcphOffset = do {
     let addrSize = dstAddrOffset - srcAddrOffset;
     src \<leftarrow> sub pkt srcAddrOffset dstAddrOffset;
     dst \<leftarrow> sub pkt dstAddrOffset (dstAddrOffset + addrSize);
     sp \<leftarrow> get16 pkt tcphOffset;
     dp \<leftarrow> get16 pkt (tcphOffset + 2);
     ack \<leftarrow> get32 pkt (tcphOffset + 8);
     Some \<lparr>srcAddr = addr16 src, dstAddr = addr16 dst, srcPort = sp, dstPort = dp, isV6 = (addrSize = 16), rxAck = ack\<rparr>
   }"

definition newUDPFlowKey :: "gslice \<Rightarrow> int \<Rightarrow> int \<Rightarrow> int \<Rightarrow> udpFlowKey option" where
  "newUDPFlowKey pkt srcAddrOffset dstAddrOffset udphOffset = do {
     let addrSize = dstAddrOffset - srcAddrOffset;
     src \<leftarrow> sub pkt srcAddrOffset dstAddrOffset;
     dst \<leftarrow> sub pkt dstAddrOffset (dstAddrOffset + addrSize);
     sp \<leftarrow> get16 pkt udphOffset;
     dp \<leftarrow> get16 pkt (udphOffset + 2);
     Some \<lparr>srcAddr = addr16 src, dstAddr = addr16 dst, srcPort = sp, dstPort = dp, isV6 = (addrSize = 16)\<rparr>
   }"

section \<open>Tables\<close>

record ('k, 'i) gro_table =
  itemsByFlow :: "('k \<times> 'i list) list"
  itemsPool :: "'i list list"

type_synonym tcpGROTable = "(tcpFlowKey, tcpGROItem) gro_table"
type_synonym udpGROTable = "(udpFlowKey, udpGROItem) gro_table"

definition new_table :: "('k, 'i) gro_table" where
  "new_table = \<lparr>itemsByFlow = [], itemsPool = replicate (nat IdealBatchSize) []\<rparr>"

definition tbl_lookup :: "('k, 'i) gro_table \<Rightarrow> 'k \<Rightarrow> 'i list option" where
  "tbl_lookup t k = map_of (itemsByFlow t) k"

definition tbl_store :: "('k, 'i) gro_table \<Rightarrow> 'k \<Rightarrow> 'i list \<Rightarrow> ('k, 'i) gro_table" where
  "tbl_store t k items = t\<lparr>itemsByFlow := AList.update k items (itemsByFlow t)\<rparr>"

definition newItems :: "('k, 'i) gro_table \<Rightarrow> ('i list \<times> ('k, 'i) gro_table) option" where
  "newItems t = (if itemsPool t = [] then None
     else Some (last (itemsPool t), t\<lparr>itemsPool := butlast (itemsPool t)\<rparr>))"

text \<open>The second half of \<open>insert\<close>: the item goes behind the items of its flow.\<close>

definition tbl_append :: "('k, 'i) gro_table \<Rightarrow> 'k \<Rightarrow> 'i \<Rightarrow> ('k, 'i) gro_table option" where
  "tbl_append t k item = do {
     (items, t) \<leftarrow> (case tbl_lookup t k of Some items \<Rightarrow> Some (items, t) | None \<Rightarrow> newItems t);
     Some (tbl_store t k (items @ [item]))
   }"

definition tbl_updateAt :: "('k, 'i) gro_table \<Rightarrow> 'k \<Rightarrow> 'i \<Rightarrow> int \<Rightarrow> ('k, 'i) gro_table option" where
  "tbl_updateAt t k item i = do {
     let items = (case tbl_lookup t k of Some items \<Rightarrow> items | None \<Rightarrow> []);
     items \<leftarrow> set_elem items i item;
     Some (tbl_store t k items)
   }"

definition tbl_deleteAt :: "('k, 'i) gro_table \<Rightarrow> 'k \<Rightarrow> int \<Rightarrow> ('k, 'i) gro_table option" where
  "tbl_deleteAt t k i = (
     let items = (case tbl_lookup t k of Some items \<Rightarrow> items | None \<Rightarrow> [])
     in if 0 \<le> i \<and> i < int (length items)
        then Some (tbl_store t k (take (nat i) items @ drop (nat i + 1) items)) else None)"

definition tbl_reset :: "('k, 'i) gro_table \<Rightarrow> ('k, 'i) gro_table" where
  "tbl_reset t = \<lparr>itemsByFlow = [], itemsPool = itemsPool t @ map (\<lambda>_. []) (itemsByFlow t)\<rparr>"

definition tbl_items :: "('k, 'i) gro_table \<Rightarrow> 'i list" where
  "tbl_items t = concat (map snd (itemsByFlow t))"

section \<open>The TCP table\<close>

definition newTCPGROTable :: tcpGROTable where
  "newTCPGROTable = new_table"

definition tcp_insert :: "tcpGROTable \<Rightarrow> gslice \<Rightarrow> int \<Rightarrow> int \<Rightarrow> int \<Rightarrow> int \<Rightarrow> int \<Rightarrow> tcpGROTable option" where
  "tcp_insert t pkt srcAddrOffset dstAddrOffset tcphOffset tcphL bufsI = do {
     k \<leftarrow> newTCPFlowKey pkt srcAddrOffset dstAddrOffset tcphOffset;
     payload \<leftarrow> sub_from pkt (tcphOffset + tcphL);
     seq \<leftarrow> get32 pkt (tcphOffset + 4);
     flg \<leftarrow> rd pkt (tcphOffset + tcpFlagsOffset);
     tbl_append t k \<lparr>key = k, bufsIndex = of_int bufsI, numMerged = 0, itemGsoSize = of_nat (slen payload),
       iphLen = of_int tcphOffset, sentSeq = seq, tcphLen = of_int tcphL, pshSet = (flg AND tcpFlagPSH \<noteq> 0)\<rparr>
   }"

definition tcp_lookupOrInsert ::
  "tcpGROTable \<Rightarrow> gslice \<Rightarrow> int \<Rightarrow> int \<Rightarrow> int \<Rightarrow> int \<Rightarrow> int \<Rightarrow> (tcpGROItem list \<times> bool \<times> tcpGROTable) option" where
  "tcp_lookupOrInsert t pkt srcAddrOffset dstAddrOffset tcphOffset tcphL bufsI = do {
     k \<leftarrow> newTCPFlowKey pkt srcAddrOffset dstAddrOffset tcphOffset;
     case tbl_lookup t k of
       Some items \<Rightarrow> Some (items, True, t)
     | None \<Rightarrow> do {
         t \<leftarrow> tcp_insert t pkt srcAddrOffset dstAddrOffset tcphOffset tcphL bufsI;
         Some ([], False, t)
       }
   }"

definition tcp_updateAt :: "tcpGROTable \<Rightarrow> tcpGROItem \<Rightarrow> int \<Rightarrow> tcpGROTable option" where
  "tcp_updateAt t item i = tbl_updateAt t (key item) item i"

definition tcp_deleteAt :: "tcpGROTable \<Rightarrow> tcpFlowKey \<Rightarrow> int \<Rightarrow> tcpGROTable option" where
  "tcp_deleteAt t k i = tbl_deleteAt t k i"

definition tcp_reset :: "tcpGROTable \<Rightarrow> tcpGROTable" where
  "tcp_reset t = tbl_reset t"

section \<open>The UDP table\<close>

definition newUDPGROTable :: udpGROTable where
  "newUDPGROTable = new_table"

definition udp_insert :: "udpGROTable \<Rightarrow> gslice \<Rightarrow> int \<Rightarrow> int \<Rightarrow> int \<Rightarrow> int \<Rightarrow> bool \<Rightarrow> udpGROTable option" where
  "udp_insert t pkt srcAddrOffset dstAddrOffset udphOffset bufsI cSumKnownInv = do {
     k \<leftarrow> newUDPFlowKey pkt srcAddrOffset dstAddrOffset udphOffset;
     payload \<leftarrow> sub_from pkt (udphOffset + udphLen);
     tbl_append t k \<lparr>key = k, bufsIndex = of_int bufsI, numMerged = 0, itemGsoSize = of_nat (slen payload),
       iphLen = of_int udphOffset, cSumKnownInvalid = cSumKnownInv\<rparr>
   }"

definition udp_lookupOrInsert ::
  "udpGROTable \<Rightarrow> gslice \<Rightarrow> int \<Rightarrow> int \<Rightarrow> int \<Rightarrow> int \<Rightarrow> (udpGROItem list \<times> bool \<times> udpGROTable) option" where
  "udp_lookupOrInsert t pkt srcAddrOffset dstAddrOffset udphOffset bufsI = do {
     k \<leftarrow> newUDPFlowKey pkt srcAddrOffset dstAddrOffset udphOffset;
     case tbl_lookup t k of
       Some items \<Rightarrow> Some (items, True, t)
     | None \<Rightarrow> do {
         t \<leftarrow> udp_insert t pkt srcAddrOffset dstAddrOffset udphOffset bufsI False;
         Some ([], False, t)
       }
   }"

definition udp_updateAt :: "udpGROTable \<Rightarrow> udpGROItem \<Rightarrow> int \<Rightarrow> udpGROTable option" where
  "udp_updateAt t item i = tbl_updateAt t (key item) item i"

definition udp_reset :: "udpGROTable \<Rightarrow> udpGROTable" where
  "udp_reset t = tbl_reset t"

section \<open>The contract of a flow table\<close>

text \<open>
  What the evaluation of packets relies on: the items of a flow by key, an append that takes a pooled
  slice for a new flow, updates and deletions in place, and a reset that gives every slice back.
  \<open>free\<close> counts the pooled slices, \<open>used\<close> the flows, \<open>items\<close> is the bag of all items.
\<close>

locale flow_table =
  fixes ok :: "'t \<Rightarrow> bool"
    and look :: "'t \<Rightarrow> 'k \<Rightarrow> 'i list option"
    and append :: "'t \<Rightarrow> 'k \<Rightarrow> 'i \<Rightarrow> 't option"
    and update :: "'t \<Rightarrow> 'k \<Rightarrow> 'i \<Rightarrow> int \<Rightarrow> 't option"
    and delete :: "'t \<Rightarrow> 'k \<Rightarrow> int \<Rightarrow> 't option"
    and reset :: "'t \<Rightarrow> 't"
    and items :: "'t \<Rightarrow> 'i multiset"
    and free :: "'t \<Rightarrow> nat"
    and used :: "'t \<Rightarrow> nat"
  assumes look_items: "ok t \<Longrightarrow> look t k = Some is \<Longrightarrow> mset is \<subseteq># items t"
    and append_old: "ok t \<Longrightarrow> look t k = Some is \<Longrightarrow>
      \<exists>t'. append t k x = Some t' \<and> ok t' \<and> look t' = (look t)(k \<mapsto> is @ [x]) \<and> items t' = items t + {#x#} \<and>
        free t' = free t \<and> used t' = used t"
    and append_new: "ok t \<Longrightarrow> look t k = None \<Longrightarrow> 0 < free t \<Longrightarrow>
      \<exists>t'. append t k x = Some t' \<and> ok t' \<and> look t' = (look t)(k \<mapsto> [x]) \<and> items t' = items t + {#x#} \<and>
        Suc (free t') = free t \<and> used t' = Suc (used t)"
    and append_empty: "ok t \<Longrightarrow> look t k = None \<Longrightarrow> free t = 0 \<Longrightarrow> append t k x = None"
    and update_at: "ok t \<Longrightarrow> look t k = Some is \<Longrightarrow> j < length is \<Longrightarrow>
      \<exists>t'. update t k x (int j) = Some t' \<and> ok t' \<and> look t' = (look t)(k \<mapsto> is[j := x]) \<and>
        items t' = add_mset x (items t - {#is ! j#}) \<and> free t' = free t \<and> used t' = used t"
    and delete_at: "ok t \<Longrightarrow> look t k = Some is \<Longrightarrow> j < length is \<Longrightarrow>
      \<exists>t'. delete t k (int j) = Some t' \<and> ok t' \<and> look t' = (look t)(k \<mapsto> take j is @ drop (Suc j) is) \<and>
        items t' = items t - {#is ! j#} \<and> free t' = free t \<and> used t' = used t"
    and reset_all: "ok t \<Longrightarrow> ok (reset t) \<and> look (reset t) = Map.empty \<and> items (reset t) = {#} \<and>
      free (reset t) = free t + used t \<and> used (reset t) = 0"
begin

definition slots :: "'t \<Rightarrow> nat" where
  "slots t = free t + used t"

text \<open>No slice is lost: every operation that returns keeps the number of slices.\<close>

lemma append_slots:
  assumes "ok t" and "append t k x = Some t'"
  shows "ok t' \<and> slots t' = slots t \<and> items t' = items t + {#x#}"
proof (cases "look t k")
  case None
  then have "0 < free t" using append_empty [OF assms(1) None, of x] assms(2) by (cases "free t") auto
  from append_new [OF assms(1) None this, of x] assms(2) show ?thesis by (auto simp: slots_def)
next
  case (Some "is")
  from append_old [OF assms(1) this, of x] assms(2) show ?thesis by (auto simp: slots_def)
qed

lemma reset_slots: "ok t \<Longrightarrow> slots (reset t) = slots t"
  using reset_all [of t] by (simp add: slots_def)

text \<open>An append can only fail for want of a slice.\<close>

lemma append_total: "ok t \<Longrightarrow> used t < slots t \<Longrightarrow> \<exists>t'. append t k x = Some t' \<and> ok t' \<and> slots t' = slots t \<and>
    used t' \<le> Suc (used t) \<and> items t' = items t + {#x#} \<and>
    look t' = (look t)(k \<mapsto> (case look t k of Some is \<Rightarrow> is | None \<Rightarrow> []) @ [x])"
  using append_old [of t k _ x] append_new [of t k x]
  by (cases "look t k") (fastforce simp: slots_def)+

text \<open>A table with enough slices takes any sequence of items, and keeps those of a flow in order.\<close>

fun append_all :: "'t \<Rightarrow> ('k \<times> 'i) list \<Rightarrow> 't option" where
  "append_all t [] = Some t"
| "append_all t ((k, x) # xs) = (case append t k x of Some t' \<Rightarrow> append_all t' xs | None \<Rightarrow> None)"

lemma append_all_total:
  "ok t \<Longrightarrow> used t + length xs \<le> slots t \<Longrightarrow> \<exists>t'. append_all t xs = Some t' \<and> ok t' \<and> slots t' = slots t \<and>
     items t' = items t + mset (map snd xs) \<and>
     (\<forall>k. (case look t' k of Some is \<Rightarrow> is | None \<Rightarrow> [])
       = (case look t k of Some is \<Rightarrow> is | None \<Rightarrow> []) @ map snd (filter (\<lambda>p. fst p = k) xs))"
proof (induction xs arbitrary: t)
  case (Cons p xs)
  obtain k x where p: "p = (k, x)" by (cases p)
  obtain t1 where t1: "append t k x = Some t1" "ok t1" "slots t1 = slots t" "used t1 \<le> Suc (used t)"
    "items t1 = items t + {#x#}" "look t1 = (look t)(k \<mapsto> (case look t k of Some is \<Rightarrow> is | None \<Rightarrow> []) @ [x])"
    using append_total [of t k x] Cons.prems by auto
  have "used t1 + length xs \<le> slots t1" using t1(3,4) Cons.prems(2) by simp
  from Cons.IH [OF t1(2) this] show ?case by (auto simp: p t1)
qed simp

end

section \<open>The tables keep the contract\<close>

definition tbl_ok :: "('k, 'i) gro_table \<Rightarrow> bool" where
  "tbl_ok t \<longleftrightarrow> distinct (map fst (itemsByFlow t)) \<and> (\<forall>s\<in>set (itemsPool t). s = [])"

lemma tbl_lookup_store: "tbl_lookup (tbl_store t k is) = (tbl_lookup t)(k \<mapsto> is)"
  by (simp add: tbl_lookup_def tbl_store_def update_conv fun_eq_iff)

lemma tbl_ok_store: "tbl_ok t \<Longrightarrow> tbl_ok (tbl_store t k is)"
  by (simp add: tbl_ok_def tbl_store_def distinct_update)

lemma items_update:
  "distinct (map fst al) \<Longrightarrow> mset (concat (map snd (AList.update k is al)))
     = mset (concat (map snd al)) - mset (case map_of al k of Some js \<Rightarrow> js | None \<Rightarrow> []) + mset is"
proof (induction al)
  case (Cons p al)
  obtain k' js where p: "p = (k', js)" by (cases p)
  show ?case
  proof (cases "k' = k")
    case False
    have "mset (case map_of al k of Some js \<Rightarrow> js | None \<Rightarrow> []) \<subseteq># mset (concat (map snd al))"
      by (cases "map_of al k") (auto dest!: map_of_SomeD split_list)
    then obtain D where "mset (concat (map snd al)) = mset (case map_of al k of Some js \<Rightarrow> js | None \<Rightarrow> []) + D"
      by (auto simp: mset_subset_eq_exists_conv)
    with Cons False show ?thesis by (simp add: p)
  qed (use Cons.prems in \<open>simp add: p\<close>)
qed simp

lemma tbl_items_store:
  "tbl_ok t \<Longrightarrow> mset (tbl_items (tbl_store t k is))
     = mset (tbl_items t) - mset (case tbl_lookup t k of Some js \<Rightarrow> js | None \<Rightarrow> []) + mset is"
  by (simp add: tbl_items_def tbl_store_def tbl_lookup_def tbl_ok_def items_update)

lemma tbl_lookup_items: "tbl_lookup t k = Some is \<Longrightarrow> mset is \<subseteq># mset (tbl_items t)"
  by (auto simp: tbl_lookup_def tbl_items_def dest!: map_of_SomeD split_list)

lemma length_update: "length (AList.update k v al) = (if k \<in> fst ` set al then length al else Suc (length al))"
  by (induction al) auto

lemma used_store: "length (itemsByFlow (tbl_store t k is))
    = (if tbl_lookup t k = None then Suc (length (itemsByFlow t)) else length (itemsByFlow t))"
  by (simp add: tbl_store_def length_update tbl_lookup_def map_of_eq_None_iff)

interpretation gro_tbl: flow_table tbl_ok tbl_lookup tbl_append tbl_updateAt tbl_deleteAt tbl_reset
  "\<lambda>t. mset (tbl_items t)" "\<lambda>t. length (itemsPool t)" "\<lambda>t. length (itemsByFlow t)"
proof
  fix t :: "('k, 'i) gro_table" and k "is" x j
  assume ok: "tbl_ok t"
  show "tbl_lookup t k = Some is \<Longrightarrow> mset is \<subseteq># mset (tbl_items t)" by (rule tbl_lookup_items)
  note st = tbl_ok_store [OF ok] tbl_lookup_store tbl_items_store [OF ok] used_store
  show "\<exists>t'. tbl_append t k x = Some t' \<and> tbl_ok t' \<and> tbl_lookup t' = (tbl_lookup t)(k \<mapsto> is @ [x]) \<and>
      mset (tbl_items t') = mset (tbl_items t) + {#x#} \<and> length (itemsPool t') = length (itemsPool t) \<and>
      length (itemsByFlow t') = length (itemsByFlow t)" if "tbl_lookup t k = Some is"
    using that tbl_lookup_items [OF that] by (simp add: tbl_append_def st) (simp add: tbl_store_def)
  show "\<exists>t'. tbl_append t k x = Some t' \<and> tbl_ok t' \<and> tbl_lookup t' = (tbl_lookup t)(k \<mapsto> [x]) \<and>
      mset (tbl_items t') = mset (tbl_items t) + {#x#} \<and> Suc (length (itemsPool t')) = length (itemsPool t) \<and>
      length (itemsByFlow t') = Suc (length (itemsByFlow t))" if "tbl_lookup t k = None" "0 < length (itemsPool t)"
  proof -
    define u where "u = t\<lparr>itemsPool := butlast (itemsPool t)\<rparr>"
    have p: "itemsPool t \<noteq> []" using that(2) by auto
    then have l: "last (itemsPool t) = []" using ok by (simp add: tbl_ok_def)
    have u: "tbl_ok u" "tbl_lookup u = tbl_lookup t" "tbl_items u = tbl_items t" "itemsByFlow u = itemsByFlow t"
      using ok by (auto simp: u_def tbl_ok_def tbl_lookup_def tbl_items_def fun_eq_iff dest: in_set_butlastD)
    have "tbl_append t k x = Some (tbl_store u k [x])"
      using that p l by (simp add: tbl_append_def newItems_def u_def)
    then show ?thesis using that u p tbl_ok_store [OF u(1)] tbl_items_store [OF u(1)] used_store [of u]
      by (simp add: tbl_lookup_store) (simp add: tbl_store_def u_def)
  qed
  show "tbl_append t k x = None" if "tbl_lookup t k = None" "length (itemsPool t) = 0"
    using that by (simp add: tbl_append_def newItems_def)
  show "\<exists>t'. tbl_updateAt t k x (int j) = Some t' \<and> tbl_ok t' \<and> tbl_lookup t' = (tbl_lookup t)(k \<mapsto> is[j := x]) \<and>
      mset (tbl_items t') = add_mset x (mset (tbl_items t) - {#is ! j#}) \<and> length (itemsPool t') = length (itemsPool t) \<and>
      length (itemsByFlow t') = length (itemsByFlow t)" if "tbl_lookup t k = Some is" "j < length is"
  proof -
    note li = tbl_lookup_items [OF that(1)]
    obtain D where "mset (tbl_items t) = mset is + D"
      using li by (auto simp: mset_subset_eq_exists_conv)
    moreover have "mset is - {#is ! j#} + D = mset is + D - {#is ! j#}" using that(2) by simp
    ultimately show ?thesis using that
      by (simp add: tbl_updateAt_def st set_elem_def mset_update) (simp add: tbl_store_def add.commute)
  qed
  show "\<exists>t'. tbl_deleteAt t k (int j) = Some t' \<and> tbl_ok t' \<and> tbl_lookup t' = (tbl_lookup t)(k \<mapsto> take j is @ drop (Suc j) is) \<and>
      mset (tbl_items t') = mset (tbl_items t) - {#is ! j#} \<and> length (itemsPool t') = length (itemsPool t) \<and>
      length (itemsByFlow t') = length (itemsByFlow t)" if "tbl_lookup t k = Some is" "j < length is"
  proof -
    note li = tbl_lookup_items [OF that(1)]
    obtain D where D: "mset (tbl_items t) = mset is + D"
      using li by (auto simp: mset_subset_eq_exists_conv)
    have m: "mset is = add_mset (is ! j) (mset (take j is) + mset (drop (Suc j) is))"
      using that(2) by (subst id_take_nth_drop [of j "is"]) simp_all
    have "mset (tbl_items t) - mset is + (mset (take j is) + mset (drop (Suc j) is)) = mset (tbl_items t) - {#is ! j#}"
      unfolding D m by simp
    then show ?thesis using that by (simp add: tbl_deleteAt_def st) (simp add: tbl_store_def)
  qed
  show "tbl_ok (tbl_reset t) \<and> tbl_lookup (tbl_reset t) = Map.empty \<and> mset (tbl_items (tbl_reset t)) = {#} \<and>
      length (itemsPool (tbl_reset t)) = length (itemsPool t) + length (itemsByFlow t) \<and> length (itemsByFlow (tbl_reset t)) = 0"
    using ok by (auto simp: tbl_reset_def tbl_ok_def tbl_lookup_def tbl_items_def fun_eq_iff)
qed

section \<open>What a table of a running batch keeps\<close>

text \<open>Every item stands under its own key and satisfies \<open>P\<close>; all 128 slices are in the pool or in use, and at
  most \<open>n\<close> flows were opened.\<close>

definition tbl_inv :: "('i \<Rightarrow> 'k) \<Rightarrow> ('i \<Rightarrow> bool) \<Rightarrow> nat \<Rightarrow> ('k, 'i) gro_table \<Rightarrow> bool" where
  "tbl_inv kf P n t \<longleftrightarrow> tbl_ok t \<and> length (itemsPool t) + length (itemsByFlow t) = 128 \<and> length (itemsByFlow t) \<le> n \<and>
     (\<forall>k is. tbl_lookup t k = Some is \<longrightarrow> (\<forall>x\<in>set is. kf x = k \<and> P x))"

lemma tbl_inv_mono: "tbl_inv kf P n t \<Longrightarrow> (\<And>x. P x \<Longrightarrow> Q x) \<Longrightarrow> n \<le> m \<Longrightarrow> tbl_inv kf Q m t"
  by (fastforce simp: tbl_inv_def)

lemma tbl_inv_new: "tbl_inv kf P n new_table"
  by (simp add: tbl_inv_def new_table_def tbl_ok_def tbl_lookup_def IdealBatchSize_def)

lemma tbl_inv_append:
  assumes "tbl_inv kf P n t" and "n < 128" and "kf x = k" and "P x"
  shows "\<exists>t'. tbl_append t k x = Some t' \<and> tbl_inv kf P (Suc n) t' \<and> mset (tbl_items t') = mset (tbl_items t) + {#x#} \<and>
    tbl_lookup t' = (tbl_lookup t)(k \<mapsto> (case tbl_lookup t k of Some is \<Rightarrow> is | None \<Rightarrow> []) @ [x])"
proof -
  have ok: "tbl_ok t" and u: "length (itemsByFlow t) < gro_tbl.slots t"
    using assms(1,2) by (auto simp: tbl_inv_def gro_tbl.slots_def)
  obtain t' where t': "tbl_append t k x = Some t'" "tbl_ok t'" "gro_tbl.slots t' = gro_tbl.slots t"
    "length (itemsByFlow t') \<le> Suc (length (itemsByFlow t))" "mset (tbl_items t') = mset (tbl_items t) + {#x#}"
    "tbl_lookup t' = (tbl_lookup t)(k \<mapsto> (case tbl_lookup t k of Some is \<Rightarrow> is | None \<Rightarrow> []) @ [x])"
    using gro_tbl.append_total [OF ok u, of k x] by blast
  then have "tbl_inv kf P (Suc n) t'"
    using assms by (auto simp: tbl_inv_def gro_tbl.slots_def split: option.splits if_splits)
  with t' show ?thesis by blast
qed

lemma tbl_inv_update:
  assumes "tbl_inv kf P n t" and "tbl_lookup t k = Some is" "j < length is" and "kf x = k" and "P x"
  shows "\<exists>t'. tbl_updateAt t k x (int j) = Some t' \<and> tbl_inv kf P n t' \<and>
    mset (tbl_items t') = add_mset x (mset (tbl_items t) - {#is ! j#}) \<and> tbl_lookup t' = (tbl_lookup t)(k \<mapsto> is[j := x])"
proof -
  have ok: "tbl_ok t" using assms(1) by (simp add: tbl_inv_def)
  obtain t' where t': "tbl_updateAt t k x (int j) = Some t'" "tbl_ok t'" "tbl_lookup t' = (tbl_lookup t)(k \<mapsto> is[j := x])"
    "mset (tbl_items t') = add_mset x (mset (tbl_items t) - {#is ! j#})" "length (itemsPool t') = length (itemsPool t)"
    "length (itemsByFlow t') = length (itemsByFlow t)"
    using gro_tbl.update_at [OF ok assms(2,3), of x] by blast
  then have "tbl_inv kf P n t'"
    using assms set_update_subset_insert [of "is" j x] by (fastforce simp: tbl_inv_def split: if_splits)
  with t' show ?thesis by blast
qed

lemma tbl_inv_delete:
  assumes "tbl_inv kf P n t" and "tbl_lookup t k = Some is" "j < length is"
  shows "\<exists>t'. tbl_deleteAt t k (int j) = Some t' \<and> tbl_inv kf P n t' \<and>
    mset (tbl_items t') = mset (tbl_items t) - {#is ! j#} \<and> tbl_lookup t' = (tbl_lookup t)(k \<mapsto> take j is @ drop (Suc j) is)"
proof -
  have ok: "tbl_ok t" using assms(1) by (simp add: tbl_inv_def)
  obtain t' where t': "tbl_deleteAt t k (int j) = Some t'" "tbl_ok t'"
    "tbl_lookup t' = (tbl_lookup t)(k \<mapsto> take j is @ drop (Suc j) is)"
    "mset (tbl_items t') = mset (tbl_items t) - {#is ! j#}" "length (itemsPool t') = length (itemsPool t)"
    "length (itemsByFlow t') = length (itemsByFlow t)"
    using gro_tbl.delete_at [OF ok assms(2,3)] by blast
  then have "tbl_inv kf P n t'"
    using assms by (fastforce simp: tbl_inv_def dest: in_set_takeD in_set_dropD split: if_splits)
  with t' show ?thesis by blast
qed

lemma tbl_inv_items: "tbl_inv kf P n t \<Longrightarrow> x \<in> set (tbl_items t) \<Longrightarrow> P x"
proof -
  assume inv: "tbl_inv kf P n t" and "x \<in> set (tbl_items t)"
  then obtain k "is" where "(k, is) \<in> set (itemsByFlow t)" "x \<in> set is" by (auto simp: tbl_items_def)
  moreover from this inv have "tbl_lookup t k = Some is" by (simp add: tbl_inv_def tbl_ok_def tbl_lookup_def)
  ultimately show "P x" using inv by (auto simp: tbl_inv_def)
qed

lemma tbl_inv_reset: "tbl_inv kf P n t \<Longrightarrow> tbl_inv kf Q m (tbl_reset t)"
  using gro_tbl.reset_all [of t] by (auto simp: tbl_inv_def)

end
