(* ===== verification/Gro_Coalesce.thy ===== *)
theory Gro_Coalesce
  imports Checksum Gro_Table
begin

text \<open>
  Coalescing two packets of a flow (\<^verbatim>\<open>offload_linux.go\<close>): when their IP headers, options, sequence
  numbers and sizes allow it, the check of their checksums, and the merge itself in the memory of the
  packet that ends up in front. \<open>pkt\<close> is the packet under evaluation, \<open>bufs[pktI][offset:]\<close>; the
  buffers of a call do not overlap, so a write to one leaves the others alone.
\<close>

datatype canCoalesce = CoalescePrepend | CoalesceUnavailable | CoalesceAppend

section \<open>May two packets coalesce\<close>

definition ipHeadersCanCoalesce :: "gslice \<Rightarrow> gslice \<Rightarrow> bool option" where
  "ipHeadersCanCoalesce pktA pktB =
     (if slen pktA < 9 \<or> slen pktB < 9 then Some False
      else do {
        a0 \<leftarrow> rd pktA 0;
        b0 \<leftarrow> rd pktB 0;
        a1 \<leftarrow> rd pktA 1;
        b1 \<leftarrow> rd pktB 1;
        if drop_bit 4 a0 = 6 then
          (if a0 \<noteq> b0 \<or> drop_bit 4 a1 \<noteq> drop_bit 4 b1 then Some False
           else do {
             a7 \<leftarrow> rd pktA 7;
             b7 \<leftarrow> rd pktB 7;
             Some (a7 = b7)
           })
        else
          (if a1 \<noteq> b1 then Some False
           else do {
             a6 \<leftarrow> rd pktA 6;
             b6 \<leftarrow> rd pktB 6;
             if drop_bit 5 a6 \<noteq> drop_bit 5 b6 then Some False
             else do {
               a8 \<leftarrow> rd pktA 8;
               b8 \<leftarrow> rd pktB 8;
               Some (a8 = b8)
             }
           })
      })"

text \<open>\<^verbatim>\<open>a % b\<close> of non-negative ints panics on zero.\<close>

definition go_mod :: "int \<Rightarrow> int \<Rightarrow> int option" where
  "go_mod a b = (if b = 0 then None else Some (a mod b))"

definition udpPacketsCanCoalesce ::
  "gslice \<Rightarrow> byte \<Rightarrow> u16 \<Rightarrow> udpGROItem \<Rightarrow> gslice list \<Rightarrow> int \<Rightarrow> canCoalesce option" where
  "udpPacketsCanCoalesce pkt iphL gsoS item bufs bufsOffset = do {
     buf \<leftarrow> elem bufs (uint (bufsIndex item));
     pktTarget \<leftarrow> sub_from buf bufsOffset;
     ok \<leftarrow> ipHeadersCanCoalesce pkt pktTarget;
     if \<not> ok then Some CoalesceUnavailable
     else do {
       payload \<leftarrow> sub_from pktTarget (uint (iphL + of_int udphLen));
       m \<leftarrow> go_mod (int (slen payload)) (uint (itemGsoSize item));
       if m \<noteq> 0 then Some CoalesceUnavailable
       else if gsoS > itemGsoSize item then Some CoalesceUnavailable
       else Some CoalesceAppend
     }
   }"

text \<open>The comparison of the TCP options, made only when there are any.\<close>

definition tcp_options_equal :: "gslice \<Rightarrow> gslice \<Rightarrow> byte \<Rightarrow> byte \<Rightarrow> tcpGROItem \<Rightarrow> bool option" where
  "tcp_options_equal pkt pktTarget iphL tcphL item =
     (if tcphL > 20 then do {
        a \<leftarrow> sub pkt (uint (iphL + 20)) (uint (iphL + tcphL));
        b \<leftarrow> sub pktTarget (uint (iphLen item + 20)) (uint (iphL + tcphL));
        Some (vis a = vis b)
      } else Some True)"

definition tcpPacketsCanCoalesce ::
  "gslice \<Rightarrow> byte \<Rightarrow> byte \<Rightarrow> u32 \<Rightarrow> bool \<Rightarrow> u16 \<Rightarrow> tcpGROItem \<Rightarrow> gslice list \<Rightarrow> int \<Rightarrow> canCoalesce option" where
  "tcpPacketsCanCoalesce pkt iphL tcphL seq psh gsoS item bufs bufsOffset = do {
     buf \<leftarrow> elem bufs (uint (bufsIndex item));
     pktTarget \<leftarrow> sub_from buf bufsOffset;
     if tcphL \<noteq> tcphLen item then Some CoalesceUnavailable
     else do {
       opts \<leftarrow> tcp_options_equal pkt pktTarget iphL tcphL item;
       if \<not> opts then Some CoalesceUnavailable
       else do {
         ok \<leftarrow> ipHeadersCanCoalesce pkt pktTarget;
         if \<not> ok then Some CoalesceUnavailable
         else
           let lhsLen = itemGsoSize item + numMerged item * itemGsoSize item
           in if seq = sentSeq item + ucast lhsLen then
                (if pshSet item then Some CoalesceUnavailable
                 else do {
                   payload \<leftarrow> sub_from pktTarget (uint (iphL + tcphL));
                   m \<leftarrow> go_mod (int (slen payload)) (uint (itemGsoSize item));
                   if m \<noteq> 0 then Some CoalesceUnavailable
                   else if gsoS > itemGsoSize item then Some CoalesceUnavailable
                   else Some CoalesceAppend
                 })
              else if seq + ucast gsoS = sentSeq item then
                (if psh then Some CoalesceUnavailable
                 else if gsoS < itemGsoSize item then Some CoalesceUnavailable
                 else if gsoS > itemGsoSize item \<and> numMerged item > 0 then Some CoalesceUnavailable
                 else Some CoalescePrepend)
              else Some CoalesceUnavailable
       }
     }
   }"

definition checksumValid :: "endian \<Rightarrow> gslice \<Rightarrow> byte \<Rightarrow> byte \<Rightarrow> bool \<Rightarrow> bool option" where
  "checksumValid en pkt iphL proto v6 = do {
     let srcAddrAt = (if v6 then ipv6SrcAddrOffset else ipv4SrcAddrOffset);
     let addrSize = (if v6 then 16 else 4);
     let lenForPseudo = of_int (int (slen pkt) - uint iphL);
     src \<leftarrow> sub pkt srcAddrAt (srcAddrAt + addrSize);
     dst \<leftarrow> sub pkt (srcAddrAt + addrSize) (srcAddrAt + addrSize * 2);
     let cSum = pseudoHeaderChecksumNoFold en proto (vis src) (vis dst) lenForPseudo;
     t \<leftarrow> sub_from pkt (uint iphL);
     Some (NOT (checksum en (vis t) cSum) = 0)
   }"

section \<open>Coalescing\<close>

datatype coalesceResult =
    CoalesceInsufficientCap
  | CoalescePSHEnding
  | CoalesceItemInvalidCSum
  | CoalescePktInvalidCSum
  | CoalesceSuccess

text \<open>\<^verbatim>\<open>append(bufs[i], make([]byte, n)...)\<close>.\<close>

definition extend_buf :: "gslice list \<Rightarrow> int \<Rightarrow> int \<Rightarrow> gslice list option" where
  "extend_buf bufs i n = (if n < 0 then None
     else do { buf \<leftarrow> elem bufs i; set_elem bufs i (append_zeros buf (nat n)) })"

text \<open>The two checksum tests: of the item's packet while nothing was merged into it, and of \<open>pkt\<close>.
  \<open>None\<close> inside is the pass.\<close>

definition check_csums ::
  "endian \<Rightarrow> gslice \<Rightarrow> gslice \<Rightarrow> byte \<Rightarrow> byte \<Rightarrow> bool \<Rightarrow> u16 \<Rightarrow> bool \<Rightarrow> coalesceResult option option" where
  "check_csums en pkt itemPkt iphL proto v6 merged knownInvalid = do {
     itemBad \<leftarrow> (if merged = 0 then (if knownInvalid then Some True
                   else do { v \<leftarrow> checksumValid en itemPkt iphL proto v6; Some (\<not> v) })
                 else Some False);
     if itemBad then Some (Some CoalesceItemInvalidCSum)
     else do {
       v \<leftarrow> checksumValid en pkt iphL proto v6;
       if \<not> v then Some (Some CoalescePktInvalidCSum) else Some None
     }
   }"

text \<open>\<^verbatim>\<open>copy(bufs[i][lo:], src)\<close>.\<close>

definition copy_into :: "gslice list \<Rightarrow> int \<Rightarrow> int \<Rightarrow> gslice \<Rightarrow> gslice list option" where
  "copy_into bufs i lo src = do {
     buf \<leftarrow> elem bufs i;
     d \<leftarrow> sub_from buf lo;
     set_elem bufs i (put_back buf lo (copy d src))
   }"

definition coalesceUDPPackets ::
  "endian \<Rightarrow> gslice \<Rightarrow> udpGROItem \<Rightarrow> gslice list \<Rightarrow> int \<Rightarrow> bool \<Rightarrow> (coalesceResult \<times> udpGROItem \<times> gslice list) option" where
  "coalesceUDPPackets en pkt item bufs bufsOffset v6 = do {
     let i = uint (bufsIndex item);
     buf \<leftarrow> elem bufs i;
     pktHead \<leftarrow> sub_from buf bufsOffset;
     let headersLen = uint (iphLen item + of_int udphLen);
     let coalescedLen = int (slen pktHead) + int (slen pkt) - headersLen;
     if int (scap pktHead) - bufsOffset < coalescedLen then Some (CoalesceInsufficientCap, item, bufs)
     else do {
       bad \<leftarrow> check_csums en pkt pktHead (iphLen item) IPPROTO_UDP v6 (numMerged item) (cSumKnownInvalid item);
       case bad of
         Some r \<Rightarrow> Some (r, item, bufs)
       | None \<Rightarrow> do {
           bufs \<leftarrow> extend_buf bufs i (int (slen pkt) - headersLen);
           payload \<leftarrow> sub_from pkt headersLen;
           bufs \<leftarrow> copy_into bufs i (bufsOffset + int (slen pktHead)) payload;
           Some (CoalesceSuccess, item\<lparr>numMerged := numMerged item + 1\<rparr>, bufs)
         }
     }
   }"

text \<open>In front of the item: the item's payload is appended to \<open>pkt\<close>, and the two buffers change places,
  because the index of the item is the one that will be written.\<close>

definition coalesce_tcp_prepend ::
  "endian \<Rightarrow> gslice \<Rightarrow> int \<Rightarrow> u32 \<Rightarrow> bool \<Rightarrow> tcpGROItem \<Rightarrow> gslice list \<Rightarrow> int \<Rightarrow> bool
    \<Rightarrow> (coalesceResult \<times> tcpGROItem \<times> gslice list) option" where
  "coalesce_tcp_prepend en pkt pktI seq psh item bufs bufsOffset v6 = do {
     let i = uint (bufsIndex item);
     let headersLen = uint (iphLen item + tcphLen item);
     buf \<leftarrow> elem bufs i;
     itemPkt \<leftarrow> sub_from buf bufsOffset;
     let coalescedLen = int (slen itemPkt) + int (slen pkt) - headersLen;
     if int (scap pkt) - bufsOffset < coalescedLen then Some (CoalesceInsufficientCap, item, bufs)
     else if psh then Some (CoalescePSHEnding, item, bufs)
     else do {
       bad \<leftarrow> check_csums en pkt itemPkt (iphLen item) IPPROTO_TCP v6 (numMerged item) False;
       case bad of
         Some r \<Rightarrow> Some (r, item, bufs)
       | None \<Rightarrow> do {
           let item = item\<lparr>sentSeq := seq\<rparr>;
           bufs \<leftarrow> extend_buf bufs pktI (coalescedLen - int (slen pkt));
           payload \<leftarrow> sub_from buf (bufsOffset + headersLen);
           bufs \<leftarrow> copy_into bufs pktI (bufsOffset + int (slen pkt)) payload;
           a \<leftarrow> elem bufs i;
           b \<leftarrow> elem bufs pktI;
           bufs \<leftarrow> set_elem bufs i b;
           bufs \<leftarrow> set_elem bufs pktI a;
           Some (CoalesceSuccess, item, bufs)
         }
     }
   }"

definition coalesce_tcp_append ::
  "endian \<Rightarrow> gslice \<Rightarrow> bool \<Rightarrow> tcpGROItem \<Rightarrow> gslice list \<Rightarrow> int \<Rightarrow> bool
    \<Rightarrow> (coalesceResult \<times> tcpGROItem \<times> gslice list) option" where
  "coalesce_tcp_append en pkt psh item bufs bufsOffset v6 = do {
     let i = uint (bufsIndex item);
     let headersLen = uint (iphLen item + tcphLen item);
     buf \<leftarrow> elem bufs i;
     pktHead \<leftarrow> sub_from buf bufsOffset;
     let coalescedLen = int (slen pktHead) + int (slen pkt) - headersLen;
     if int (scap pktHead) - bufsOffset < coalescedLen then Some (CoalesceInsufficientCap, item, bufs)
     else do {
       bad \<leftarrow> check_csums en pkt pktHead (iphLen item) IPPROTO_TCP v6 (numMerged item) False;
       case bad of
         Some r \<Rightarrow> Some (r, item, bufs)
       | None \<Rightarrow> do {
           (item, bufs) \<leftarrow> (if psh then do {
                let at = uint (iphLen item + of_int tcpFlagsOffset);
                b \<leftarrow> rd pktHead at;
                buf \<leftarrow> wr buf (bufsOffset + at) (b OR tcpFlagPSH);
                bufs \<leftarrow> set_elem bufs i buf;
                Some (item\<lparr>pshSet := psh\<rparr>, bufs)
              } else Some (item, bufs));
           bufs \<leftarrow> extend_buf bufs i (int (slen pkt) - headersLen);
           payload \<leftarrow> sub_from pkt headersLen;
           bufs \<leftarrow> copy_into bufs i (bufsOffset + int (slen pktHead)) payload;
           Some (CoalesceSuccess, item, bufs)
         }
     }
   }"

definition coalesceTCPPackets ::
  "endian \<Rightarrow> canCoalesce \<Rightarrow> gslice \<Rightarrow> int \<Rightarrow> u16 \<Rightarrow> u32 \<Rightarrow> bool \<Rightarrow> tcpGROItem \<Rightarrow> gslice list \<Rightarrow> int \<Rightarrow> bool
    \<Rightarrow> (coalesceResult \<times> tcpGROItem \<times> gslice list) option" where
  "coalesceTCPPackets en mode pkt pktI gsoS seq psh item bufs bufsOffset v6 = do {
     (r, item, bufs) \<leftarrow> (if mode = CoalescePrepend then coalesce_tcp_prepend en pkt pktI seq psh item bufs bufsOffset v6
        else coalesce_tcp_append en pkt psh item bufs bufsOffset v6);
     if r \<noteq> CoalesceSuccess then Some (r, item, bufs)
     else
       let item = (if gsoS > itemGsoSize item then item\<lparr>itemGsoSize := gsoS\<rparr> else item)
       in Some (CoalesceSuccess, item\<lparr>numMerged := numMerged item + 1\<rparr>, bufs)
   }"

section \<open>Total within the bounds\<close>

lemma ipHeadersCanCoalesce_total: "ipHeadersCanCoalesce a b \<noteq> None"
  unfolding ipHeadersCanCoalesce_def by (intro no_panic) (auto simp: rd_def)

text \<open>What the tables keep of an item: its buffer exists and holds its headers, and its size is positive.\<close>

definition tcp_item_ok :: "nat \<Rightarrow> gslice list \<Rightarrow> tcpGROItem \<Rightarrow> bool" where
  "tcp_item_ok off bufs it \<longleftrightarrow> unat (bufsIndex it) < length bufs \<and>
     unat (iphLen it) = (if isV6 (key it) then 40 else 20) \<and> 20 \<le> unat (tcphLen it) \<and> unat (tcphLen it) \<le> 60 \<and>
     itemGsoSize it \<noteq> 0 \<and> off + unat (iphLen it) + unat (tcphLen it) \<le> slen (bufs ! unat (bufsIndex it))"

definition udp_item_ok :: "nat \<Rightarrow> gslice list \<Rightarrow> udpGROItem \<Rightarrow> bool" where
  "udp_item_ok off bufs it \<longleftrightarrow> unat (bufsIndex it) < length bufs \<and>
     unat (iphLen it) = (if isV6 (key it) then 40 else 20) \<and>
     itemGsoSize it \<noteq> 0 \<and> off + unat (iphLen it) + 8 \<le> slen (bufs ! unat (bufsIndex it))"

lemma uint8_add: "unat x + unat y < 256 \<Longrightarrow> uint (x + y :: byte) = int (unat x + unat y)"
proof -
  assume "unat x + unat y < 256"
  then have "uint x + uint y < 256" by (simp add: uint_nat del: of_nat_unat)
  then show ?thesis by (simp add: uint_word_ariths)
qed

lemma tcpPacketsCanCoalesce_total:
  assumes it: "tcp_item_ok off bufs item" and wf: "\<forall>b\<in>set bufs. wf_slice b" "wf_slice pkt"
    and ip: "iphL = iphLen item" and len: "unat iphL + unat tcphL \<le> slen pkt"
  shows "tcpPacketsCanCoalesce pkt iphL tcphL seq psh gsoS item bufs (int off) \<noteq> None"
proof -
  have i: "elem bufs (uint (bufsIndex item)) = Some (bufs ! unat (bufsIndex item))"
    using it elem_ok [of "unat (bufsIndex item)" bufs] by (simp add: tcp_item_ok_def)
  have wb: "wf_slice (bufs ! unat (bufsIndex item))" using it wf by (simp add: tcp_item_ok_def)
  have g: "go_mod a (uint (itemGsoSize item)) \<noteq> None" for a using it by (simp add: tcp_item_ok_def go_mod_def uint_0_iff)
  have ipl: "unat iphL \<le> 40" using it ip by (auto simp: tcp_item_ok_def split: if_splits)
  have u: "uint (iphL + 20) = int (unat iphL + 20)" using ipl by (subst uint8_add) auto
  have u2: "uint (iphL + tcphL) = int (unat iphL + unat tcphL)" if "tcphL = tcphLen item"
    using it ipl that by (subst uint8_add) (auto simp: tcp_item_ok_def)
  define t where "t = \<lparr>sarr = drop off (sarr (bufs ! unat (bufsIndex item))), slen = slen (bufs ! unat (bufsIndex item)) - off\<rparr>"
  have t: "sub_from (bufs ! unat (bufsIndex item)) (int off) = Some t"
    using it wb sub_from_ok [of off "bufs ! unat (bufsIndex item)"] by (simp add: tcp_item_ok_def t_def)
  have wt: "wf_slice t" using wf_sub_from [OF t wb] .
  define h where "h = unat iphL + unat tcphL"
  have hp: "h \<le> slen pkt" using len by (simp add: h_def)
  have o: "tcp_options_equal pkt t iphL tcphL item \<noteq> None \<and> sub_from t (uint (iphL + tcphL)) \<noteq> None" if e: "tcphL = tcphLen item"
  proof -
    have "off + h \<le> slen (bufs ! unat (bufsIndex item))" using it ip e by (simp add: tcp_item_ok_def h_def)
    then have ht: "h \<le> slen t" by (simp add: t_def)
    have up: "uint (iphL + tcphL) = int h" "uint (iphLen item + 20) = int (unat iphL + 20)"
      using u2 [OF e] u by (simp_all add: h_def ip)
    have h20: "unat iphL + 20 \<le> h" using it e by (simp add: tcp_item_ok_def h_def)
    show ?thesis
      unfolding tcp_options_equal_def u up
      by (intro conjI no_panic sub_total sub_from_total) (use ht hp h20 wf(2) wt in \<open>auto simp: wf_slice_def\<close>)
  qed
  show ?thesis
    unfolding tcpPacketsCanCoalesce_def Let_def i t Option.bind.simps
    using o by (intro no_panic g ipHeadersCanCoalesce_total) auto
qed

lemma udpPacketsCanCoalesce_total:
  assumes it: "udp_item_ok off bufs item" and wf: "\<forall>b\<in>set bufs. wf_slice b" and ip: "iphL = iphLen item"
  shows "udpPacketsCanCoalesce pkt iphL gsoS item bufs (int off) \<noteq> None"
proof -
  have i: "elem bufs (uint (bufsIndex item)) = Some (bufs ! unat (bufsIndex item))"
    using it elem_ok [of "unat (bufsIndex item)" bufs] by (simp add: udp_item_ok_def)
  have wb: "wf_slice (bufs ! unat (bufsIndex item))" using it wf by (simp add: udp_item_ok_def)
  have g: "go_mod a (uint (itemGsoSize item)) \<noteq> None" for a using it by (simp add: udp_item_ok_def go_mod_def uint_0_iff)
  define t where "t = \<lparr>sarr = drop off (sarr (bufs ! unat (bufsIndex item))), slen = slen (bufs ! unat (bufsIndex item)) - off\<rparr>"
  have t: "sub_from (bufs ! unat (bufsIndex item)) (int off) = Some t"
    using it wb sub_from_ok [of off "bufs ! unat (bufsIndex item)"] by (simp add: udp_item_ok_def t_def)
  have "unat iphL \<le> 40" using it ip by (auto simp: udp_item_ok_def split: if_splits)
  then have u: "uint (iphL + of_int udphLen) = int (unat iphL + 8)" by (subst uint8_add) (auto simp: udphLen_def)
  have "unat iphL + 8 \<le> slen t" using it ip by (auto simp: udp_item_ok_def t_def)
  then have "sub_from t (uint (iphL + of_int udphLen)) \<noteq> None"
    unfolding u using wf_sub_from [OF t wb] by (intro sub_from_total) auto
  then show ?thesis
    unfolding udpPacketsCanCoalesce_def i t Option.bind.simps
    by (intro no_panic g ipHeadersCanCoalesce_total) auto
qed

lemma checksumValid_total:
  assumes "wf_slice pkt" and "(if v6 then 40 else 20) \<le> slen pkt" and "unat iphL \<le> slen pkt"
  shows "checksumValid en pkt iphL proto v6 \<noteq> None"
proof -
  have u: "uint iphL = int (unat iphL)" by simp
  have s: "sub pkt (if v6 then ipv6SrcAddrOffset else ipv4SrcAddrOffset)
      ((if v6 then ipv6SrcAddrOffset else ipv4SrcAddrOffset) + (if v6 then 16 else 4)) \<noteq> None"
    "sub pkt ((if v6 then ipv6SrcAddrOffset else ipv4SrcAddrOffset) + (if v6 then 16 else 4))
      ((if v6 then ipv6SrcAddrOffset else ipv4SrcAddrOffset) + (if v6 then 16 else 4) * 2) \<noteq> None"
    using assms(1,2) by (auto simp: sub_def wf_slice_def tun_consts)
  show ?thesis
    unfolding checksumValid_def Let_def u
    by (intro no_panic s sub_from_total) (use assms in auto)
qed

lemma check_csums_total:
  assumes "wf_slice pkt" "(if v6 then 40 else 20) \<le> slen pkt" "unat iphL \<le> slen pkt"
    and "wf_slice itemPkt" "(if v6 then 40 else 20) \<le> slen itemPkt" "unat iphL \<le> slen itemPkt"
  shows "check_csums en pkt itemPkt iphL proto v6 merged known \<noteq> None"
  unfolding check_csums_def
  by (intro no_panic checksumValid_total) (use assms in auto)

lemma check_csums_not_success: "check_csums en pkt itemPkt iphL proto v6 merged known = Some (Some r) \<Longrightarrow>
    r = CoalesceItemInvalidCSum \<or> r = CoalescePktInvalidCSum"
  unfolding check_csums_def by (elim run_elims) auto

section \<open>Growing a buffer in place\<close>

definition grow :: "gslice \<Rightarrow> byte list \<Rightarrow> gslice" where
  "grow b xs = \<lparr>sarr = splice (sarr b) (slen b) xs, slen = slen b + length xs\<rparr>"

lemma slen_grow [simp]: "slen (grow b xs) = slen b + length xs"
  by (simp add: grow_def)

lemma wf_grow [simp]: "slen b + length xs \<le> scap b \<Longrightarrow> wf_slice (grow b xs)"
  by (simp add: grow_def wf_slice_def scap_def)

lemma scap_grow [simp]: "slen b + length xs \<le> scap b \<Longrightarrow> scap (grow b xs) = scap b"
  by (simp add: grow_def scap_def)

lemma vis_grow [simp]: "slen b + length xs \<le> scap b \<Longrightarrow> vis (grow b xs) = vis b @ xs"
  by (simp add: grow_def vis_def scap_def splice_def)

lemma extend_buf_eq:
  assumes i: "i < length bufs" and cap: "slen (bufs ! i) + n \<le> scap (bufs ! i)"
  shows "extend_buf bufs (int i) (int n) = Some (bufs[i := grow (bufs ! i) (replicate n 0)])"
  using assms by (simp add: extend_buf_def elem_def set_elem_def append_zeros_def grow_def)

lemma copy_into_eq:
  assumes i: "i < length bufs" and b: "bufs ! i = grow b (replicate (slen src) 0)"
    and wf: "wf_slice src" and cap: "slen b + slen src \<le> scap b"
  shows "copy_into bufs (int i) (int (slen b)) src = Some (bufs[i := grow b (vis src)])"
proof -
  have sf: "sub_from (bufs ! i) (int (slen b)) = Some \<lparr>sarr = drop (slen b) (sarr (bufs ! i)), slen = slen src\<rparr>"
    using cap by (subst sub_from_ok) (simp_all add: b)
  have "put_back (bufs ! i) (int (slen b)) (copy \<lparr>sarr = drop (slen b) (sarr (bufs ! i)), slen = slen src\<rparr> src) = grow b (vis src)"
    using cap wf by (simp add: b put_back_def copy_def grow_def splice_def scap_def min_def)
  then show ?thesis using i sf by (simp add: copy_into_def elem_def set_elem_def)
qed

section \<open>What a successful coalesce does\<close>

lemma item_buf:
  assumes "unat (bufsIndex (item :: ('k, 'b) gro_item_scheme)) < length bufs" "\<forall>b\<in>set bufs. wf_slice b" "off \<le> slen (bufs ! unat (bufsIndex item))"
  obtains t where "elem bufs (uint (bufsIndex item)) = Some (bufs ! unat (bufsIndex item))"
    "wf_slice (bufs ! unat (bufsIndex item))"
    "sub_from (bufs ! unat (bufsIndex item)) (int off) = Some t" "wf_slice t"
    "slen t = slen (bufs ! unat (bufsIndex item)) - off" "scap t = scap (bufs ! unat (bufsIndex item)) - off"
    "vis t = drop off (vis (bufs ! unat (bufsIndex item)))"
proof -
  have wb: "wf_slice (bufs ! unat (bufsIndex item))" using assms by simp
  have i: "elem bufs (uint (bufsIndex item)) = Some (bufs ! unat (bufsIndex item))"
    using assms elem_ok [of "unat (bufsIndex item)" bufs] by simp
  obtain t where t: "sub_from (bufs ! unat (bufsIndex item)) (int off) = Some t"
    using sub_from_total [OF assms(3) wb] by auto
  show ?thesis
    by (rule that [OF i wb t wf_sub_from [OF t wb]]) (use sub_from_eq [OF t] vis_sub_from [OF t] in \<open>auto simp: scap_def\<close>)
qed

text \<open>The two calls that append the payload \<open>src\<close> to buffer \<open>i\<close>.\<close>

lemma extend_copy:
  assumes i: "i < length bufs" and wf: "wf_slice (bufs ! i)" "wf_slice src"
    and cap: "slen (bufs ! i) + slen src \<le> scap (bufs ! i)" and n: "n = int (slen src)" and at: "at = int (slen (bufs ! i))"
  shows "extend_buf bufs (int i) n = Some (bufs[i := grow (bufs ! i) (replicate (slen src) 0)])"
    and "copy_into (bufs[i := grow (bufs ! i) (replicate (slen src) 0)]) (int i) at src = Some (bufs[i := grow (bufs ! i) (vis src)])"
proof -
  show "extend_buf bufs (int i) n = Some (bufs[i := grow (bufs ! i) (replicate (slen src) 0)])"
    unfolding n by (rule extend_buf_eq [OF i cap])
  show "copy_into (bufs[i := grow (bufs ! i) (replicate (slen src) 0)]) (int i) at src = Some (bufs[i := grow (bufs ! i) (vis src)])"
    unfolding at using copy_into_eq [of i "bufs[i := grow (bufs ! i) (replicate (slen src) 0)]" "bufs ! i" src] i wf cap by simp
qed

lemma coalesceUDPPackets_returns:
  assumes it: "udp_item_ok off bufs item" and wf: "\<forall>b\<in>set bufs. wf_slice b" "wf_slice pkt"
    and v6: "v6 = isV6 (key item)" and H: "H = unat (iphLen item) + 8" "H \<le> slen pkt"
  shows "returns (coalesceUDPPackets en pkt item bufs (int off) v6) (\<lambda>(r, item', bufs').
    if r = CoalesceSuccess
    then item' = item\<lparr>numMerged := numMerged item + 1\<rparr> \<and>
      slen (bufs ! unat (bufsIndex item)) + (slen pkt - H) \<le> scap (bufs ! unat (bufsIndex item)) \<and>
      bufs' = bufs[unat (bufsIndex item) := grow (bufs ! unat (bufsIndex item)) (drop H (vis pkt))]
    else item' = item \<and> bufs' = bufs)"
proof -
  define i where "i = unat (bufsIndex item)"
  have len: "i < length bufs" "off + H \<le> slen (bufs ! i)" "(if v6 then 40 else 20) \<le> H" "unat (iphLen item) \<le> H"
    using it H(1) v6 by (auto simp: udp_item_ok_def i_def)
  obtain t where t: "elem bufs (int i) = Some (bufs ! i)" "wf_slice (bufs ! i)"
    "sub_from (bufs ! i) (int off) = Some t" "wf_slice t" "slen t = slen (bufs ! i) - off" "scap t = scap (bufs ! i) - off"
    using item_buf [of item bufs off] it wf(1) len unfolding i_def uint_nat by (metis add_leD1)
  have u: "uint (iphLen item + of_int udphLen) = int H" "uint (bufsIndex item) = int i"
    using it H(1) by (subst uint8_add; auto simp: udp_item_ok_def udphLen_def split: if_splits) (simp add: i_def)
  obtain p where p: "sub_from pkt (int H) = Some p" "wf_slice p" "slen p = slen pkt - H" "vis p = drop H (vis pkt)"
    using sub_from_total [OF H(2) wf(2)] wf_sub_from [OF _ wf(2)] sub_from_eq vis_sub_from by fastforce
  have chk: "check_csums en pkt t (iphLen item) IPPROTO_UDP v6 (numMerged item) (cSumKnownInvalid item) \<noteq> None"
    by (rule check_csums_total) (use len t(4,5) wf(2) H(2) in auto)
  show ?thesis
  proof (cases "int (scap t) - int off < int (slen t) + int (slen pkt) - int H")
    case True
    then show ?thesis by (simp add: coalesceUDPPackets_def Let_def t u returns_def)
  next
    case False
    have c: "slen (bufs ! i) + slen p \<le> scap (bufs ! i)" using False t(5,6) p(3) H(2) len(2) by linarith
    have n: "int (slen pkt) - int H = int (slen p)" "int off + int (slen t) = int (slen (bufs ! i))"
      using p(3) H(2) t(5) len(2) by auto
    note e = extend_copy [OF len(1) t(2) p(2) c n]
    show ?thesis
      unfolding coalesceUDPPackets_def Let_def
      unfolding u unfolding t(1) Option.bind.simps unfolding t(3) Option.bind.simps
      unfolding e(1) p(1) Option.bind.simps e(2)
      by (intro returns_intros chk)
        (use False c in \<open>auto dest: check_csums_not_success simp: p(3,4) i_def [symmetric]\<close>)
  qed
qed

text \<open>The PSH flag of the TCP header at \<open>at\<close>.\<close>

definition set_psh :: "nat \<Rightarrow> gslice \<Rightarrow> gslice" where
  "set_psh at buf = buf\<lparr>sarr := splice (sarr buf) at [vis buf ! at OR tcpFlagPSH]\<rparr>"

lemma set_psh_simps [simp]:
  "slen (set_psh at buf) = slen buf" "at < slen buf \<Longrightarrow> wf_slice buf \<Longrightarrow> wf_slice (set_psh at buf)"
  "at < slen buf \<Longrightarrow> wf_slice buf \<Longrightarrow> scap (set_psh at buf) = scap buf"
  "at < slen buf \<Longrightarrow> wf_slice buf \<Longrightarrow> vis (set_psh at buf) = splice (vis buf) at [vis buf ! at OR tcpFlagPSH]"
  by (auto simp: set_psh_def scap_def wf_slice_def)

lemma coalesce_tcp_append_returns:
  assumes it: "tcp_item_ok off bufs item" and wf: "\<forall>b\<in>set bufs. wf_slice b" "wf_slice pkt"
    and v6: "v6 = isV6 (key item)" and H: "H = unat (iphLen item) + unat (tcphLen item)" "H \<le> slen pkt"
  shows "returns (coalesce_tcp_append en pkt psh item bufs (int off) v6) (\<lambda>(r, item', bufs').
    let i = unat (bufsIndex item); b = (if psh then set_psh (off + unat (iphLen item) + 13) (bufs ! i) else bufs ! i)
    in if r = CoalesceSuccess
    then item' = (if psh then item\<lparr>pshSet := True\<rparr> else item) \<and>
      slen b + (slen pkt - H) \<le> scap b \<and> bufs' = bufs[i := grow b (drop H (vis pkt))]
    else item' = item \<and> bufs' = bufs)"
proof -
  define i where "i = unat (bufsIndex item)"
  define ip where "ip = unat (iphLen item)"
  have len: "i < length bufs" "off + H \<le> slen (bufs ! i)" "(if v6 then 40 else 20) \<le> H" "ip + 20 \<le> H" "ip \<le> 40" "H \<le> 100"
    using it H(1) v6 by (auto simp: tcp_item_ok_def i_def ip_def)
  obtain t where t: "elem bufs (int i) = Some (bufs ! i)" "wf_slice (bufs ! i)"
    "sub_from (bufs ! i) (int off) = Some t" "wf_slice t" "slen t = slen (bufs ! i) - off" "scap t = scap (bufs ! i) - off"
    "vis t = drop off (vis (bufs ! i))"
    using item_buf [of item bufs off] it wf(1) len unfolding i_def uint_nat by (metis add_leD1)
  have u: "uint (iphLen item + tcphLen item) = int H" "uint (bufsIndex item) = int i"
    using H(1) len by (subst uint8_add; simp) (simp add: i_def)
  have u13: "uint (iphLen item + of_int tcpFlagsOffset) = int (ip + 13)"
    using len(5) by (subst uint8_add) (auto simp: tcpFlagsOffset_def ip_def)
  obtain p where p: "sub_from pkt (int H) = Some p" "wf_slice p" "slen p = slen pkt - H" "vis p = drop H (vis pkt)"
    using sub_from_total [OF H(2) wf(2)] wf_sub_from [OF _ wf(2)] sub_from_eq vis_sub_from by fastforce
  have chk: "check_csums en pkt t (iphLen item) IPPROTO_TCP v6 (numMerged item) False \<noteq> None"
    by (rule check_csums_total) (use len t(4,5) wf(2) H(2) in \<open>auto simp: ip_def\<close>)
  define b where "b = (if psh then set_psh (off + ip + 13) (bufs ! i) else bufs ! i)"
  have at: "off + ip + 13 < slen (bufs ! i)" using len by linarith
  have bp: "wf_slice b" "slen b = slen (bufs ! i)" "scap b = scap (bufs ! i)" using t(2) at by (simp_all add: b_def)
  have psh: "(if psh then do { bb \<leftarrow> rd t (int (ip + 13)); buf \<leftarrow> wr (bufs ! i) (int off + int (ip + 13)) (bb OR tcpFlagPSH);
        bufs \<leftarrow> set_elem bufs (int i) buf; Some (item\<lparr>pshSet := psh\<rparr>, bufs) } else Some (item, bufs))
    = Some ((if psh then item\<lparr>pshSet := True\<rparr> else item), bufs[i := b])"
    using at len t rd_ok [of "ip + 13" t] wr_ok [of "off + ip + 13" "bufs ! i"] set_elem_ok [of i bufs]
    by (simp add: b_def set_psh_def algebra_simps)
  show ?thesis
  proof (cases "int (scap t) - int off < int (slen t) + int (slen pkt) - int H")
    case True
    then show ?thesis by (simp add: coalesce_tcp_append_def Let_def t u returns_def)
  next
    case False
    have c: "slen (bufs[i := b] ! i) + slen p \<le> scap (bufs[i := b] ! i)"
      using False t(5,6) p(3) H(2) len(1,2) bp by simp
    have n: "int (slen pkt) - int H = int (slen p)" "int off + int (slen t) = int (slen (bufs[i := b] ! i))"
      using p(3) H(2) t(5) len(1,2) bp(2) by auto
    have b': "i < length (bufs[i := b])" "wf_slice (bufs[i := b] ! i)" using len(1) bp(1) by simp_all
    note e = extend_copy [OF b' p(2) c n]
    show ?thesis
      unfolding coalesce_tcp_append_def Let_def
      unfolding u u13 unfolding t(1) Option.bind.simps unfolding t(3) Option.bind.simps
      unfolding psh Option.bind.simps prod.case e(1) p(1) Option.bind.simps e(2)
      unfolding i_def [symmetric] ip_def [symmetric] unfolding b_def [symmetric]
      by (intro returns_intros chk)
        (use c len(1) in \<open>auto dest: check_csums_not_success simp: p(3,4)\<close>)
  qed
qed

lemma coalesce_tcp_prepend_returns:
  assumes it: "tcp_item_ok off bufs item" and wf: "\<forall>b\<in>set bufs. wf_slice b"
    and pkt: "pktI < length bufs" "pktI \<noteq> unat (bufsIndex item)" "sub_from (bufs ! pktI) (int off) = Some pkt"
    and v6: "v6 = isV6 (key item)" and H: "H = unat (iphLen item) + unat (tcphLen item)" "H \<le> slen pkt"
  shows "returns (coalesce_tcp_prepend en pkt (int pktI) seq psh item bufs (int off) v6) (\<lambda>(r, item', bufs').
    let i = unat (bufsIndex item); payload = drop (off + H) (vis (bufs ! i))
    in if r = CoalesceSuccess
    then item' = item\<lparr>sentSeq := seq\<rparr> \<and> \<not> psh \<and>
      slen (bufs ! pktI) + length payload \<le> scap (bufs ! pktI) \<and>
      bufs' = bufs[i := grow (bufs ! pktI) payload, pktI := bufs ! i]
    else item' = item \<and> bufs' = bufs)"
proof -
  define i where "i = unat (bufsIndex item)"
  define ip where "ip = unat (iphLen item)"
  have len: "i < length bufs" "off + H \<le> slen (bufs ! i)" "(if v6 then 40 else 20) \<le> H" "ip + 20 \<le> H" "ip \<le> 40" "H \<le> 100"
    using it H(1) v6 by (auto simp: tcp_item_ok_def i_def ip_def)
  obtain t where t: "elem bufs (int i) = Some (bufs ! i)" "wf_slice (bufs ! i)"
    "sub_from (bufs ! i) (int off) = Some t" "wf_slice t" "slen t = slen (bufs ! i) - off" "scap t = scap (bufs ! i) - off"
    using item_buf [of item bufs off] it wf(1) len unfolding i_def uint_nat by (metis add_leD1)
  have u: "uint (iphLen item + tcphLen item) = int H" "uint (bufsIndex item) = int i"
    using H(1) len by (subst uint8_add; simp) (simp add: i_def)
  have wp: "wf_slice (bufs ! pktI)" using wf pkt(1) by simp
  note pk = sub_from_eq [OF pkt(3)]
  have pl: "slen pkt = slen (bufs ! pktI) - off" "scap pkt = scap (bufs ! pktI) - off" "off \<le> slen (bufs ! pktI)" "wf_slice pkt"
    using pk wf_sub_from [OF pkt(3) wp] by (auto simp: scap_def)
  obtain p where p: "sub_from (bufs ! i) (int (off + H)) = Some p" "wf_slice p" "slen p = slen (bufs ! i) - (off + H)"
      "vis p = drop (off + H) (vis (bufs ! i))"
    using sub_from_total [OF len(2) t(2)] wf_sub_from [OF _ t(2)] sub_from_eq vis_sub_from by fastforce
  have chk: "check_csums en pkt t (iphLen item) IPPROTO_TCP v6 (numMerged item) False \<noteq> None"
    by (rule check_csums_total) (use len t(4,5) pl(4) H(2) in \<open>auto simp: ip_def\<close>)
  show ?thesis
  proof (cases "int (scap pkt) - int off < int (slen t) + int (slen pkt) - int H")
    case True
    then show ?thesis by (simp add: coalesce_tcp_prepend_def Let_def t u returns_def)
  next
    case False
    have c: "slen (bufs ! pktI) + slen p \<le> scap (bufs ! pktI)"
      using False t(5) p(3) H(2) len(2) pl by linarith
    have n: "int (slen t) + int (slen pkt) - int H - int (slen pkt) = int (slen p)" "int off + int (slen pkt) = int (slen (bufs ! pktI))"
      using p(3) t(5) len(2) pl by auto
    note e = extend_copy [OF pkt(1) wp p(2) c n]
    have oH: "int off + int H = int (off + H)" by simp
    have ne: "pktI \<noteq> i" using pkt(2) by (simp add: i_def)
    define g where "g = grow (bufs ! pktI) (vis p)"
    have sw: "elem (bufs[pktI := g]) (int i) = Some (bufs ! i)" "elem (bufs[pktI := g]) (int pktI) = Some g"
      "set_elem (bufs[pktI := g]) (int i) g = Some (bufs[pktI := g, i := g])"
      "set_elem (bufs[pktI := g, i := g]) (int pktI) (bufs ! i) = Some (bufs[i := g, pktI := bufs ! i])"
      using len(1) pkt(1) ne by (simp_all add: elem_def set_elem_def list_update_swap)
    show ?thesis
      unfolding coalesce_tcp_prepend_def Let_def
      unfolding u oH unfolding t(1) Option.bind.simps unfolding t(3) Option.bind.simps
      unfolding e(1) p(1) Option.bind.simps e(2) unfolding g_def [symmetric] sw Option.bind.simps
      unfolding i_def [symmetric]
      by (intro returns_intros chk)
        (use c len(1) p(3,4) t(2) in \<open>auto dest: check_csums_not_success simp: g_def\<close>)
  qed
qed

text \<open>The end of a successful coalesce: the larger size, one more packet.\<close>

definition merged_item :: "u16 \<Rightarrow> tcpGROItem \<Rightarrow> tcpGROItem" where
  "merged_item gsoS it = (if gsoS > itemGsoSize it then it\<lparr>itemGsoSize := gsoS\<rparr> else it)\<lparr>numMerged := numMerged it + 1\<rparr>"

lemma coalesceTCPPackets_returns:
  assumes it: "tcp_item_ok off bufs item" and wf: "\<forall>b\<in>set bufs. wf_slice b"
    and pkt: "pktI < length bufs" "pktI \<noteq> unat (bufsIndex item)" "sub_from (bufs ! pktI) (int off) = Some pkt"
    and v6: "v6 = isV6 (key item)" and H: "H = unat (iphLen item) + unat (tcphLen item)" "H \<le> slen pkt"
  shows "returns (coalesceTCPPackets en mode pkt (int pktI) gsoS seq psh item bufs (int off) v6) (\<lambda>(r, item', bufs').
    let i = unat (bufsIndex item);
        upd = merged_item gsoS
    in if r \<noteq> CoalesceSuccess then item' = item \<and> bufs' = bufs
    else if mode = CoalescePrepend
    then item' = upd (item\<lparr>sentSeq := seq\<rparr>) \<and> \<not> psh \<and>
      slen (bufs ! pktI) + (slen (bufs ! i) - (off + H)) \<le> scap (bufs ! pktI) \<and>
      bufs' = bufs[i := grow (bufs ! pktI) (drop (off + H) (vis (bufs ! i))), pktI := bufs ! i]
    else item' = upd (if psh then item\<lparr>pshSet := True\<rparr> else item) \<and>
      slen (bufs ! i) + (slen pkt - H) \<le> scap (bufs ! i) \<and>
      bufs' = bufs[i := grow (if psh then set_psh (off + unat (iphLen item) + 13) (bufs ! i) else bufs ! i) (drop H (vis pkt))])"
proof -
  have wp: "wf_slice pkt" using wf_sub_from [OF pkt(3)] wf pkt(1) by simp
  have wi: "wf_slice (bufs ! unat (bufsIndex item))" using it wf by (simp add: tcp_item_ok_def)
  have at: "off + unat (iphLen item) + 13 < slen (bufs ! unat (bufsIndex item))" using it by (simp add: tcp_item_ok_def)
  obtain r item' bufs' where e: "(if mode = CoalescePrepend then coalesce_tcp_prepend en pkt (int pktI) seq psh item bufs (int off) v6
        else coalesce_tcp_append en pkt psh item bufs (int off) v6) = Some (r, item', bufs')"
    and P: "mode = CoalescePrepend \<Longrightarrow> coalesce_tcp_prepend en pkt (int pktI) seq psh item bufs (int off) v6 = Some (r, item', bufs')"
      "mode \<noteq> CoalescePrepend \<Longrightarrow> coalesce_tcp_append en pkt psh item bufs (int off) v6 = Some (r, item', bufs')"
    using coalesce_tcp_prepend_returns [OF it wf pkt v6 H, of en seq psh] coalesce_tcp_append_returns [OF it wf wp v6 H, of en psh]
    by (cases "mode = CoalescePrepend") (auto simp: returns_iff)
  have u: "(if gsoS > itemGsoSize it then it\<lparr>itemGsoSize := gsoS\<rparr> else it)
      \<lparr>numMerged := numMerged (if gsoS > itemGsoSize it then it\<lparr>itemGsoSize := gsoS\<rparr> else it) + 1\<rparr> = merged_item gsoS it" for it
    by (simp add: merged_item_def)
  have r: "coalesceTCPPackets en mode pkt (int pktI) gsoS seq psh item bufs (int off) v6
      = Some (if r \<noteq> CoalesceSuccess then (r, item', bufs') else (CoalesceSuccess, merged_item gsoS item', bufs'))"
    unfolding coalesceTCPPackets_def e Option.bind.simps prod.case Let_def u by simp
  have q: "returns (Some (r, item', bufs')) P = P (r, item', bufs')" for P by (simp add: returns_def)
  show ?thesis
  proof (cases "mode = CoalescePrepend")
    case True
    note c = coalesce_tcp_prepend_returns [OF it wf pkt v6 H, of en seq psh, unfolded P(1) [OF True] q prod.case Let_def]
    show ?thesis unfolding r
      by (cases "r = CoalesceSuccess") (use c True wi in \<open>simp_all add: returns_def Let_def\<close>)
  next
    case False
    note c = coalesce_tcp_append_returns [OF it wf wp v6 H, of en psh, unfolded P(2) [OF False] q prod.case Let_def]
    show ?thesis unfolding r
      by (cases "r = CoalesceSuccess"; cases psh) (use c False wi at in \<open>simp_all add: returns_def Let_def\<close>)
  qed
qed

end
