(* ===== verification/Gro_Engine.thy ===== *)
theory Gro_Engine
  imports Gro_Coalesce
begin

text \<open>
  Generic receive offload on the write side (\<^verbatim>\<open>offload_linux.go\<close>): the evaluation of one TCP or UDP
  packet against the packets of its flow (\<open>tcpGRO\<close>, \<open>udpGRO\<close>), the choice between them
  (\<open>packetIsGROCandidate\<close>), the headers of coalesced packets (\<open>applyTCPCoalesceAccounting\<close>,
  \<open>applyUDPCoalesceAccounting\<close>) and the pass over a batch (\<open>handleGRO\<close>). The buffers and tables a
  function changes are part of its result.
\<close>

datatype groResult = GroNoop | GroTableInsert | GroCoalesced

section \<open>One packet\<close>

text \<open>The header length of the packet, or nothing when its length fields do not match its length.\<close>

definition gro_iph_len :: "gslice \<Rightarrow> bool \<Rightarrow> int option option" where
  "gro_iph_len pkt v6 =
     (if int (slen pkt) > maxUint16 then Some None
      else do {
        b0 \<leftarrow> rd pkt 0;
        let iphL = uint ((b0 AND 0x0F) * 4);
        if v6 then do {
          ipv6HPayloadLen \<leftarrow> get16 pkt 4;
          if uint ipv6HPayloadLen \<noteq> int (slen pkt) - 40 then Some None
          else if int (slen pkt) < 40 then Some None else Some (Some 40)
        } else do {
          totalLen \<leftarrow> get16 pkt 2;
          if uint totalLen \<noteq> int (slen pkt) then Some None
          else if int (slen pkt) < iphL then Some None else Some (Some iphL)
        }
      })"

text \<open>An IPv4 fragment: more fragments, or a fragment offset.\<close>

definition is_fragment :: "gslice \<Rightarrow> bool option" where
  "is_fragment pkt = do {
     b6 \<leftarrow> rd pkt 6;
     if b6 AND ipv4FlagMoreFragments \<noteq> 0 \<or> push_bit 3 b6 \<noteq> 0 then Some True
     else do { b7 \<leftarrow> rd pkt 7; Some (b7 \<noteq> 0) }
   }"

definition src_addr_offset :: "bool \<Rightarrow> int" where
  "src_addr_offset v6 = (if v6 then ipv6SrcAddrOffset else ipv4SrcAddrOffset)"

definition addr_len :: "bool \<Rightarrow> int" where
  "addr_len v6 = (if v6 then 16 else 4)"

subsection \<open>TCP\<close>

text \<open>The loop over the items of the flow, last first: \<open>k\<close> items are still to be looked at. \<open>None\<close> in the
  result means no item took the packet.\<close>

fun tcp_items_loop ::
  "endian \<Rightarrow> gslice \<Rightarrow> int \<Rightarrow> int \<Rightarrow> int \<Rightarrow> int \<Rightarrow> u32 \<Rightarrow> bool \<Rightarrow> u16 \<Rightarrow> bool \<Rightarrow> tcpGROItem list \<Rightarrow> nat
    \<Rightarrow> gslice list \<Rightarrow> tcpGROTable \<Rightarrow> (groResult option \<times> gslice list \<times> tcpGROTable) option" where
  "tcp_items_loop en pkt pktI offset iphL tcphL seq psh gsoS v6 items 0 bufs table = Some (None, bufs, table)"
| "tcp_items_loop en pkt pktI offset iphL tcphL seq psh gsoS v6 items (Suc k) bufs table = do {
     let item = items ! k;
     can \<leftarrow> tcpPacketsCanCoalesce pkt (of_int iphL) (of_int tcphL) seq psh gsoS item bufs offset;
     if can = CoalesceUnavailable
     then tcp_items_loop en pkt pktI offset iphL tcphL seq psh gsoS v6 items k bufs table
     else do {
       (result, item', bufs') \<leftarrow> coalesceTCPPackets en can pkt pktI gsoS seq psh item bufs offset v6;
       case result of
         CoalesceSuccess \<Rightarrow> do {
           table' \<leftarrow> tcp_updateAt table item' (int k);
           Some (Some GroCoalesced, bufs', table')
         }
       | CoalesceItemInvalidCSum \<Rightarrow> do {
           table' \<leftarrow> tcp_deleteAt table (key item') (int k);
           tcp_items_loop en pkt pktI offset iphL tcphL seq psh gsoS v6 items k bufs' table'
         }
       | CoalescePktInvalidCSum \<Rightarrow> Some (Some GroNoop, bufs', table)
       | _ \<Rightarrow> tcp_items_loop en pkt pktI offset iphL tcphL seq psh gsoS v6 items k bufs' table
     }
   }"

text \<open>The candidate checks on the TCP header, and PSH.\<close>

definition tcp_flags_ok :: "byte \<Rightarrow> bool" where
  "tcp_flags_ok f \<longleftrightarrow> f = tcpFlagACK \<or> f = tcpFlagACK OR tcpFlagPSH"

definition tcpGRO ::
  "endian \<Rightarrow> gslice list \<Rightarrow> int \<Rightarrow> int \<Rightarrow> tcpGROTable \<Rightarrow> bool \<Rightarrow> (groResult \<times> gslice list \<times> tcpGROTable) option" where
  "tcpGRO en bufs offset pktI table v6 = do {
     buf \<leftarrow> elem bufs pktI;
     pkt \<leftarrow> sub_from buf offset;
     l \<leftarrow> gro_iph_len pkt v6;
     case l of
       None \<Rightarrow> Some (GroNoop, bufs, table)
     | Some iphL \<Rightarrow> do {
     b12 \<leftarrow> rd pkt (iphL + 12);
     let tcphL = uint ((drop_bit 4 b12) * 4);
     if tcphL < 20 \<or> tcphL > 60 then Some (GroNoop, bufs, table)
     else if int (slen pkt) < iphL + tcphL then Some (GroNoop, bufs, table)
     else do {
     frag \<leftarrow> (if v6 then Some False else is_fragment pkt);
     if frag then Some (GroNoop, bufs, table)
     else do {
     tcpFlags \<leftarrow> rd pkt (iphL + tcpFlagsOffset);
     if \<not> tcp_flags_ok tcpFlags then Some (GroNoop, bufs, table)
     else do {
     let psh = (tcpFlags \<noteq> tcpFlagACK);
     let gsoS = of_int (int (slen pkt) - tcphL - iphL);
     if gsoS < 1 then Some (GroNoop, bufs, table)
     else do {
     seq \<leftarrow> get32 pkt (iphL + 4);
     let srcAt = src_addr_offset v6;
     (items, existing, table) \<leftarrow> tcp_lookupOrInsert table pkt srcAt (srcAt + addr_len v6) iphL tcphL pktI;
     if \<not> existing then Some (GroTableInsert, bufs, table)
     else do {
     (r, bufs, table) \<leftarrow> tcp_items_loop en pkt pktI offset iphL tcphL seq psh gsoS v6 items (length items) bufs table;
     case r of
       Some res \<Rightarrow> Some (res, bufs, table)
     | None \<Rightarrow> do {
         table \<leftarrow> tcp_insert table pkt srcAt (srcAt + addr_len v6) iphL tcphL pktI;
         Some (GroTableInsert, bufs, table)
       }
     }}}}}}
   }"

subsection \<open>UDP\<close>

definition udpGRO ::
  "endian \<Rightarrow> gslice list \<Rightarrow> int \<Rightarrow> int \<Rightarrow> udpGROTable \<Rightarrow> bool \<Rightarrow> (groResult \<times> gslice list \<times> udpGROTable) option" where
  "udpGRO en bufs offset pktI table v6 = do {
     buf \<leftarrow> elem bufs pktI;
     pkt \<leftarrow> sub_from buf offset;
     l \<leftarrow> gro_iph_len pkt v6;
     case l of
       None \<Rightarrow> Some (GroNoop, bufs, table)
     | Some iphL \<Rightarrow>
     if int (slen pkt) < iphL + udphLen then Some (GroNoop, bufs, table)
     else do {
     frag \<leftarrow> (if v6 then Some False else is_fragment pkt);
     if frag then Some (GroNoop, bufs, table)
     else do {
     let gsoS = of_int (int (slen pkt) - udphLen - iphL);
     if gsoS < 1 then Some (GroNoop, bufs, table)
     else do {
     let srcAt = src_addr_offset v6;
     (items, existing, table) \<leftarrow> udp_lookupOrInsert table pkt srcAt (srcAt + addr_len v6) iphL pktI;
     if \<not> existing then Some (GroTableInsert, bufs, table)
     else do {
     item \<leftarrow> elem items (int (length items) - 1);
     can \<leftarrow> udpPacketsCanCoalesce pkt (of_int iphL) gsoS item bufs offset;
     (result, item, bufs) \<leftarrow> (if can = CoalesceAppend
        then do { (r, item, bufs) \<leftarrow> coalesceUDPPackets en pkt item bufs offset v6; Some (Some r, item, bufs) }
        else Some (None, item, bufs));
     if result = Some CoalesceSuccess then do {
       table \<leftarrow> udp_updateAt table item (int (length items) - 1);
       Some (GroCoalesced, bufs, table)
     } else do {
       table \<leftarrow> udp_insert table pkt srcAt (srcAt + addr_len v6) iphL pktI (result = Some CoalescePktInvalidCSum);
       Some (GroTableInsert, bufs, table)
     }}}}}
   }"

section \<open>Candidates\<close>

datatype groCandidateType = NotGROCandidate | Tcp4GROCandidate | Tcp6GROCandidate | Udp4GROCandidate | Udp6GROCandidate

definition packetIsGROCandidate :: "gslice \<Rightarrow> bool \<Rightarrow> groCandidateType option" where
  "packetIsGROCandidate b canUDPGRO =
     (if slen b < 28 then Some NotGROCandidate
      else do {
        b0 \<leftarrow> rd b 0;
        if drop_bit 4 b0 = 4 then
          (if b0 AND 0x0F \<noteq> 5 then Some NotGROCandidate
           else do {
             b9 \<leftarrow> rd b 9;
             if b9 = IPPROTO_TCP \<and> slen b \<ge> 40 then Some Tcp4GROCandidate
             else if b9 = IPPROTO_UDP \<and> canUDPGRO then Some Udp4GROCandidate
             else Some NotGROCandidate
           })
        else if drop_bit 4 b0 = 6 then do {
          b6 \<leftarrow> rd b 6;
          if b6 = IPPROTO_TCP \<and> slen b \<ge> 60 then Some Tcp6GROCandidate
          else if b6 = IPPROTO_UDP \<and> slen b \<ge> 48 \<and> canUDPGRO then Some Udp6GROCandidate
          else Some NotGROCandidate
        }
        else Some NotGROCandidate
      })"

section \<open>The headers of coalesced packets\<close>

text \<open>The length fields and the IPv4 header checksum of \<open>pkt\<close>.\<close>

definition account_ip :: "endian \<Rightarrow> bool \<Rightarrow> byte \<Rightarrow> gslice \<Rightarrow> gslice option" where
  "account_ip en v6 iphL pkt =
     (if v6 then put16 pkt 4 (of_nat (slen pkt) - ucast iphL)
      else do {
        pkt \<leftarrow> wr pkt 10 0;
        pkt \<leftarrow> wr pkt 11 0;
        pkt \<leftarrow> put16 pkt 2 (of_nat (slen pkt));
        h \<leftarrow> sub pkt 0 (uint iphL);
        put16 pkt 10 (NOT (checksum en (vis h) 0))
      })"

text \<open>\<^verbatim>\<open>hdr.encode(bufs[i][offset-virtioNetHdrLen:])\<close>: the virtio header in front of the packet.\<close>

definition encode_at :: "endian \<Rightarrow> virtioNetHdr \<Rightarrow> int \<Rightarrow> gslice \<Rightarrow> (go_error + gslice) option" where
  "encode_at en hdr offset buf = do {
     t \<leftarrow> sub_from buf (offset - virtioNetHdrLen);
     case encode en hdr t of
       Inl e \<Rightarrow> Some (Inl e)
     | Inr t \<Rightarrow> Some (Inr (put_back buf (offset - virtioNetHdrLen) t))
   }"

text \<open>The pseudo-header sum, placed at the checksum field of \<open>buf[offset:]\<close>.\<close>

definition account_psum :: "endian \<Rightarrow> bool \<Rightarrow> byte \<Rightarrow> byte \<Rightarrow> u16 \<Rightarrow> int \<Rightarrow> gslice \<Rightarrow> gslice option" where
  "account_psum en v6 proto iphL csumAt offset buf = do {
     let addrLen = addr_len v6;
     let srcAddrAt = offset + src_addr_offset v6;
     src \<leftarrow> sub buf srcAddrAt (srcAddrAt + addrLen);
     dst \<leftarrow> sub buf (srcAddrAt + addrLen) (srcAddrAt + addrLen * 2);
     pkt \<leftarrow> sub_from buf offset;
     let psum = pseudoHeaderChecksumNoFold en proto (vis src) (vis dst) (of_int (int (slen pkt) - uint iphL));
     pkt \<leftarrow> put16 pkt (uint csumAt) (checksum en [] psum);
     Some (put_back buf offset pkt)
   }"

definition tcp_gro_hdr :: "tcpGROItem \<Rightarrow> virtioNetHdr" where
  "tcp_gro_hdr item = \<lparr>flags = NEEDS_CSUM, gsoType = (if isV6 (key item) then GSO_TCPV6 else GSO_TCPV4),
     hdrLen = ucast (iphLen item + tcphLen item), gsoSize = itemGsoSize item,
     csumStart = ucast (iphLen item), csumOffset = 16\<rparr>"

definition udp_gro_hdr :: "udpGROItem \<Rightarrow> virtioNetHdr" where
  "udp_gro_hdr item = \<lparr>flags = NEEDS_CSUM, gsoType = GSO_UDP_L4,
     hdrLen = ucast (iphLen item + of_int udphLen), gsoSize = itemGsoSize item,
     csumStart = ucast (iphLen item), csumOffset = 6\<rparr>"

text \<open>One item: its buffer as the accounting leaves it, and the error of \<open>encode\<close> if there is one.\<close>

definition account_tcp_buf :: "endian \<Rightarrow> int \<Rightarrow> tcpGROItem \<Rightarrow> gslice \<Rightarrow> (gslice \<times> (go_error + unit)) option" where
  "account_tcp_buf en offset item buf =
     (if numMerged item > 0 then do {
        let hdr = tcp_gro_hdr item;
        pkt \<leftarrow> sub_from buf offset;
        pkt \<leftarrow> account_ip en (isV6 (key item)) (iphLen item) pkt;
        let buf = put_back buf offset pkt;
        r \<leftarrow> encode_at en hdr offset buf;
        case r of
          Inl e \<Rightarrow> Some (buf, Inl e)
        | Inr buf \<Rightarrow> do {
            buf \<leftarrow> account_psum en (isV6 (key item)) IPPROTO_TCP (iphLen item) (csumStart hdr + csumOffset hdr) offset buf;
            Some (buf, Inr ())
          }
      } else do {
        r \<leftarrow> encode_at en zero_hdr offset buf;
        case r of Inl e \<Rightarrow> Some (buf, Inl e) | Inr buf \<Rightarrow> Some (buf, Inr ())
      })"

definition account_udp_buf :: "endian \<Rightarrow> int \<Rightarrow> udpGROItem \<Rightarrow> gslice \<Rightarrow> (gslice \<times> (go_error + unit)) option" where
  "account_udp_buf en offset item buf =
     (if numMerged item > 0 then do {
        let hdr = udp_gro_hdr item;
        pkt \<leftarrow> sub_from buf offset;
        pkt \<leftarrow> account_ip en (isV6 (key item)) (iphLen item) pkt;
        let buf = put_back buf offset pkt;
        r \<leftarrow> encode_at en hdr offset buf;
        case r of
          Inl e \<Rightarrow> Some (buf, Inl e)
        | Inr buf \<Rightarrow> do {
            pkt \<leftarrow> sub_from buf offset;
            t \<leftarrow> sub_from pkt (uint (iphLen item));
            pkt \<leftarrow> put16 pkt (uint (iphLen item + 4)) (of_nat (slen t));
            buf \<leftarrow> account_psum en (isV6 (key item)) IPPROTO_UDP (iphLen item) (csumStart hdr + csumOffset hdr) offset
              (put_back buf offset pkt);
            Some (buf, Inr ())
          }
      } else do {
        r \<leftarrow> encode_at en zero_hdr offset buf;
        case r of Inl e \<Rightarrow> Some (buf, Inl e) | Inr buf \<Rightarrow> Some (buf, Inr ())
      })"

text \<open>The walk over the items of the table; an error stops it.\<close>

fun account_items ::
  "(int \<Rightarrow> 'i \<Rightarrow> gslice \<Rightarrow> (gslice \<times> (go_error + unit)) option) \<Rightarrow> ('i \<Rightarrow> u16) \<Rightarrow> int \<Rightarrow> 'i list \<Rightarrow> gslice list
    \<Rightarrow> (gslice list \<times> (go_error + unit)) option" where
  "account_items acc idx offset [] bufs = Some (bufs, Inr ())"
| "account_items acc idx offset (item # items) bufs = do {
     buf \<leftarrow> elem bufs (uint (idx item));
     (buf, r) \<leftarrow> acc offset item buf;
     bufs \<leftarrow> set_elem bufs (uint (idx item)) buf;
     case r of
       Inl e \<Rightarrow> Some (bufs, Inl e)
     | Inr _ \<Rightarrow> account_items acc idx offset items bufs
   }"

definition applyTCPCoalesceAccounting ::
  "endian \<Rightarrow> gslice list \<Rightarrow> int \<Rightarrow> tcpGROTable \<Rightarrow> (gslice list \<times> (go_error + unit)) option" where
  "applyTCPCoalesceAccounting en bufs offset table = account_items (account_tcp_buf en) bufsIndex offset (tbl_items table) bufs"

definition applyUDPCoalesceAccounting ::
  "endian \<Rightarrow> gslice list \<Rightarrow> int \<Rightarrow> udpGROTable \<Rightarrow> (gslice list \<times> (go_error + unit)) option" where
  "applyUDPCoalesceAccounting en bufs offset table = account_items (account_udp_buf en) bufsIndex offset (tbl_items table) bufs"

section \<open>A batch\<close>

text \<open>What the pass over a batch changes: buffers, both tables and \<^verbatim>\<open>toWrite\<close>.\<close>

record gro_state =
  gBufs :: "gslice list"
  gTcp :: tcpGROTable
  gUdp :: udpGROTable
  gToWrite :: "int list"

text \<open>The table the candidate belongs to evaluates it.\<close>

definition gro_eval :: "endian \<Rightarrow> int \<Rightarrow> int \<Rightarrow> groCandidateType \<Rightarrow> gro_state \<Rightarrow> (groResult \<times> gro_state) option" where
  "gro_eval en offset i cand st = (case cand of
         NotGROCandidate \<Rightarrow> Some (GroNoop, st)
       | Tcp4GROCandidate \<Rightarrow> do {
           (r, bufs, t) \<leftarrow> tcpGRO en (gBufs st) offset i (gTcp st) False; Some (r, st\<lparr>gBufs := bufs, gTcp := t\<rparr>) }
       | Tcp6GROCandidate \<Rightarrow> do {
           (r, bufs, t) \<leftarrow> tcpGRO en (gBufs st) offset i (gTcp st) True; Some (r, st\<lparr>gBufs := bufs, gTcp := t\<rparr>) }
       | Udp4GROCandidate \<Rightarrow> do {
           (r, bufs, t) \<leftarrow> udpGRO en (gBufs st) offset i (gUdp st) False; Some (r, st\<lparr>gBufs := bufs, gUdp := t\<rparr>) }
       | Udp6GROCandidate \<Rightarrow> do {
           (r, bufs, t) \<leftarrow> udpGRO en (gBufs st) offset i (gUdp st) True; Some (r, st\<lparr>gBufs := bufs, gUdp := t\<rparr>) })"

text \<open>One packet of the batch.\<close>

definition gro_step :: "endian \<Rightarrow> int \<Rightarrow> bool \<Rightarrow> int \<Rightarrow> gro_state \<Rightarrow> (gro_state \<times> (go_error + unit)) option" where
  "gro_step en offset canUDPGRO i st = do {
     buf \<leftarrow> elem (gBufs st) i;
     if offset < virtioNetHdrLen \<or> offset > int (slen buf) - 1 then Some (st, Inl ErrInvalidOffset)
     else do {
     pkt \<leftarrow> sub_from buf offset;
     cand \<leftarrow> packetIsGROCandidate pkt canUDPGRO;
     (result, st) \<leftarrow> gro_eval en offset i cand st;
     case result of
       GroNoop \<Rightarrow> do {
         buf \<leftarrow> elem (gBufs st) i;
         r \<leftarrow> encode_at en zero_hdr offset buf;
         case r of
           Inl e \<Rightarrow> Some (st, Inl e)
         | Inr buf \<Rightarrow> do {
             bufs \<leftarrow> set_elem (gBufs st) i buf;
             Some (st\<lparr>gBufs := bufs, gToWrite := gToWrite st @ [i]\<rparr>, Inr ())
           }
       }
     | GroTableInsert \<Rightarrow> Some (st\<lparr>gToWrite := gToWrite st @ [i]\<rparr>, Inr ())
     | GroCoalesced \<Rightarrow> Some (st, Inr ())
     }
   }"

fun gro_loop :: "endian \<Rightarrow> int \<Rightarrow> bool \<Rightarrow> nat \<Rightarrow> int \<Rightarrow> gro_state \<Rightarrow> (gro_state \<times> (go_error + unit)) option" where
  "gro_loop en offset canUDPGRO 0 i st = Some (st, Inr ())"
| "gro_loop en offset canUDPGRO (Suc k) i st = do {
     (st, r) \<leftarrow> gro_step en offset canUDPGRO i st;
     case r of
       Inl e \<Rightarrow> Some (st, Inl e)
     | Inr _ \<Rightarrow> gro_loop en offset canUDPGRO k (i + 1) st
   }"

text \<open>The error of the whole is the list of the errors \<^verbatim>\<open>errors.Join\<close> keeps; the empty list is nil.\<close>

definition handleGRO :: "endian \<Rightarrow> int \<Rightarrow> bool \<Rightarrow> gro_state \<Rightarrow> (gro_state \<times> go_error list) option" where
  "handleGRO en offset canUDPGRO st = do {
     (st, r) \<leftarrow> gro_loop en offset canUDPGRO (length (gBufs st)) 0 st;
     case r of
       Inl e \<Rightarrow> Some (st, [e])
     | Inr _ \<Rightarrow> do {
         (bufs, errTCP) \<leftarrow> applyTCPCoalesceAccounting en (gBufs st) offset (gTcp st);
         (bufs, errUDP) \<leftarrow> applyUDPCoalesceAccounting en bufs offset (gUdp st);
         Some (st\<lparr>gBufs := bufs\<rparr>, (case errTCP of Inl e \<Rightarrow> [e] | Inr _ \<Rightarrow> []) @ (case errUDP of Inl e \<Rightarrow> [e] | Inr _ \<Rightarrow> []))
       }
   }"

section \<open>Bounds of a packet under evaluation\<close>

definition ip_len :: "bool \<Rightarrow> nat" where
  "ip_len v6 = (if v6 then 40 else 20)"

lemma newTCPFlowKey_total:
  assumes "wf_slice pkt" "ip_len v6 + 20 \<le> slen pkt"
  shows "\<exists>k. newTCPFlowKey pkt (src_addr_offset v6) (src_addr_offset v6 + addr_len v6) (int (ip_len v6)) = Some k \<and> isV6 k = v6"
proof -
  have g: "get16 pkt (int (ip_len v6)) \<noteq> None" "get16 pkt (int (ip_len v6) + 2) \<noteq> None" "get32 pkt (int (ip_len v6) + 8) \<noteq> None"
    using assms by (auto simp: get16_def get32_def)
  have s: "sub pkt (src_addr_offset v6) (src_addr_offset v6 + addr_len v6) \<noteq> None"
    "sub pkt (src_addr_offset v6 + addr_len v6) (src_addr_offset v6 + addr_len v6 + addr_len v6) \<noteq> None"
    using assms by (auto simp: sub_def src_addr_offset_def addr_len_def tun_consts ip_len_def wf_slice_def split: if_splits)
  have a: "src_addr_offset v6 + addr_len v6 - src_addr_offset v6 = addr_len v6" by simp
  show ?thesis using g s by (auto simp: newTCPFlowKey_def a addr_len_def split: if_splits)
qed

lemma newUDPFlowKey_total:
  assumes "wf_slice pkt" "ip_len v6 + 8 \<le> slen pkt"
  shows "\<exists>k. newUDPFlowKey pkt (src_addr_offset v6) (src_addr_offset v6 + addr_len v6) (int (ip_len v6)) = Some k \<and> isV6 k = v6"
proof -
  have g: "get16 pkt (int (ip_len v6)) \<noteq> None" "get16 pkt (int (ip_len v6) + 2) \<noteq> None"
    using assms by (auto simp: get16_def)
  have s: "sub pkt (src_addr_offset v6) (src_addr_offset v6 + addr_len v6) \<noteq> None"
    "sub pkt (src_addr_offset v6 + addr_len v6) (src_addr_offset v6 + addr_len v6 + addr_len v6) \<noteq> None"
    using assms by (auto simp: sub_def src_addr_offset_def addr_len_def tun_consts ip_len_def wf_slice_def split: if_splits)
  have a: "src_addr_offset v6 + addr_len v6 - src_addr_offset v6 = addr_len v6" by simp
  show ?thesis using g s by (auto simp: newUDPFlowKey_def a addr_len_def split: if_splits)
qed

text \<open>The item \<open>insert\<close> builds.\<close>

definition new_tcp_item :: "tcpFlowKey \<Rightarrow> gslice \<Rightarrow> nat \<Rightarrow> nat \<Rightarrow> nat \<Rightarrow> tcpGROItem" where
  "new_tcp_item k pkt iphL tcphL i = \<lparr>key = k, bufsIndex = of_nat i, numMerged = 0,
     itemGsoSize = of_nat (slen pkt - (iphL + tcphL)), iphLen = of_nat iphL,
     sentSeq = of_nat (be_nat (take 4 (drop (iphL + 4) (vis pkt)))), tcphLen = of_nat tcphL,
     pshSet = (vis pkt ! (iphL + 13) AND tcpFlagPSH \<noteq> 0)\<rparr>"

definition new_udp_item :: "udpFlowKey \<Rightarrow> gslice \<Rightarrow> nat \<Rightarrow> nat \<Rightarrow> bool \<Rightarrow> udpGROItem" where
  "new_udp_item k pkt iphL i bad = \<lparr>key = k, bufsIndex = of_nat i, numMerged = 0,
     itemGsoSize = of_nat (slen pkt - (iphL + 8)), iphLen = of_nat iphL, cSumKnownInvalid = bad\<rparr>"

lemma tcp_insert_eq:
  assumes "wf_slice pkt" "iphL + tcphL \<le> slen pkt" "iphL + 20 \<le> slen pkt"
    and "newTCPFlowKey pkt a b (int iphL) = Some k"
  shows "tcp_insert t pkt a b (int iphL) (int tcphL) (int i) = tbl_append t k (new_tcp_item k pkt iphL tcphL i)"
  using assms rd_ok [of "iphL + 13" pkt] get32_ok [of "iphL + 4" pkt] sub_from_ok [of "iphL + tcphL" pkt]
  by (simp add: tcp_insert_def new_tcp_item_def tcpFlagsOffset_def)

lemma udp_insert_eq:
  assumes "wf_slice pkt" "iphL + 8 \<le> slen pkt" and "newUDPFlowKey pkt a b (int iphL) = Some k"
  shows "udp_insert t pkt a b (int iphL) (int i) bad = tbl_append t k (new_udp_item k pkt iphL i bad)"
  using assms sub_from_ok [of "iphL + 8" pkt]
  by (simp add: udp_insert_def new_udp_item_def udphLen_def)

lemma new_tcp_item_ok:
  assumes "i < length bufs" "i < 65536" "sub_from (bufs ! i) (int off) = Some pkt" "isV6 k = v6"
    and "20 \<le> tcphL" "tcphL \<le> 60" "ip_len v6 + tcphL < slen pkt" "slen pkt \<le> 65535"
  shows "tcp_item_ok off bufs (new_tcp_item k pkt (ip_len v6) tcphL i)"
    and "unat (bufsIndex (new_tcp_item k pkt (ip_len v6) tcphL i)) = i"
proof -
  have u: "unat (of_nat i :: u16) = i" "unat (of_nat (ip_len v6) :: byte) = ip_len v6" "unat (of_nat tcphL :: byte) = tcphL"
    using assms(2,6) by (auto simp: unat_of_nat take_bit_nat_eq_self ip_len_def)
  show "unat (bufsIndex (new_tcp_item k pkt (ip_len v6) tcphL i)) = i" by (simp add: new_tcp_item_def u)
  have "unat (of_nat (slen pkt - (ip_len v6 + tcphL)) :: u16) = slen pkt - (ip_len v6 + tcphL)"
    using assms(8) by (simp add: unat_of_nat take_bit_nat_eq_self)
  then have "(of_nat (slen pkt - (ip_len v6 + tcphL)) :: u16) \<noteq> 0" using assms(7) by (metis unat_0 zero_less_diff less_irrefl)
  then show "tcp_item_ok off bufs (new_tcp_item k pkt (ip_len v6) tcphL i)"
    using assms u sub_from_eq [OF assms(3)] by (auto simp: tcp_item_ok_def new_tcp_item_def ip_len_def)
qed

lemma new_udp_item_ok:
  assumes "i < length bufs" "i < 65536" "sub_from (bufs ! i) (int off) = Some pkt" "isV6 k = v6"
    and "ip_len v6 + 8 < slen pkt" "slen pkt \<le> 65535"
  shows "udp_item_ok off bufs (new_udp_item k pkt (ip_len v6) i bad)"
    and "unat (bufsIndex (new_udp_item k pkt (ip_len v6) i bad)) = i"
proof -
  have u: "unat (of_nat i :: u16) = i" "unat (of_nat (ip_len v6) :: byte) = ip_len v6"
    using assms(2) by (auto simp: unat_of_nat take_bit_nat_eq_self ip_len_def)
  show "unat (bufsIndex (new_udp_item k pkt (ip_len v6) i bad)) = i" by (simp add: new_udp_item_def u)
  have "unat (of_nat (slen pkt - (ip_len v6 + 8)) :: u16) = slen pkt - (ip_len v6 + 8)"
    using assms(6) by (simp add: unat_of_nat take_bit_nat_eq_self)
  then have "(of_nat (slen pkt - (ip_len v6 + 8)) :: u16) \<noteq> 0" using assms(5) by (metis unat_0 zero_less_diff less_irrefl)
  then show "udp_item_ok off bufs (new_udp_item k pkt (ip_len v6) i bad)"
    using assms u sub_from_eq [OF assms(3)] by (auto simp: udp_item_ok_def new_udp_item_def ip_len_def)
qed

end
