(* ===== verification/Gro_Invariant.thy ===== *)
theory Gro_Invariant
  imports Gro_Engine
begin

text \<open>
  What the evaluation of a packet keeps (\<^verbatim>\<open>offload_linux.go\<close>): the exact outcomes of \<open>tcpGRO\<close> and \<open>udpGRO\<close>,
  none of which panics on a candidate packet, and the invariant of a batch: every item of a table stands under
  its own key, owns one buffer that holds its headers, and no two items own the same buffer.
\<close>

section \<open>Invalid checksums\<close>

lemma check_csums_item: "check_csums en pkt itemPkt iphL proto v6 merged known = Some (Some CoalesceItemInvalidCSum) \<Longrightarrow> merged = 0"
  unfolding check_csums_def by (elim run_elims) (auto split: if_splits)

lemma coalesceTCP_item_invalid:
  "coalesceTCPPackets en mode pkt pktI gsoS seq psh item bufs off v6 = Some (CoalesceItemInvalidCSum, item', bufs')
     \<Longrightarrow> numMerged item = 0"
  unfolding coalesceTCPPackets_def coalesce_tcp_prepend_def coalesce_tcp_append_def Let_def
  by (elim run_elims) (auto dest: check_csums_item elim!: run_elims split: if_splits)

section \<open>The loop over the items of a flow\<close>

text \<open>What an item of the TCP table keeps while packet \<open>i\<close> is evaluated.\<close>

definition tcp_kept :: "nat \<Rightarrow> nat \<Rightarrow> gslice list \<Rightarrow> tcpGROItem \<Rightarrow> bool" where
  "tcp_kept off i bufs x \<longleftrightarrow> tcp_item_ok off bufs x \<and> unat (bufsIndex x) < i"

definition udp_kept :: "nat \<Rightarrow> nat \<Rightarrow> gslice list \<Rightarrow> udpGROItem \<Rightarrow> bool" where
  "udp_kept off i bufs x \<longleftrightarrow> udp_item_ok off bufs x \<and> unat (bufsIndex x) < i"

text \<open>The outcome of the loop over flow \<open>k\<close>: some items with an invalid checksum and nothing merged into
  them (\<open>R\<close>) left the table, and the packet was dropped, kept for insertion, or absorbed by an item.\<close>

definition loop_outcome ::
  "endian \<Rightarrow> gslice \<Rightarrow> nat \<Rightarrow> nat \<Rightarrow> nat \<Rightarrow> nat \<Rightarrow> u32 \<Rightarrow> bool \<Rightarrow> u16 \<Rightarrow> bool \<Rightarrow> nat \<Rightarrow> tcpFlowKey \<Rightarrow> gslice list \<Rightarrow> tcpGROTable
    \<Rightarrow> groResult option \<times> gslice list \<times> tcpGROTable \<Rightarrow> bool" where
  "loop_outcome en pkt i off iphL tcphL seq psh gsoS v6 m k bufs t res \<longleftrightarrow> (case res of (r, bufs', t') \<Rightarrow>
     \<exists>R its1 t1. tbl_inv key (tcp_kept off i bufs) m t1 \<and> tbl_lookup t1 = (tbl_lookup t)(k \<mapsto> its1) \<and>
       mset (tbl_items t) = mset (tbl_items t1) + R \<and> (\<forall>x\<in>#R. numMerged x = 0) \<and>
       (case r of
          None \<Rightarrow> bufs' = bufs \<and> t' = t1
        | Some GroNoop \<Rightarrow> bufs' = bufs \<and> t' = t1
        | Some GroCoalesced \<Rightarrow> \<exists>j item' mode. j < length its1 \<and> mode \<noteq> CoalesceUnavailable \<and>
            tcpPacketsCanCoalesce pkt (of_nat iphL) (of_nat tcphL) seq psh gsoS (its1 ! j) bufs (int off) = Some mode \<and>
            coalesceTCPPackets en mode pkt (int i) gsoS seq psh (its1 ! j) bufs (int off) v6 = Some (CoalesceSuccess, item', bufs') \<and>
            tcp_updateAt t1 item' (int j) = Some t'
        | Some GroTableInsert \<Rightarrow> False))"

lemma loop_outcome_add:
  assumes "mset (tbl_items t) = mset (tbl_items t2) + {#x#}" and "tbl_lookup t2 = (tbl_lookup t)(k \<mapsto> is)"
    and "numMerged x = 0" and "loop_outcome en pkt i off iphL tcphL seq psh gsoS v6 m k bufs t2 res"
  shows "loop_outcome en pkt i off iphL tcphL seq psh gsoS v6 m k bufs t res"
proof -
  obtain r bufs' t' where res: "res = (r, bufs', t')" by (cases res)
  show ?thesis
    using assms(4) unfolding loop_outcome_def res prod.case
  proof (elim exE, goal_cases)
    case (1 R its1 t1)
    then show ?case
      using assms(1-3) by (intro exI [of _ "R + {#x#}"] exI [of _ its1] exI [of _ t1]) auto
  qed
qed

lemma loop_outcome_coalesced:
  assumes "tbl_inv key (tcp_kept off i bufs) m t" and "tbl_lookup t = (tbl_lookup t)(k \<mapsto> its)" and "j < length its"
    and "mode \<noteq> CoalesceUnavailable"
    and "tcpPacketsCanCoalesce pkt (of_nat iphL) (of_nat tcphL) seq psh gsoS (its ! j) bufs (int off) = Some mode"
    and "coalesceTCPPackets en mode pkt (int i) gsoS seq psh (its ! j) bufs (int off) v6 = Some (CoalesceSuccess, item', bufs')"
    and "tcp_updateAt t item' (int j) = Some t'"
  shows "loop_outcome en pkt i off iphL tcphL seq psh gsoS v6 m k bufs t (Some GroCoalesced, bufs', t')"
  unfolding loop_outcome_def prod.case option.case groResult.case
  by (rule exI [of _ "{#}"], rule exI [of _ its], rule exI [of _ t]) (use assms in auto)

lemma loop_outcome_same:
  assumes "tbl_inv key (tcp_kept off i bufs) m t" and "tbl_lookup t = (tbl_lookup t)(k \<mapsto> its)" and "r \<in> {None, Some GroNoop}"
  shows "loop_outcome en pkt i off iphL tcphL seq psh gsoS v6 m k bufs t (r, bufs, t)"
  unfolding loop_outcome_def prod.case
  by (rule exI [of _ "{#}"], rule exI [of _ its], rule exI [of _ t]) (use assms in auto)

lemma tcp_items_loop_returns:
  assumes wf: "\<forall>b\<in>set bufs. wf_slice b" and i: "i < length bufs" "sub_from (bufs ! i) (int off) = Some pkt"
    and len: "ip_len v6 + tcphL \<le> slen pkt" "tcphL \<le> 60" and k: "isV6 k = v6"
    and inv: "tbl_inv key (tcp_kept off i bufs) m t" and lk: "tbl_lookup t k = Some its" "n \<le> length its" "take n its = take n items"
  shows "returns (tcp_items_loop en pkt (int i) (int off) (int (ip_len v6)) (int tcphL) seq psh gsoS v6 items n bufs t)
    (loop_outcome en pkt i off (ip_len v6) tcphL seq psh gsoS v6 m k bufs t)"
  using inv lk
proof (induction n arbitrary: t its)
  case 0
  then have "tbl_lookup t = (tbl_lookup t)(k \<mapsto> its)" by (auto simp: fun_eq_iff)
  with 0 show ?case by (auto simp: returns_def loop_outcome_def)
next
  case (Suc n)
  define item where "item = items ! n"
  have n: "n < length its" using Suc.prems(3) by simp
  have item: "item = its ! n" using Suc.prems(4) unfolding item_def by (metis lessI nth_take)
  have take_n: "take n its = take n items" using Suc.prems(4) by (metis take_take min.absorb1 le_SucI le_refl)
  have kept: "key item = k" "tcp_kept off i bufs item"
    using Suc.prems(1,2) n unfolding item by (auto simp: tbl_inv_def)
  have it: "tcp_item_ok off bufs item" and ne: "i \<noteq> unat (bufsIndex item)" using kept(2) by (auto simp: tcp_kept_def)
  have wp: "wf_slice pkt" using wf_sub_from [OF i(2)] wf i(1) by simp
  have ip: "unat (iphLen item) = ip_len v6" using it k kept(1) by (simp add: tcp_item_ok_def ip_len_def)
  have w: "(of_nat (ip_len v6) :: byte) = iphLen item" "unat (of_nat tcphL :: byte) = tcphL"
    using ip len(2) by (auto simp: unat_of_nat take_bit_nat_eq_self simp flip: ip)
  define IHr where "IHr t = tcp_items_loop en pkt (int i) (int off) (int (ip_len v6)) (int tcphL) seq psh gsoS v6 items n bufs t" for t
  define out where "out = loop_outcome en pkt i off (ip_len v6) tcphL seq psh gsoS v6 m k bufs"
  have same: "returns (IHr t) (out t)"
    using Suc.IH [OF Suc.prems(1,2) _ take_n] n by (simp add: IHr_def out_def)
  obtain can where can: "tcpPacketsCanCoalesce pkt (of_nat (ip_len v6)) (of_nat tcphL) seq psh gsoS item bufs (int off) = Some can"
    using tcpPacketsCanCoalesce_total [OF it wf wp w(1), of "of_nat tcphL" seq psh gsoS] len(1) w ip by auto
  have step: "tcp_items_loop en pkt (int i) (int off) (int (ip_len v6)) (int tcphL) seq psh gsoS v6 items (Suc n) bufs t
    = (if can = CoalesceUnavailable then IHr t else do {
       (result, item', bufs') \<leftarrow> coalesceTCPPackets en can pkt (int i) gsoS seq psh item bufs (int off) v6;
       case result of
         CoalesceSuccess \<Rightarrow> do { table' \<leftarrow> tcp_updateAt t item' (int n); Some (Some GroCoalesced, bufs', table') }
       | CoalesceItemInvalidCSum \<Rightarrow> do { table' \<leftarrow> tcp_deleteAt t (key item') (int n);
           tcp_items_loop en pkt (int i) (int off) (int (ip_len v6)) (int tcphL) seq psh gsoS v6 items n bufs' table' }
       | CoalescePktInvalidCSum \<Rightarrow> Some (Some GroNoop, bufs', t)
       | _ \<Rightarrow> tcp_items_loop en pkt (int i) (int off) (int (ip_len v6)) (int tcphL) seq psh gsoS v6 items n bufs' t })"
    unfolding tcp_items_loop.simps Let_def item_def [symmetric] IHr_def
    by (simp only: of_int_of_nat_eq can Option.bind.simps)
  have lk_same: "tbl_lookup t = (tbl_lookup t)(k \<mapsto> its)" using Suc.prems(2) by (auto simp: fun_eq_iff)
  show ?case
    unfolding out_def [symmetric]
  proof (cases "can = CoalesceUnavailable")
    case True
    then show "returns (tcp_items_loop en pkt (int i) (int off) (int (ip_len v6)) (int tcphL) seq psh gsoS v6 items (Suc n) bufs t) (out t)"
      using same step by simp
  next
    case False
    have H: "unat (iphLen item) + unat (tcphLen item) \<le> slen pkt"
      using can False len(1) ip w(2) unfolding tcpPacketsCanCoalesce_def by (elim run_elims) (auto split: if_splits)
    obtain r item' bufs' where co: "coalesceTCPPackets en can pkt (int i) gsoS seq psh item bufs (int off) v6 = Some (r, item', bufs')"
      and un: "r \<noteq> CoalesceSuccess \<Longrightarrow> item' = item \<and> bufs' = bufs" and ky: "key item' = k"
      using coalesceTCPPackets_returns [OF it wf i(1) ne i(2) _ refl H, of v6 en can gsoS seq psh] kept(1) k
      by (fastforce simp: returns_iff Let_def merged_item_def split: if_splits)
    show "returns (tcp_items_loop en pkt (int i) (int off) (int (ip_len v6)) (int tcphL) seq psh gsoS v6 items (Suc n) bufs t) (out t)"
    proof (cases r)
      case CoalesceSuccess
      obtain t2 where "tcp_updateAt t item' (int n) = Some t2"
        using gro_tbl.update_at [of t k its n item'] Suc.prems(1,2) n by (auto simp: tcp_updateAt_def ky tbl_inv_def)
      then show ?thesis
        unfolding step out_def using False co CoalesceSuccess
          loop_outcome_coalesced [OF Suc.prems(1) lk_same n False can [unfolded item] co [unfolded item CoalesceSuccess]]
        by (simp add: returns_def)
    next
      case CoalesceItemInvalidCSum
      then have b: "item' = item" "bufs' = bufs" and m0: "numMerged item = 0"
        using un co coalesceTCP_item_invalid by auto
      obtain t2 where t2: "tbl_deleteAt t k (int n) = Some t2" "tbl_inv key (tcp_kept off i bufs) m t2"
        "mset (tbl_items t2) = mset (tbl_items t) - {#its ! n#}" "tbl_lookup t2 = (tbl_lookup t)(k \<mapsto> take n its @ drop (Suc n) its)"
        using tbl_inv_delete [OF Suc.prems(1,2) n] by blast
      have "its ! n \<in># mset (tbl_items t)" using set_mset_mono [OF tbl_lookup_items [OF Suc.prems(2)]] n by auto
      then have m2: "mset (tbl_items t) = mset (tbl_items t2) + {#its ! n#}" by (simp add: t2(3))
      have lk2: "tbl_lookup t2 k = Some (take n its @ drop (Suc n) its)" and le2: "n \<le> length (take n its @ drop (Suc n) its)"
        using t2(4) n by simp_all
      have tk2: "take n (take n its @ drop (Suc n) its) = take n items" using n by (subst take_n [symmetric]) simp
      have "returns (IHr t2) (out t2)"
        unfolding IHr_def out_def by (rule Suc.IH [OF t2(2) lk2 le2 tk2])
      then have "returns (IHr t2) (out t)"
        by (rule returns_mono) (use loop_outcome_add [OF m2 t2(4)] m0 in \<open>simp add: item out_def\<close>)
      then show ?thesis
        unfolding step using False co CoalesceItemInvalidCSum t2(1) by (simp add: b tcp_deleteAt_def kept(1) IHr_def)
    next
      case CoalescePktInvalidCSum
      then show ?thesis
        unfolding step out_def using False co un loop_outcome_same [OF Suc.prems(1) lk_same, of "Some GroNoop"]
        by (simp add: returns_def)
    qed (use step False co un same in \<open>simp_all add: IHr_def\<close>)
  qed
qed

section \<open>The outcomes of tcpGRO\<close>

definition pkt_len_ok :: "gslice \<Rightarrow> bool \<Rightarrow> bool" where
  "pkt_len_ok pkt v6 \<longleftrightarrow> slen pkt \<le> 65535 \<and>
     (if v6 then be_nat (take 2 (drop 4 (vis pkt))) + 40 = slen pkt else be_nat (take 2 (drop 2 (vis pkt))) = slen pkt)"

lemma gro_iph_len_returns:
  assumes "wf_slice pkt" and "ip_len v6 \<le> slen pkt" and "\<not> v6 \<Longrightarrow> vis pkt ! 0 AND 0x0F = 5"
  shows "gro_iph_len pkt v6 = Some (if pkt_len_ok pkt v6 then Some (int (ip_len v6)) else None)"
proof -
  have r: "rd pkt 0 = Some (vis pkt ! 0)" using rd_ok [of 0 pkt] assms by (simp add: ip_len_def split: if_splits)
  have g: "get16 pkt 4 = Some (of_nat (be_nat (take 2 (drop 4 (vis pkt)))))" "get16 pkt 2 = Some (of_nat (be_nat (take 2 (drop 2 (vis pkt)))))"
    using get16_ok [of 4 pkt] get16_ok [of 2 pkt] assms(1,2) by (simp_all add: ip_len_def split: if_splits)
  have b: "be_nat (take 2 (drop k (vis pkt))) < 65536" for k
  proof -
    have "length (take 2 (drop k (vis pkt))) \<le> 2" by simp
    then have "256 ^ length (take 2 (drop k (vis pkt))) \<le> (256 :: nat) ^ 2" by (rule power_increasing) simp
    with be_nat_bound [of "take 2 (drop k (vis pkt))"] show ?thesis by (simp del: length_take)
  qed
  have u: "uint (of_nat (be_nat (take 2 (drop k (vis pkt)))) :: u16) = int (be_nat (take 2 (drop k (vis pkt))))" for k
    using b [of k] by (simp add: uint_nat unat_of_nat take_bit_nat_eq_self)
  have v: "uint (of_nat (slen pkt) :: u16) = int (slen pkt)" if "slen pkt \<le> 65535"
    using that by (simp add: uint_nat unat_of_nat take_bit_nat_eq_self)
  show ?thesis
    using assms v by (auto simp: gro_iph_len_def r g u pkt_len_ok_def ip_len_def maxUint16_def)
qed

text \<open>Items whose checksum turned out to be wrong may have left the table.\<close>

definition tcp_dropped :: "nat \<Rightarrow> nat \<Rightarrow> gslice list \<Rightarrow> nat \<Rightarrow> tcpGROTable \<Rightarrow> tcpGROTable \<Rightarrow> bool" where
  "tcp_dropped off i bufs m t t1 \<longleftrightarrow> tbl_inv key (tcp_kept off i bufs) m t1 \<and>
     (\<exists>R. mset (tbl_items t) = mset (tbl_items t1) + R \<and> (\<forall>x\<in>#R. numMerged x = 0))"

lemma tcp_dropped_refl: "tbl_inv key (tcp_kept off i bufs) m t \<Longrightarrow> tcp_dropped off i bufs m t t"
  by (simp add: tcp_dropped_def)

text \<open>The flow key, header length and flags that the packet itself carries.\<close>

definition tcp_own :: "gslice \<Rightarrow> bool \<Rightarrow> tcpFlowKey \<Rightarrow> nat \<Rightarrow> bool" where
  "tcp_own pkt v6 k T \<longleftrightarrow>
     newTCPFlowKey pkt (src_addr_offset v6) (src_addr_offset v6 + addr_len v6) (int (ip_len v6)) = Some k \<and>
     tcp_flags_ok (vis pkt ! (ip_len v6 + 13)) \<and> T = unat (drop_bit 4 (vis pkt ! (ip_len v6 + 12)) * 4)"

definition udp_own :: "gslice \<Rightarrow> bool \<Rightarrow> udpFlowKey \<Rightarrow> bool" where
  "udp_own pkt v6 k \<longleftrightarrow>
     newUDPFlowKey pkt (src_addr_offset v6) (src_addr_offset v6 + addr_len v6) (int (ip_len v6)) = Some k"

text \<open>The three results of \<open>tcpGRO\<close>.\<close>

definition tcp_outcome ::
  "endian \<Rightarrow> gslice \<Rightarrow> nat \<Rightarrow> nat \<Rightarrow> bool \<Rightarrow> nat \<Rightarrow> gslice list \<Rightarrow> tcpGROTable \<Rightarrow> groResult \<times> gslice list \<times> tcpGROTable \<Rightarrow> bool" where
  "tcp_outcome en pkt i off v6 m bufs t res \<longleftrightarrow> (case res of (r, bufs', t') \<Rightarrow> (case r of
       GroNoop \<Rightarrow> bufs' = bufs \<and> tcp_dropped off i bufs m t t'
     | GroTableInsert \<Rightarrow> bufs' = bufs \<and> (\<exists>t1 k tcphL. tcp_dropped off i bufs m t t1 \<and> isV6 k = v6 \<and> pkt_len_ok pkt v6 \<and>
         20 \<le> tcphL \<and> tcphL \<le> 60 \<and> ip_len v6 + tcphL < slen pkt \<and> tcp_own pkt v6 k tcphL \<and>
         tbl_append t1 k (new_tcp_item k pkt (ip_len v6) tcphL i) = Some t')
     | GroCoalesced \<Rightarrow> (\<exists>k tcphL. isV6 k = v6 \<and> pkt_len_ok pkt v6 \<and>
         20 \<le> tcphL \<and> tcphL \<le> 60 \<and> ip_len v6 + tcphL < slen pkt \<and> tcp_own pkt v6 k tcphL \<and>
         loop_outcome en pkt i off (ip_len v6) tcphL (of_nat (be_nat (take 4 (drop (ip_len v6 + 4) (vis pkt)))))
           (vis pkt ! (ip_len v6 + 13) \<noteq> tcpFlagACK) (of_nat (slen pkt - (ip_len v6 + tcphL))) v6 m k bufs t
           (Some GroCoalesced, bufs', t'))))"

lemma is_fragment_total: "8 \<le> slen pkt \<Longrightarrow> is_fragment pkt \<noteq> None"
  unfolding is_fragment_def by (intro no_panic) (auto simp: rd_def)

lemma of_nat_ne_0: "(of_nat n :: 'a::len word) \<noteq> 0 \<Longrightarrow> 0 < n"
  by (cases n) simp_all

lemma tcp_evaluate_returns:
  assumes wf: "\<forall>b\<in>set bufs. wf_slice b" and i: "i < length bufs" "i < 128" "sub_from (bufs ! i) (int off) = Some pkt"
    and len: "pkt_len_ok pkt v6" "20 \<le> T" "T \<le> 60" "ip_len v6 + T < slen pkt"
    and fields: "tcp_flags_ok (vis pkt ! (ip_len v6 + 13))" "T = unat (drop_bit 4 (vis pkt ! (ip_len v6 + 12)) * 4)"
    and inv: "tbl_inv key (tcp_kept off i bufs) m t" "m < 128"
  shows "returns (do {
     (items, existing, table) \<leftarrow> tcp_lookupOrInsert t pkt (src_addr_offset v6) (src_addr_offset v6 + addr_len v6) (int (ip_len v6)) (int T) (int i);
     if \<not> existing then Some (GroTableInsert, bufs, table)
     else do {
     (r, bufs, table) \<leftarrow> tcp_items_loop en pkt (int i) (int off) (int (ip_len v6)) (int T)
        (of_nat (be_nat (take 4 (drop (ip_len v6 + 4) (vis pkt))))) (vis pkt ! (ip_len v6 + 13) \<noteq> tcpFlagACK)
        (of_nat (slen pkt - (ip_len v6 + T))) v6 items (length items) bufs table;
     case r of
       Some res \<Rightarrow> Some (res, bufs, table)
     | None \<Rightarrow> do {
         table \<leftarrow> tcp_insert table pkt (src_addr_offset v6) (src_addr_offset v6 + addr_len v6) (int (ip_len v6)) (int T) (int i);
         Some (GroTableInsert, bufs, table)
       }
     }}) (tcp_outcome en pkt i off v6 m bufs t)"
proof -
  have wp: "wf_slice pkt" using wf_sub_from [OF i(3)] wf i(1) by simp
  obtain k where k: "newTCPFlowKey pkt (src_addr_offset v6) (src_addr_offset v6 + addr_len v6) (int (ip_len v6)) = Some k" "isV6 k = v6"
    using newTCPFlowKey_total [OF wp, of v6] len by auto
  have own: "tcp_own pkt v6 k T" using k(1) fields by (simp add: tcp_own_def)
  have ins: "tcp_insert t' pkt (src_addr_offset v6) (src_addr_offset v6 + addr_len v6) (int (ip_len v6)) (int T) (int i)
      = tbl_append t' k (new_tcp_item k pkt (ip_len v6) T i)" for t'
    by (rule tcp_insert_eq [OF wp _ _ k(1)]) (use len in auto)
  have app: "\<exists>t''. tbl_append t' k (new_tcp_item k pkt (ip_len v6) T i) = Some t''" if "tcp_dropped off i bufs m t t'" for t'
    using gro_tbl.append_total [of t' k] that inv(2)
    by (fastforce simp: tcp_dropped_def tbl_inv_def gro_tbl.slots_def)
  have new: "tcp_outcome en pkt i off v6 m bufs t (GroTableInsert, bufs, t'')"
    if "tcp_dropped off i bufs m t t'" "tbl_append t' k (new_tcp_item k pkt (ip_len v6) T i) = Some t''" for t' t''
    using that k(2) len own by (auto simp: tcp_outcome_def)
  show ?thesis
  proof (cases "tbl_lookup t k")
    case None
    then show ?thesis
      using app [OF tcp_dropped_refl [OF inv(1)]] new [OF tcp_dropped_refl [OF inv(1)]]
      by (auto simp: tcp_lookupOrInsert_def k(1) ins returns_def)
  next
    case (Some its)
    have lp: "returns (tcp_items_loop en pkt (int i) (int off) (int (ip_len v6)) (int T)
        (of_nat (be_nat (take 4 (drop (ip_len v6 + 4) (vis pkt))))) (vis pkt ! (ip_len v6 + 13) \<noteq> tcpFlagACK)
        (of_nat (slen pkt - (ip_len v6 + T))) v6 its (length its) bufs t)
      (loop_outcome en pkt i off (ip_len v6) T (of_nat (be_nat (take 4 (drop (ip_len v6 + 4) (vis pkt)))))
        (vis pkt ! (ip_len v6 + 13) \<noteq> tcpFlagACK) (of_nat (slen pkt - (ip_len v6 + T))) v6 m k bufs t)"
      by (rule tcp_items_loop_returns [OF wf i(1,3) _ len(3) k(2) inv(1) Some]) (use len in auto)
    then obtain r bufs' t' where run: "tcp_items_loop en pkt (int i) (int off) (int (ip_len v6)) (int T)
        (of_nat (be_nat (take 4 (drop (ip_len v6 + 4) (vis pkt))))) (vis pkt ! (ip_len v6 + 13) \<noteq> tcpFlagACK)
        (of_nat (slen pkt - (ip_len v6 + T))) v6 its (length its) bufs t = Some (r, bufs', t')"
      and out: "loop_outcome en pkt i off (ip_len v6) T (of_nat (be_nat (take 4 (drop (ip_len v6 + 4) (vis pkt)))))
        (vis pkt ! (ip_len v6 + 13) \<noteq> tcpFlagACK) (of_nat (slen pkt - (ip_len v6 + T))) v6 m k bufs t (r, bufs', t')"
      by (auto simp: returns_iff)
    have dr: "bufs' = bufs \<and> tcp_dropped off i bufs m t t'" if "r \<in> {None, Some GroNoop}"
      using out that by (auto simp: loop_outcome_def tcp_dropped_def)
    have "r \<noteq> Some GroTableInsert" using out by (auto simp: loop_outcome_def)
    then consider "r = None" | "r = Some GroNoop" | "r = Some GroCoalesced" by (cases r; cases "the r") auto
    then show ?thesis
    proof cases
      case 1
      then show ?thesis using dr app [of t'] new [of t'] run Some by (auto simp: tcp_lookupOrInsert_def k(1) ins returns_def)
    next
      case 2
      then show ?thesis using dr run Some by (auto simp: tcp_lookupOrInsert_def k(1) returns_def tcp_outcome_def)
    next
      case 3
      then have "tcp_outcome en pkt i off v6 m bufs t (GroCoalesced, bufs', t')"
        unfolding tcp_outcome_def prod.case groResult.case
        by (intro exI [of _ k] exI [of _ T] conjI k(2) len own) (rule out [unfolded 3])
      then show ?thesis using run [unfolded 3] Some by (auto simp: tcp_lookupOrInsert_def k(1) returns_def)
    qed
  qed
qed

lemma tcpGRO_returns:
  assumes wf: "\<forall>b\<in>set bufs. wf_slice b" and i: "i < length bufs" "i < 128" "sub_from (bufs ! i) (int off) = Some pkt"
    and cand: "ip_len v6 + 20 \<le> slen pkt" "\<not> v6 \<Longrightarrow> vis pkt ! 0 AND 0x0F = 5"
    and inv: "tbl_inv key (tcp_kept off i bufs) m t" "m < 128"
  shows "returns (tcpGRO en bufs (int off) (int i) t v6) (tcp_outcome en pkt i off v6 m bufs t)"
proof -
  have wp: "wf_slice pkt" using wf_sub_from [OF i(3)] wf i(1) by simp
  have b: "elem bufs (int i) = Some (bufs ! i)" using i(1) by (rule elem_ok)
  have l: "gro_iph_len pkt v6 = Some (if pkt_len_ok pkt v6 then Some (int (ip_len v6)) else None)"
    using gro_iph_len_returns [OF wp _ cand(2)] cand(1) by simp
  have noop: "returns (Some (GroNoop, bufs, t)) (tcp_outcome en pkt i off v6 m bufs t)"
    by (simp add: returns_def tcp_outcome_def tcp_dropped_refl [OF inv(1)])
  show ?thesis
  proof (cases "pkt_len_ok pkt v6")
    case False
    then show ?thesis unfolding tcpGRO_def b i(3) l Option.bind.simps using noop by simp
  next
    case ok: True
    define T where "T = unat (drop_bit 4 (vis pkt ! (ip_len v6 + 12)) * 4)"
    have r12: "rd pkt (int (ip_len v6) + 12) = Some (vis pkt ! (ip_len v6 + 12))"
      and r13: "rd pkt (int (ip_len v6) + tcpFlagsOffset) = Some (vis pkt ! (ip_len v6 + 13))"
      using rd_ok [of "ip_len v6 + 12" pkt] rd_ok [of "ip_len v6 + 13" pkt] wp cand(1) by (simp_all add: tcpFlagsOffset_def)
    have seq: "get32 pkt (int (ip_len v6) + 4) = Some (of_nat (be_nat (take 4 (drop (ip_len v6 + 4) (vis pkt)))))"
      using get32_ok [of "ip_len v6 + 4" pkt] wp cand(1) by simp
    have T: "uint (drop_bit 4 (vis pkt ! (ip_len v6 + 12)) * 4) = int T" by (simp add: T_def)
    obtain fr where frag: "(if v6 then Some False else is_fragment pkt) = Some fr"
      using is_fragment_total [of pkt] cand(1) by (cases v6; cases "is_fragment pkt") auto
    have g: "(of_int (int (slen pkt) - int T - int (ip_len v6)) :: u16) = of_nat (slen pkt - (ip_len v6 + T))"
      if "ip_len v6 + T \<le> slen pkt"
    proof -
      have "int (slen pkt) - int T - int (ip_len v6) = int (slen pkt - (ip_len v6 + T))" using that by linarith
      then show ?thesis by (simp only: of_int_of_nat_eq)
    qed
    show ?thesis
      unfolding tcpGRO_def b i(3) l if_P [OF ok] r12 r13 seq T frag Option.bind.simps option.case Let_def
    proof (intro returns_if noop, goal_cases)
      case 1
      then have le: "ip_len v6 + T \<le> slen pkt" "20 \<le> T" "T \<le> 60" by auto
      have "(of_nat (slen pkt - (ip_len v6 + T)) :: u16) \<noteq> 0" using 1(5) unfolding g [OF le(1)] word_less_1 .
      then have "0 < slen pkt - (ip_len v6 + T)" by (rule of_nat_ne_0)
      then have "ip_len v6 + T < slen pkt" using le(1) by linarith
      moreover have "tcp_flags_ok (vis pkt ! (ip_len v6 + 13))" using 1(4) by simp
      ultimately show ?case unfolding g [OF le(1)] by (rule tcp_evaluate_returns [OF wf i ok le(2,3) _ _ T_def inv])
    qed
  qed
qed

section \<open>The outcomes of udpGRO\<close>

definition udp_outcome ::
  "endian \<Rightarrow> gslice \<Rightarrow> nat \<Rightarrow> nat \<Rightarrow> bool \<Rightarrow> gslice list \<Rightarrow> udpGROTable \<Rightarrow> groResult \<times> gslice list \<times> udpGROTable \<Rightarrow> bool" where
  "udp_outcome en pkt i off v6 bufs t res \<longleftrightarrow> (case res of (r, bufs', t') \<Rightarrow> (case r of
       GroNoop \<Rightarrow> bufs' = bufs \<and> t' = t
     | GroTableInsert \<Rightarrow> bufs' = bufs \<and> (\<exists>k bad. isV6 k = v6 \<and> pkt_len_ok pkt v6 \<and> ip_len v6 + 8 < slen pkt \<and> udp_own pkt v6 k \<and>
         tbl_append t k (new_udp_item k pkt (ip_len v6) i bad) = Some t')
     | GroCoalesced \<Rightarrow> (\<exists>k its item'. isV6 k = v6 \<and> pkt_len_ok pkt v6 \<and> ip_len v6 + 8 < slen pkt \<and> udp_own pkt v6 k \<and>
         tbl_lookup t k = Some its \<and> its \<noteq> [] \<and>
         udpPacketsCanCoalesce pkt (of_nat (ip_len v6)) (of_nat (slen pkt - (ip_len v6 + 8))) (last its) bufs (int off)
           = Some CoalesceAppend \<and>
         coalesceUDPPackets en pkt (last its) bufs (int off) v6 = Some (CoalesceSuccess, item', bufs') \<and>
         tbl_updateAt t k item' (int (length its - 1)) = Some t')))"

lemma udp_evaluate_returns:
  assumes wf: "\<forall>b\<in>set bufs. wf_slice b" and i: "i < length bufs" "i < 128" "sub_from (bufs ! i) (int off) = Some pkt"
    and len: "pkt_len_ok pkt v6" "ip_len v6 + 8 < slen pkt"
    and inv: "tbl_inv key (udp_kept off i bufs) m t" "m < 128" and ne: "\<forall>k its. tbl_lookup t k = Some its \<longrightarrow> its \<noteq> []"
  shows "returns (do {
     (items, existing, table) \<leftarrow> udp_lookupOrInsert t pkt (src_addr_offset v6) (src_addr_offset v6 + addr_len v6) (int (ip_len v6)) (int i);
     if \<not> existing then Some (GroTableInsert, bufs, table)
     else do {
     item \<leftarrow> elem items (int (length items) - 1);
     can \<leftarrow> udpPacketsCanCoalesce pkt (of_int (int (ip_len v6))) (of_nat (slen pkt - (ip_len v6 + 8))) item bufs (int off);
     (result, item, bufs) \<leftarrow> (if can = CoalesceAppend
        then do { (r, item, bufs) \<leftarrow> coalesceUDPPackets en pkt item bufs (int off) v6; Some (Some r, item, bufs) }
        else Some (None, item, bufs));
     if result = Some CoalesceSuccess then do {
       table \<leftarrow> udp_updateAt table item (int (length items) - 1);
       Some (GroCoalesced, bufs, table)
     } else do {
       table \<leftarrow> udp_insert table pkt (src_addr_offset v6) (src_addr_offset v6 + addr_len v6) (int (ip_len v6)) (int i)
         (result = Some CoalescePktInvalidCSum);
       Some (GroTableInsert, bufs, table)
     }}}) (udp_outcome en pkt i off v6 bufs t)"
proof -
  have wp: "wf_slice pkt" using wf_sub_from [OF i(3)] wf i(1) by simp
  obtain k where k: "newUDPFlowKey pkt (src_addr_offset v6) (src_addr_offset v6 + addr_len v6) (int (ip_len v6)) = Some k" "isV6 k = v6"
    using newUDPFlowKey_total [OF wp, of v6] len by auto
  have own: "udp_own pkt v6 k" using k(1) by (simp add: udp_own_def)
  have ins: "udp_insert t' pkt (src_addr_offset v6) (src_addr_offset v6 + addr_len v6) (int (ip_len v6)) (int i) bad
      = tbl_append t' k (new_udp_item k pkt (ip_len v6) i bad)" for t' bad
    by (rule udp_insert_eq [OF wp _ k(1)]) (use len in auto)
  have "\<exists>t'. tbl_append t k (new_udp_item k pkt (ip_len v6) i bad) = Some t'" for bad
    using gro_tbl.append_total [of t k "new_udp_item k pkt (ip_len v6) i bad"] inv by (fastforce simp: tbl_inv_def gro_tbl.slots_def)
  then obtain app where app: "tbl_append t k (new_udp_item k pkt (ip_len v6) i bad) = Some (app bad)" for bad by metis
  have new: "udp_outcome en pkt i off v6 bufs t (GroTableInsert, bufs, app bad)" for bad
    using app [of bad] k(2) len own by (auto simp: udp_outcome_def)
  show ?thesis
  proof (cases "tbl_lookup t k")
    case None
    then show ?thesis using new [of False] by (simp add: udp_lookupOrInsert_def k(1) ins app returns_def)
  next
    case (Some its)
    have its: "its \<noteq> []" using ne Some by blast
    have kept: "key (last its) = k" "udp_item_ok off bufs (last its)"
      using inv(1) Some its by (auto simp: tbl_inv_def udp_kept_def)
    have ip: "unat (iphLen (last its)) = ip_len v6" using kept k(2) by (simp add: udp_item_ok_def ip_len_def)
    then have w: "(of_nat (ip_len v6) :: byte) = iphLen (last its)" by (simp flip: ip)
    obtain can where can: "udpPacketsCanCoalesce pkt (of_nat (ip_len v6)) (of_nat (slen pkt - (ip_len v6 + 8))) (last its) bufs (int off) = Some can"
      using udpPacketsCanCoalesce_total [OF kept(2) wf w] by blast
    have el2: "int (length its) - 1 = int (length its - 1)" using its by (cases its) simp_all
    have el: "elem its (int (length its) - 1) = Some (last its)" unfolding el2 using its by (simp add: elem_def last_conv_nth)
    obtain r item' bufs' where co: "coalesceUDPPackets en pkt (last its) bufs (int off) v6 = Some (r, item', bufs')"
      and un: "r \<noteq> CoalesceSuccess \<Longrightarrow> item' = last its \<and> bufs' = bufs" and ky: "r = CoalesceSuccess \<Longrightarrow> key item' = k"
      using coalesceUDPPackets_returns [OF kept(2) wf wp _ refl, of v6 en] kept(1) k(2) len ip
      by (fastforce simp: returns_iff split: if_splits)
    show ?thesis
    proof (cases "can = CoalesceAppend \<and> r = CoalesceSuccess")
      case True
      obtain t2 where t2: "tbl_updateAt t k item' (int (length its - 1)) = Some t2"
        using gro_tbl.update_at [of t k its "length its - 1" item'] inv(1) Some its by (auto simp: tbl_inv_def)
      have "udp_outcome en pkt i off v6 bufs t (GroCoalesced, bufs', t2)"
        unfolding udp_outcome_def prod.case groResult.case
        by (intro exI [of _ k] exI [of _ its] exI [of _ item'] conjI k(2) len own Some its t2) (use can co True in simp_all)
      moreover have "udp_updateAt t item' (int (length its) - 1) = Some t2" unfolding el2 using t2 ky True by (simp add: udp_updateAt_def)
      ultimately show ?thesis using True can co
        by (simp add: udp_lookupOrInsert_def k(1) Some el returns_def)
    next
      case False
      then show ?thesis using can co un new
        by (auto simp: udp_lookupOrInsert_def k(1) Some el returns_def ins app)
    qed
  qed
qed

lemma udpGRO_returns:
  assumes wf: "\<forall>b\<in>set bufs. wf_slice b" and i: "i < length bufs" "i < 128" "sub_from (bufs ! i) (int off) = Some pkt"
    and cand: "ip_len v6 + 8 \<le> slen pkt" "\<not> v6 \<Longrightarrow> vis pkt ! 0 AND 0x0F = 5"
    and inv: "tbl_inv key (udp_kept off i bufs) m t" "m < 128" and ne: "\<forall>k its. tbl_lookup t k = Some its \<longrightarrow> its \<noteq> []"
  shows "returns (udpGRO en bufs (int off) (int i) t v6) (udp_outcome en pkt i off v6 bufs t)"
proof -
  have wp: "wf_slice pkt" using wf_sub_from [OF i(3)] wf i(1) by simp
  have b: "elem bufs (int i) = Some (bufs ! i)" using i(1) by (rule elem_ok)
  have l: "gro_iph_len pkt v6 = Some (if pkt_len_ok pkt v6 then Some (int (ip_len v6)) else None)"
    using gro_iph_len_returns [OF wp _ cand(2)] cand(1) by simp
  have noop: "returns (Some (GroNoop, bufs, t)) (udp_outcome en pkt i off v6 bufs t)"
    by (simp add: returns_def udp_outcome_def)
  show ?thesis
  proof (cases "pkt_len_ok pkt v6")
    case False
    then show ?thesis unfolding udpGRO_def b i(3) l Option.bind.simps using noop by simp
  next
    case ok: True
    obtain fr where frag: "(if v6 then Some False else is_fragment pkt) = Some fr"
      using is_fragment_total [of pkt] cand(1) by (cases v6; cases "is_fragment pkt") auto
    have "int (slen pkt) - udphLen - int (ip_len v6) = int (slen pkt - (ip_len v6 + 8))"
      using cand(1) by (simp add: udphLen_def)
    then have g: "(of_int (int (slen pkt) - udphLen - int (ip_len v6)) :: u16) = of_nat (slen pkt - (ip_len v6 + 8))"
      by (simp only: of_int_of_nat_eq)
    show ?thesis
      unfolding udpGRO_def b i(3) l if_P [OF ok] frag g Option.bind.simps option.case Let_def
    proof (intro returns_if noop, goal_cases)
      case 1
      have "(of_nat (slen pkt - (ip_len v6 + 8)) :: u16) \<noteq> 0" using 1(3) unfolding word_less_1 .
      then have "0 < slen pkt - (ip_len v6 + 8)" by (rule of_nat_ne_0)
      then have "ip_len v6 + 8 < slen pkt" by linarith
      from udp_evaluate_returns [OF wf i ok this inv ne, of en] show ?case .
    qed
  qed
qed

section \<open>What one packet changes\<close>

text \<open>The buffers after packet \<open>i\<close> was evaluated: those in front of it may have grown, those behind it are
  untouched.\<close>

definition bufs_grow :: "nat \<Rightarrow> nat \<Rightarrow> gslice list \<Rightarrow> gslice list \<Rightarrow> bool" where
  "bufs_grow off i bufs bufs' \<longleftrightarrow> length bufs' = length bufs \<and> (\<forall>b\<in>set bufs'. wf_slice b) \<and>
     (\<forall>j<i. j < length bufs \<longrightarrow> slen (bufs ! j) \<le> slen (bufs' ! j)) \<and>
     (\<forall>j>i. j < length bufs \<longrightarrow> bufs' ! j = bufs ! j) \<and> off < slen (bufs' ! i)"

lemma bufs_grow_refl: "\<forall>b\<in>set bufs. wf_slice b \<Longrightarrow> off < slen (bufs ! i) \<Longrightarrow> bufs_grow off i bufs bufs"
  by (simp add: bufs_grow_def)

lemma bufs_grow_update:
  assumes "\<forall>b\<in>set bufs. wf_slice b" "j < i" "i < length bufs" "wf_slice b" "slen (bufs ! j) \<le> slen b" "off < slen (bufs ! i)"
  shows "bufs_grow off i bufs (bufs[j := b])"
  using assms by (auto simp: bufs_grow_def nth_list_update dest!: set_update_subset_insert [THEN subsetD])

lemma bufs_grow_swap:
  assumes "\<forall>b\<in>set bufs. wf_slice b" "j < i" "i < length bufs" "wf_slice b" "slen (bufs ! j) \<le> slen b" "off < slen (bufs ! j)"
  shows "bufs_grow off i bufs (bufs[j := b, i := bufs ! j])"
  using assms by (auto simp: bufs_grow_def nth_list_update dest!: set_update_subset_insert [THEN subsetD])

lemma tcp_kept_grow:
  assumes "bufs_grow off i bufs bufs'" and "tcp_kept off i bufs x"
  shows "tcp_kept off (Suc i) bufs' x"
proof -
  have "slen (bufs ! unat (bufsIndex x)) \<le> slen (bufs' ! unat (bufsIndex x))"
    using assms by (auto simp: bufs_grow_def tcp_kept_def tcp_item_ok_def)
  then show ?thesis using assms by (auto simp: tcp_kept_def tcp_item_ok_def bufs_grow_def split: if_splits)
qed

lemma udp_kept_grow:
  assumes "bufs_grow off i bufs bufs'" and "udp_kept off i bufs x"
  shows "udp_kept off (Suc i) bufs' x"
proof -
  have "slen (bufs ! unat (bufsIndex x)) \<le> slen (bufs' ! unat (bufsIndex x))"
    using assms by (auto simp: bufs_grow_def udp_kept_def udp_item_ok_def)
  then show ?thesis using assms by (auto simp: udp_kept_def udp_item_ok_def bufs_grow_def split: if_splits)
qed

lemma merged_item_simps [simp]:
  "bufsIndex (merged_item g x) = bufsIndex x" "key (merged_item g x) = key x" "iphLen (merged_item g x) = iphLen x"
  "tcphLen (merged_item g x) = tcphLen x" "sentSeq (merged_item g x) = sentSeq x" "pshSet (merged_item g x) = pshSet x"
  "numMerged (merged_item g x) = numMerged x + 1"
  "itemGsoSize (merged_item g x) = max g (itemGsoSize x)"
  by (auto simp: merged_item_def max_def)

lemma tcp_kept_merged:
  assumes "bufs_grow off i bufs bufs'" and "tcp_kept off i bufs x" and "i < length bufs"
  shows "tcp_kept off (Suc i) bufs' (merged_item g (x\<lparr>sentSeq := s\<rparr>))" "tcp_kept off (Suc i) bufs' (merged_item g x)"
    "tcp_kept off (Suc i) bufs' (merged_item g (x\<lparr>pshSet := p\<rparr>))"
proof -
  have "max g (itemGsoSize x) \<noteq> 0" using assms(2) by (auto simp: max_def tcp_kept_def tcp_item_ok_def)
  then show "tcp_kept off (Suc i) bufs' (merged_item g (x\<lparr>sentSeq := s\<rparr>))" "tcp_kept off (Suc i) bufs' (merged_item g x)"
    "tcp_kept off (Suc i) bufs' (merged_item g (x\<lparr>pshSet := p\<rparr>))"
    using tcp_kept_grow [OF assms(1,2)] by (auto simp: tcp_kept_def tcp_item_ok_def)
qed

text \<open>A successful merge into item \<open>x\<close>.\<close>

lemma tcp_merge_grow:
  assumes wf: "\<forall>b\<in>set bufs. wf_slice b" and i: "i < length bufs" "sub_from (bufs ! i) (int off) = Some pkt"
    and x: "tcp_kept off i bufs x" "v6 = isV6 (key x)" and H: "H = unat (iphLen x) + unat (tcphLen x)" "H < slen pkt"
    and co: "coalesceTCPPackets en mode pkt (int i) g seq psh x bufs (int off) v6 = Some (CoalesceSuccess, x', bufs')"
  shows "bufs_grow off i bufs bufs'" "tcp_kept off (Suc i) bufs' x'" "key x' = key x" "bufsIndex x' = bufsIndex x"
proof -
  have it: "tcp_item_ok off bufs x" and ne: "i \<noteq> unat (bufsIndex x)" and lt: "unat (bufsIndex x) < i"
    using x(1) by (auto simp: tcp_kept_def)
  note out = coalesceTCPPackets_returns [OF it wf i(1) ne i(2) x(2) H(1) less_imp_le [OF H(2)], of en mode g seq psh,
    unfolded co returns_def option.case prod.case Let_def]
  have pl: "slen pkt = slen (bufs ! i) - off" "off \<le> slen (bufs ! i)" using sub_from_eq [OF i(2)] by auto
  have wi: "wf_slice (bufs ! unat (bufsIndex x))" "off + unat (iphLen x) + 13 < slen (bufs ! unat (bufsIndex x))"
    and oH: "off + H \<le> slen (bufs ! unat (bufsIndex x))"
    using it wf H(1) by (auto simp: tcp_item_ok_def)
  have wp: "wf_slice pkt" using wf_sub_from [OF i(2)] wf i(1) by simp
  define j where "j = unat (bufsIndex x)"
  have lv: "length (drop H (vis pkt)) = slen pkt - H" "length (drop (off + H) (vis (bufs ! j))) = slen (bufs ! j) - (off + H)"
    using wp wi(1) by (simp_all add: j_def)
  show g: "bufs_grow off i bufs bufs'"
  proof (cases "mode = CoalescePrepend")
    case True
    then show ?thesis
      using out bufs_grow_swap [OF wf lt i(1), of "grow (bufs ! i) (drop (off + H) (vis (bufs ! j)))" off] lv(2) pl H(2) oH wi(2)
      by (simp add: j_def)
  next
    case False
    define b where "b = (if psh then set_psh (off + unat (iphLen x) + 13) (bufs ! j) else bufs ! j)"
    have b: "slen b = slen (bufs ! j)" "bufs' = bufs[j := grow b (drop H (vis pkt))]" "slen b + (slen pkt - H) \<le> scap b"
      using out False wi by (auto simp: b_def j_def)
    show ?thesis unfolding b(2) j_def
      by (rule bufs_grow_update [OF wf lt i(1)]) (use b lv(1) pl H(2) in \<open>auto simp: j_def\<close>)
  qed
  show "tcp_kept off (Suc i) bufs' x'" "key x' = key x" "bufsIndex x' = bufsIndex x"
    using out tcp_kept_merged [OF g x(1) i(1)] by (auto split: if_splits)
qed

lemma udp_merge_grow:
  assumes wf: "\<forall>b\<in>set bufs. wf_slice b" and i: "i < length bufs" "sub_from (bufs ! i) (int off) = Some pkt"
    and x: "udp_kept off i bufs x" "v6 = isV6 (key x)" and H: "H = unat (iphLen x) + 8" "H < slen pkt"
    and co: "coalesceUDPPackets en pkt x bufs (int off) v6 = Some (CoalesceSuccess, x', bufs')"
  shows "bufs_grow off i bufs bufs'" "udp_kept off (Suc i) bufs' x'" "key x' = key x" "bufsIndex x' = bufsIndex x"
proof -
  have it: "udp_item_ok off bufs x" and lt: "unat (bufsIndex x) < i" using x(1) by (auto simp: udp_kept_def)
  have wp: "wf_slice pkt" using wf_sub_from [OF i(2)] wf i(1) by simp
  note out = coalesceUDPPackets_returns [OF it wf wp x(2) H(1) less_imp_le [OF H(2)], of en,
    unfolded co returns_def option.case prod.case]
  have pl: "slen pkt = slen (bufs ! i) - off" "off \<le> slen (bufs ! i)" using sub_from_eq [OF i(2)] by auto
  have lv: "length (drop H (vis pkt)) = slen pkt - H" using wp by simp
  define j where "j = unat (bufsIndex x)"
  have b: "x' = x\<lparr>numMerged := numMerged x + 1\<rparr>" "slen (bufs ! j) + (slen pkt - H) \<le> scap (bufs ! j)"
    "bufs' = bufs[j := grow (bufs ! j) (drop H (vis pkt))]"
    using out by (simp_all add: j_def)
  show g: "bufs_grow off i bufs bufs'"
    unfolding b(3) j_def by (rule bufs_grow_update [OF wf lt i(1)]) (use b(2) lv pl H(2) in \<open>auto simp: j_def\<close>)
  show "udp_kept off (Suc i) bufs' x'" "key x' = key x" "bufsIndex x' = bufsIndex x"
    using b(1) udp_kept_grow [OF g x(1)] by (auto simp: udp_kept_def udp_item_ok_def)
qed

section \<open>The tables after one packet\<close>

text \<open>The buffers the items of a table own.\<close>

definition owned :: "('k, ('k, 'b) gro_item_scheme) gro_table \<Rightarrow> u16 multiset" where
  "owned t = image_mset bufsIndex (mset (tbl_items t))"

definition inserted :: "groResult \<Rightarrow> nat \<Rightarrow> u16 multiset" where
  "inserted r i = (if r = GroTableInsert then {#of_nat i#} else {#})"

lemma new_tcp_item_simps [simp]: "bufsIndex (new_tcp_item k pkt a b i) = of_nat i" "key (new_tcp_item k pkt a b i) = k"
  "numMerged (new_tcp_item k pkt a b i) = 0"
  by (simp_all add: new_tcp_item_def)

lemma new_udp_item_simps [simp]: "bufsIndex (new_udp_item k pkt a i bad) = of_nat i" "key (new_udp_item k pkt a i bad) = k"
  "numMerged (new_udp_item k pkt a i bad) = 0"
  by (simp_all add: new_udp_item_def)

lemma image_mset_update:
  assumes "x \<in># M" and "f y = f x"
  shows "image_mset f (add_mset y (M - {#x#})) = image_mset f M"
  using assms by (metis image_mset_add_mset insert_DiffM)

text \<open>The packet was merged into item \<open>j\<close> of its flow.\<close>

lemma tcpCan_len:
  assumes "tcpPacketsCanCoalesce pkt iphL tcphL seq psh gsoS item bufs off = Some mode" and "mode \<noteq> CoalesceUnavailable"
  shows "tcphL = tcphLen item"
  using assms unfolding tcpPacketsCanCoalesce_def by (elim run_elims) auto

lemma tcp_outcome_coalesced:
  assumes out: "tcp_outcome en pkt i off v6 m bufs t (GroCoalesced, bufs', t')"
  obtains t1 k its j mode x' where "tcp_dropped off i bufs m t t1" "tbl_lookup t1 k = Some its" "j < length its"
      "tcp_kept off i bufs (its ! j)" "isV6 k = v6" "key (its ! j) = k" "pkt_len_ok pkt v6" "mode \<noteq> CoalesceUnavailable"
      "unat (iphLen (its ! j)) + unat (tcphLen (its ! j)) < slen pkt"
      "tcpPacketsCanCoalesce pkt (iphLen (its ! j)) (tcphLen (its ! j))
        (of_nat (be_nat (take 4 (drop (ip_len v6 + 4) (vis pkt))))) (vis pkt ! (ip_len v6 + 13) \<noteq> tcpFlagACK)
        (of_nat (slen pkt - (unat (iphLen (its ! j)) + unat (tcphLen (its ! j))))) (its ! j) bufs (int off) = Some mode"
      "coalesceTCPPackets en mode pkt (int i) (of_nat (slen pkt - (unat (iphLen (its ! j)) + unat (tcphLen (its ! j)))))
        (of_nat (be_nat (take 4 (drop (ip_len v6 + 4) (vis pkt))))) (vis pkt ! (ip_len v6 + 13) \<noteq> tcpFlagACK)
        (its ! j) bufs (int off) v6 = Some (CoalesceSuccess, x', bufs')"
      "tcp_updateAt t1 x' (int j) = Some t'" "tcp_own pkt v6 k (unat (tcphLen (its ! j)))" "unat (iphLen (its ! j)) = ip_len v6"
proof -
  obtain k T where o: "isV6 k = v6" "pkt_len_ok pkt v6" "20 \<le> T" "T \<le> 60" "ip_len v6 + T < slen pkt" "tcp_own pkt v6 k T"
    and lp: "loop_outcome en pkt i off (ip_len v6) T (of_nat (be_nat (take 4 (drop (ip_len v6 + 4) (vis pkt)))))
           (vis pkt ! (ip_len v6 + 13) \<noteq> tcpFlagACK) (of_nat (slen pkt - (ip_len v6 + T))) v6 m k bufs t
           (Some GroCoalesced, bufs', t')"
    using out by (auto simp: tcp_outcome_def)
  obtain R its t1 j x' mode where l: "tbl_inv key (tcp_kept off i bufs) m t1" "tbl_lookup t1 = (tbl_lookup t)(k \<mapsto> its)"
      "mset (tbl_items t) = mset (tbl_items t1) + R" "\<forall>x\<in>#R. numMerged x = 0" "j < length its" "mode \<noteq> CoalesceUnavailable"
      "tcpPacketsCanCoalesce pkt (of_nat (ip_len v6)) (of_nat T) (of_nat (be_nat (take 4 (drop (ip_len v6 + 4) (vis pkt)))))
        (vis pkt ! (ip_len v6 + 13) \<noteq> tcpFlagACK) (of_nat (slen pkt - (ip_len v6 + T))) (its ! j) bufs (int off) = Some mode"
      "coalesceTCPPackets en mode pkt (int i) (of_nat (slen pkt - (ip_len v6 + T)))
        (of_nat (be_nat (take 4 (drop (ip_len v6 + 4) (vis pkt))))) (vis pkt ! (ip_len v6 + 13) \<noteq> tcpFlagACK)
        (its ! j) bufs (int off) v6 = Some (CoalesceSuccess, x', bufs')"
      "tcp_updateAt t1 x' (int j) = Some t'"
    using lp unfolding loop_outcome_def prod.case option.case groResult.case by (elim exE conjE)
  have look: "tbl_lookup t1 k = Some its" using l(2) by simp
  have kept: "tcp_kept off i bufs (its ! j)" "key (its ! j) = k" using l(1,5) look by (auto simp: tbl_inv_def)
  have h: "unat (iphLen (its ! j)) = ip_len v6" using kept o(1) by (simp add: tcp_kept_def tcp_item_ok_def ip_len_def)
  have T: "tcphLen (its ! j) = of_nat T" using tcpCan_len [OF l(7,6)] by simp
  then have T': "unat (tcphLen (its ! j)) = T" using o(4) by (simp add: unat_of_nat take_bit_nat_eq_self)
  have h': "iphLen (its ! j) = of_nat (ip_len v6)" by (simp flip: h)
  show thesis
    by (rule that [OF _ look l(5) kept(1) o(1) kept(2) o(2) l(6)])
      (use l o h T' in \<open>auto simp: tcp_dropped_def simp flip: T h'\<close>)
qed

lemma tcp_outcome_keeps:
  assumes wf: "\<forall>b\<in>set bufs. wf_slice b" and i: "i < length bufs" "i < 65536" "sub_from (bufs ! i) (int off) = Some pkt" "off < slen (bufs ! i)"
    and inv: "tbl_inv key (tcp_kept off i bufs) m t" "m < 128" and out: "tcp_outcome en pkt i off v6 m bufs t (r, bufs', t')"
  shows "bufs_grow off i bufs bufs' \<and> tbl_inv key (tcp_kept off (Suc i) bufs') (Suc m) t' \<and>
    owned t' \<subseteq># owned t + inserted r i \<and> (r \<noteq> GroCoalesced \<longrightarrow> bufs' = bufs)"
proof (cases r)
  case GroNoop
  then have "bufs' = bufs" "tcp_dropped off i bufs m t t'" using out by (auto simp: tcp_outcome_def)
  then show ?thesis
    using bufs_grow_refl [OF wf i(4)] tcp_kept_grow [OF bufs_grow_refl [OF wf i(4)]]
    by (auto simp: tcp_dropped_def owned_def GroNoop inserted_def intro: tbl_inv_mono)
next
  case GroTableInsert
  then obtain t1 k T where o: "bufs' = bufs" "tcp_dropped off i bufs m t t1" "isV6 k = v6" "pkt_len_ok pkt v6"
      "20 \<le> T" "T \<le> 60" "ip_len v6 + T < slen pkt" "tbl_append t1 k (new_tcp_item k pkt (ip_len v6) T i) = Some t'"
    using out by (auto simp: tcp_outcome_def)
  have g: "bufs_grow off i bufs bufs'" using bufs_grow_refl [OF wf i(4)] o(1) by simp
  have inv1: "tbl_inv key (tcp_kept off (Suc i) bufs') m t1" and sub: "owned t1 \<subseteq># owned t"
    using o(2) tcp_kept_grow [OF g] by (auto simp: tcp_dropped_def owned_def intro: tbl_inv_mono)
  have "tcp_kept off (Suc i) bufs' (new_tcp_item k pkt (ip_len v6) T i)"
    using new_tcp_item_ok [OF i(1-3) o(3,5-7)] o(1,4) by (simp add: tcp_kept_def pkt_len_ok_def)
  from tbl_inv_append [OF inv1 inv(2) _ this, of k] o(8)
  show ?thesis using g sub by (auto simp: owned_def GroTableInsert inserted_def o(1))
next
  case GroCoalesced
  then obtain t1 k its j mode x' where o: "tcp_dropped off i bufs m t t1" "tbl_lookup t1 k = Some its" "j < length its"
      "tcp_kept off i bufs (its ! j)" "isV6 k = v6" "key (its ! j) = k"
      "unat (iphLen (its ! j)) + unat (tcphLen (its ! j)) < slen pkt"
      "coalesceTCPPackets en mode pkt (int i) (of_nat (slen pkt - (unat (iphLen (its ! j)) + unat (tcphLen (its ! j)))))
        (of_nat (be_nat (take 4 (drop (ip_len v6 + 4) (vis pkt))))) (vis pkt ! (ip_len v6 + 13) \<noteq> tcpFlagACK)
        (its ! j) bufs (int off) v6 = Some (CoalesceSuccess, x', bufs')"
      "tcp_updateAt t1 x' (int j) = Some t'"
    using tcp_outcome_coalesced [OF out [unfolded GroCoalesced]] by metis
  note g = tcp_merge_grow [OF wf i(1,3) o(4) _ refl o(7,8)]
  have v: "v6 = isV6 (key (its ! j))" using o(5,6) by simp
  have inv1: "tbl_inv key (tcp_kept off (Suc i) bufs') m t1"
    using o(1) tcp_kept_grow [OF g(1) [OF v]] by (auto simp: tcp_dropped_def intro: tbl_inv_mono)
  obtain t2 where t2: "tbl_updateAt t1 k x' (int j) = Some t2" "tbl_inv key (tcp_kept off (Suc i) bufs') m t2"
      "mset (tbl_items t2) = add_mset x' (mset (tbl_items t1) - {#its ! j#})"
    using tbl_inv_update [OF inv1 o(2,3) _ g(2) [OF v]] g(3) [OF v] o(6) by blast
  have "t2 = t'" using t2(1) o(9) g(3) [OF v] o(6) by (simp add: tcp_updateAt_def)
  have "its ! j \<in># mset (tbl_items t1)" using set_mset_mono [OF tbl_lookup_items [OF o(2)]] o(3) by auto
  from image_mset_update [of _ _ bufsIndex, OF this g(4) [OF v]] have "owned t' = owned t1"
    unfolding owned_def t2(3) [unfolded \<open>t2 = t'\<close>] .
  then show ?thesis
    using g(1) [OF v] t2(2) o(1) \<open>t2 = t'\<close>
    by (auto simp: GroCoalesced inserted_def tcp_dropped_def owned_def intro: tbl_inv_mono)
qed

lemma udp_outcome_keeps:
  assumes wf: "\<forall>b\<in>set bufs. wf_slice b" and i: "i < length bufs" "i < 65536" "sub_from (bufs ! i) (int off) = Some pkt" "off < slen (bufs ! i)"
    and inv: "tbl_inv key (udp_kept off i bufs) m t" "m < 128" and ne: "\<forall>k its. tbl_lookup t k = Some its \<longrightarrow> its \<noteq> []"
    and out: "udp_outcome en pkt i off v6 bufs t (r, bufs', t')"
  shows "bufs_grow off i bufs bufs' \<and> tbl_inv key (udp_kept off (Suc i) bufs') (Suc m) t' \<and>
    owned t' \<subseteq># owned t + inserted r i \<and> (r \<noteq> GroCoalesced \<longrightarrow> bufs' = bufs) \<and>
    (\<forall>k its. tbl_lookup t' k = Some its \<longrightarrow> its \<noteq> [])"
proof (cases r)
  case GroNoop
  then have "bufs' = bufs" "t' = t" using out by (auto simp: udp_outcome_def)
  then show ?thesis
    using bufs_grow_refl [OF wf i(4)] udp_kept_grow [OF bufs_grow_refl [OF wf i(4)]] inv(1) ne
    by (auto simp: GroNoop inserted_def intro: tbl_inv_mono)
next
  case GroTableInsert
  then obtain k bad where o: "bufs' = bufs" "isV6 k = v6" "pkt_len_ok pkt v6" "ip_len v6 + 8 < slen pkt"
      "tbl_append t k (new_udp_item k pkt (ip_len v6) i bad) = Some t'"
    using out by (auto simp: udp_outcome_def)
  have g: "bufs_grow off i bufs bufs'" using bufs_grow_refl [OF wf i(4)] o(1) by simp
  have inv1: "tbl_inv key (udp_kept off (Suc i) bufs') m t"
    using inv(1) udp_kept_grow [OF g] by (auto intro: tbl_inv_mono)
  have "udp_kept off (Suc i) bufs' (new_udp_item k pkt (ip_len v6) i bad)"
    using new_udp_item_ok [OF i(1-3) o(2,4)] o(1,3) by (simp add: udp_kept_def pkt_len_ok_def)
  from tbl_inv_append [OF inv1 inv(2) _ this, of k] o(5)
  show ?thesis using g ne by (auto simp: owned_def GroTableInsert inserted_def o(1))
next
  case GroCoalesced
  then obtain k its x' where o: "isV6 k = v6" "pkt_len_ok pkt v6" "ip_len v6 + 8 < slen pkt" "tbl_lookup t k = Some its" "its \<noteq> []"
      "coalesceUDPPackets en pkt (last its) bufs (int off) v6 = Some (CoalesceSuccess, x', bufs')"
      "tbl_updateAt t k x' (int (length its - 1)) = Some t'"
    using out by (auto simp: udp_outcome_def)
  have l: "length its - 1 < length its" "its ! (length its - 1) = last its" using o(5) by (simp_all add: last_conv_nth)
  have kept: "udp_kept off i bufs (last its)" "key (last its) = k" using inv(1) o(4,5) by (auto simp: tbl_inv_def)
  have h: "unat (iphLen (last its)) + 8 < slen pkt" and v: "v6 = isV6 (key (last its))"
    using kept o(1,3) by (simp_all add: udp_kept_def udp_item_ok_def ip_len_def)
  note g = udp_merge_grow [OF wf i(1,3) kept(1) v refl h o(6)]
  have inv1: "tbl_inv key (udp_kept off (Suc i) bufs') m t"
    using inv(1) udp_kept_grow [OF g(1)] by (auto intro: tbl_inv_mono)
  obtain t2 where t2: "tbl_updateAt t k x' (int (length its - 1)) = Some t2" "tbl_inv key (udp_kept off (Suc i) bufs') m t2"
      "mset (tbl_items t2) = add_mset x' (mset (tbl_items t) - {#last its#})" "tbl_lookup t2 = (tbl_lookup t)(k \<mapsto> its[length its - 1 := x'])"
    using tbl_inv_update [OF inv1 o(4) l(1) _ g(2)] g(3) kept(2) unfolding l(2) by blast
  have "t2 = t'" using t2(1) o(7) by simp
  have "last its \<in># mset (tbl_items t)" using set_mset_mono [OF tbl_lookup_items [OF o(4)]] o(5) by auto
  from image_mset_update [of _ _ bufsIndex, OF this g(4)] have "owned t' = owned t"
    unfolding owned_def t2(3) [unfolded \<open>t2 = t'\<close>] .
  then show ?thesis
    using g(1) t2(2,4) ne o(5) unfolding \<open>t2 = t'\<close>
    by (auto simp: GroCoalesced inserted_def intro: tbl_inv_mono)
qed

end
