(* ===== verification/Gro_Batch.thy ===== *)
theory Gro_Batch
  imports Gro_Invariant
begin

text \<open>
  A batch on the write side (\<^verbatim>\<open>handleGRO\<close>, \<^verbatim>\<open>apply*CoalesceAccounting\<close> of \<^verbatim>\<open>offload_linux.go\<close>): the pass over
  the packets keeps the invariant of the tables, and the accounting of the coalesced packets neither panics nor
  fails.
\<close>

section \<open>Candidates\<close>

lemma packetIsGROCandidate_returns:
  assumes "wf_slice b"
  shows "returns (packetIsGROCandidate b can) (\<lambda>c. case c of
      NotGROCandidate \<Rightarrow> True
    | Tcp4GROCandidate \<Rightarrow> ip_len False + 20 \<le> slen b \<and> vis b ! 0 AND 0x0F = 5
    | Tcp6GROCandidate \<Rightarrow> ip_len True + 20 \<le> slen b
    | Udp4GROCandidate \<Rightarrow> ip_len False + 8 \<le> slen b \<and> vis b ! 0 AND 0x0F = 5
    | Udp6GROCandidate \<Rightarrow> ip_len True + 8 \<le> slen b)"
  unfolding packetIsGROCandidate_def
  using assms rd_ok [of 0 b] rd_ok [of 9 b] rd_ok [of 6 b]
  by (auto simp: returns_def ip_len_def)

section \<open>The invariant of a batch\<close>

text \<open>Before packet \<open>i\<close> of the batch \<open>bufs0\<close>.\<close>

definition gro_inv :: "nat \<Rightarrow> gslice list \<Rightarrow> nat \<Rightarrow> gro_state \<Rightarrow> bool" where
  "gro_inv off bufs0 i st \<longleftrightarrow>
     length (gBufs st) = length bufs0 \<and> (\<forall>b\<in>set (gBufs st). wf_slice b) \<and>
     (\<forall>j<i. j < length bufs0 \<longrightarrow> off < slen (gBufs st ! j)) \<and> (\<forall>j\<ge>i. j < length bufs0 \<longrightarrow> gBufs st ! j = bufs0 ! j) \<and>
     tbl_inv key (tcp_kept off i (gBufs st)) i (gTcp st) \<and> tbl_inv key (udp_kept off i (gBufs st)) i (gUdp st) \<and>
     (\<forall>k its. tbl_lookup (gUdp st) k = Some its \<longrightarrow> its \<noteq> []) \<and>
     sorted_wrt (<) (gToWrite st) \<and> set (gToWrite st) \<subseteq> int ` {..<i} \<and>
     image_mset uint (owned (gTcp st) + owned (gUdp st)) \<subseteq># mset (gToWrite st)"

text \<open>A packet was evaluated with result \<open>r\<close>; it is not yet in \<open>toWrite\<close>.\<close>

definition gro_evaluated :: "nat \<Rightarrow> nat \<Rightarrow> gro_state \<Rightarrow> groResult \<Rightarrow> gro_state \<Rightarrow> bool" where
  "gro_evaluated off i st r st' \<longleftrightarrow>
     bufs_grow off i (gBufs st) (gBufs st') \<and>
     tbl_inv key (tcp_kept off (Suc i) (gBufs st')) (Suc i) (gTcp st') \<and>
     tbl_inv key (udp_kept off (Suc i) (gBufs st')) (Suc i) (gUdp st') \<and>
     (\<forall>k its. tbl_lookup (gUdp st') k = Some its \<longrightarrow> its \<noteq> []) \<and>
     owned (gTcp st') + owned (gUdp st') \<subseteq># owned (gTcp st) + owned (gUdp st) + inserted r i \<and>
     (r \<noteq> GroCoalesced \<longrightarrow> gBufs st' = gBufs st) \<and> gToWrite st' = gToWrite st"

lemma gro_eval_tcp:
  assumes inv: "gro_inv off bufs0 i st" and i: "i < length bufs0" "i < 128"
    and pkt: "sub_from (gBufs st ! i) (int off) = Some pkt" "off < slen (gBufs st ! i)"
    and cand: "ip_len v6 + 20 \<le> slen pkt" "\<not> v6 \<Longrightarrow> vis pkt ! 0 AND 0x0F = 5"
  shows "returns (do { (r, bufs, t) \<leftarrow> tcpGRO en (gBufs st) (int off) (int i) (gTcp st) v6; Some (r, st\<lparr>gBufs := bufs, gTcp := t\<rparr>) })
    (\<lambda>(r, st'). gro_evaluated off i st r st')"
proof -
  have wf: "\<forall>b\<in>set (gBufs st). wf_slice b" and l: "i < length (gBufs st)" "i < 65536"
    and t: "tbl_inv key (tcp_kept off i (gBufs st)) i (gTcp st)" and u: "tbl_inv key (udp_kept off i (gBufs st)) i (gUdp st)"
    and ne: "\<forall>k its. tbl_lookup (gUdp st) k = Some its \<longrightarrow> its \<noteq> []"
    using inv i by (auto simp: gro_inv_def)
  show ?thesis
  proof (rule returns_call [OF tcpGRO_returns [OF wf l(1) i(2) pkt(1) cand t i(2)]], assumption, goal_cases)
    case (1 v)
    obtain r bufs' t' where v: "v = (r, bufs', t')" by (cases v)
    note k = tcp_outcome_keeps [OF wf l pkt t i(2) 1(2) [unfolded v]]
    have "tbl_inv key (udp_kept off (Suc i) bufs') (Suc i) (gUdp st)"
      using k u udp_kept_grow [of off i "gBufs st" bufs'] by (auto intro: tbl_inv_mono)
    then show ?case
      using k ne by (auto simp: v returns_def gro_evaluated_def ac_simps intro: subset_mset.add_right_mono)
  qed
qed

lemma gro_eval_udp:
  assumes inv: "gro_inv off bufs0 i st" and i: "i < length bufs0" "i < 128"
    and pkt: "sub_from (gBufs st ! i) (int off) = Some pkt" "off < slen (gBufs st ! i)"
    and cand: "ip_len v6 + 8 \<le> slen pkt" "\<not> v6 \<Longrightarrow> vis pkt ! 0 AND 0x0F = 5"
  shows "returns (do { (r, bufs, t) \<leftarrow> udpGRO en (gBufs st) (int off) (int i) (gUdp st) v6; Some (r, st\<lparr>gBufs := bufs, gUdp := t\<rparr>) })
    (\<lambda>(r, st'). gro_evaluated off i st r st')"
proof -
  have wf: "\<forall>b\<in>set (gBufs st). wf_slice b" and l: "i < length (gBufs st)" "i < 65536"
    and t: "tbl_inv key (tcp_kept off i (gBufs st)) i (gTcp st)" and u: "tbl_inv key (udp_kept off i (gBufs st)) i (gUdp st)"
    and ne: "\<forall>k its. tbl_lookup (gUdp st) k = Some its \<longrightarrow> its \<noteq> []"
    using inv i by (auto simp: gro_inv_def)
  show ?thesis
  proof (rule returns_call [OF udpGRO_returns [OF wf l(1) i(2) pkt(1) cand u i(2) ne]], assumption, goal_cases)
    case (1 v)
    obtain r bufs' t' where v: "v = (r, bufs', t')" by (cases v)
    note k = udp_outcome_keeps [OF wf l pkt u i(2) ne 1(2) [unfolded v]]
    have "tbl_inv key (tcp_kept off (Suc i) bufs') (Suc i) (gTcp st)"
      using k t tcp_kept_grow [of off i "gBufs st" bufs'] by (auto intro: tbl_inv_mono)
    then show ?case
      using k by (auto simp: v returns_def gro_evaluated_def ac_simps intro: subset_mset.add_left_mono)
  qed
qed

lemma gro_eval_returns:
  assumes inv: "gro_inv off bufs0 i st" and i: "i < length bufs0" "i < 128"
    and pkt: "sub_from (gBufs st ! i) (int off) = Some pkt" "off < slen (gBufs st ! i)"
    and cand: "packetIsGROCandidate pkt can = Some c"
  shows "returns (gro_eval en (int off) (int i) c st) (\<lambda>(r, st'). gro_evaluated off i st r st')"
proof -
  have wf: "\<forall>b\<in>set (gBufs st). wf_slice b" and l: "i < length (gBufs st)" using inv i by (auto simp: gro_inv_def)
  have wp: "wf_slice pkt" using wf_sub_from [OF pkt(1)] wf l by simp
  note c = packetIsGROCandidate_returns [OF wp, of can, unfolded cand returns_def option.case]
  show ?thesis
  proof (cases c)
    case NotGROCandidate
    have g: "bufs_grow off i (gBufs st) (gBufs st)" using bufs_grow_refl [OF wf pkt(2)] .
    then show ?thesis
      using inv tcp_kept_grow [OF g] udp_kept_grow [OF g]
      by (auto simp: NotGROCandidate gro_eval_def returns_def gro_evaluated_def gro_inv_def inserted_def intro: tbl_inv_mono)
  qed (use c gro_eval_tcp [OF inv i pkt, of False en] gro_eval_udp [OF inv i pkt, of False en] gro_eval_tcp [OF inv i pkt, of True en] gro_eval_udp [OF inv i pkt, of True en] in \<open>simp_all add: gro_eval_def\<close>)
qed

section \<open>One packet of a batch\<close>

definition with_hdr :: "endian \<Rightarrow> virtioNetHdr \<Rightarrow> nat \<Rightarrow> gslice \<Rightarrow> gslice" where
  "with_hdr en h off buf = buf\<lparr>sarr := splice (sarr buf) (off - 10) (hdr_bytes en h)\<rparr>"

lemma with_hdr_simps [simp]:
  "slen (with_hdr en h off buf) = slen buf"
  "wf_slice buf \<Longrightarrow> 10 \<le> off \<Longrightarrow> off \<le> slen buf \<Longrightarrow> wf_slice (with_hdr en h off buf)"
  "wf_slice buf \<Longrightarrow> 10 \<le> off \<Longrightarrow> off \<le> slen buf \<Longrightarrow> drop off (vis (with_hdr en h off buf)) = drop off (vis buf)"
  by (simp_all add: with_hdr_def wf_slice_def vis_def drop_take)

lemma encode_at_ok:
  assumes "wf_slice buf" "10 \<le> off" "off \<le> slen buf"
  shows "encode_at en h (int off) buf = Some (Inr (with_hdr en h off buf))"
proof -
  have o: "int off - virtioNetHdrLen = int (off - 10)" using assms(2) by (simp add: virtioNetHdrLen_def)
  have s: "sub_from buf (int (off - 10)) = Some \<lparr>sarr = drop (off - 10) (sarr buf), slen = slen buf - (off - 10)\<rparr>"
    by (rule sub_from_ok) (use assms in auto)
  have e: "encode en h \<lparr>sarr = drop (off - 10) (sarr buf), slen = slen buf - (off - 10)\<rparr>
      = Inr \<lparr>sarr = splice (drop (off - 10) (sarr buf)) 0 (hdr_bytes en h), slen = slen buf - (off - 10)\<rparr>"
    by (subst encode_ok) (use assms in auto)
  have "take (off - 10) (sarr buf) @ splice (drop (off - 10) (sarr buf)) 0 (hdr_bytes en h) = splice (sarr buf) (off - 10) (hdr_bytes en h)"
    by (simp add: splice_def add.commute)
  then show ?thesis
    unfolding encode_at_def o s Option.bind.simps e sum.case by (simp add: put_back_def with_hdr_def)
qed

lemma tcp_kept_same_len:
  assumes "tcp_kept off i bufs x" "length bufs' = length bufs" "\<And>j. j < length bufs \<Longrightarrow> slen (bufs' ! j) = slen (bufs ! j)"
  shows "tcp_kept off i bufs' x"
  using assms(1,2) assms(3) [of "unat (bufsIndex x)"] by (auto simp: tcp_kept_def tcp_item_ok_def)

lemma udp_kept_same_len:
  assumes "udp_kept off i bufs x" "length bufs' = length bufs" "\<And>j. j < length bufs \<Longrightarrow> slen (bufs' ! j) = slen (bufs ! j)"
  shows "udp_kept off i bufs' x"
  using assms(1,2) assms(3) [of "unat (bufsIndex x)"] by (auto simp: udp_kept_def udp_item_ok_def)

lemma gro_evaluated_inv:
  assumes inv: "gro_inv off bufs0 i st" and i: "i < length bufs0" "i < 65536" and ev: "gro_evaluated off i st r st'"
    and tw: "tw = (if r = GroCoalesced then gToWrite st else gToWrite st @ [int i])"
    and bufs: "length bufs = length bufs0" "\<forall>b\<in>set bufs. wf_slice b"
      "\<And>j. j < length bufs0 \<Longrightarrow> slen (bufs ! j) = slen (gBufs st' ! j)" "\<And>j. j < length bufs0 \<Longrightarrow> i < j \<Longrightarrow> bufs ! j = gBufs st' ! j"
  shows "gro_inv off bufs0 (Suc i) (st'\<lparr>gBufs := bufs, gToWrite := tw\<rparr>)"
proof -
  have l: "length (gBufs st) = length bufs0" "length (gBufs st') = length bufs0"
    using inv ev by (simp_all add: gro_inv_def gro_evaluated_def bufs_grow_def)
  have lens: "\<forall>j<Suc i. j < length bufs0 \<longrightarrow> off < slen (bufs ! j)"
  proof (intro allI impI)
    fix j assume j: "j < Suc i" "j < length bufs0"
    show "off < slen (bufs ! j)"
    proof (cases "j = i")
      case True
      then show ?thesis using ev bufs(3) j by (simp add: gro_evaluated_def bufs_grow_def)
    next
      case False
      then have "off < slen (gBufs st ! j)" "slen (gBufs st ! j) \<le> slen (gBufs st' ! j)"
        using inv ev j l by (auto simp: gro_inv_def gro_evaluated_def bufs_grow_def)
      then show ?thesis using bufs(3) j by simp
    qed
  qed
  have later: "\<forall>j\<ge>Suc i. j < length bufs0 \<longrightarrow> bufs ! j = bufs0 ! j"
    using inv ev bufs(4) l by (auto simp: gro_inv_def gro_evaluated_def bufs_grow_def)
  have t: "tbl_inv key (tcp_kept off (Suc i) bufs) (Suc i) (gTcp st')" "tbl_inv key (udp_kept off (Suc i) bufs) (Suc i) (gUdp st')"
    using ev l bufs(1,3) tcp_kept_same_len [of off "Suc i" "gBufs st'" _ bufs] udp_kept_same_len [of off "Suc i" "gBufs st'" _ bufs]
    by (auto simp: gro_evaluated_def intro: tbl_inv_mono)
  have tws: "sorted_wrt (<) tw" "set tw \<subseteq> int ` {..<Suc i}"
    using inv by (auto simp: tw gro_inv_def sorted_wrt_append)
  have "image_mset uint (owned (gTcp st') + owned (gUdp st')) \<subseteq># image_mset uint (owned (gTcp st) + owned (gUdp st) + inserted r i)"
    using ev by (intro image_mset_subseteq_mono) (simp add: gro_evaluated_def)
  also have "\<dots> \<subseteq># mset tw"
    using inv i(2) by (auto simp: gro_inv_def tw inserted_def uint_nat unat_of_nat take_bit_nat_eq_self
        intro: subset_mset.add_mono subset_mset.order_trans)
  finally show ?thesis
    using bufs(1,2) lens later t tws ev by (simp add: gro_inv_def gro_evaluated_def)
qed

text \<open>A step refuses an offset without room for the virtio header or behind the packet, and keeps the invariant
  otherwise.\<close>

definition bad_offset :: "int \<Rightarrow> gslice \<Rightarrow> bool" where
  "bad_offset offset buf \<longleftrightarrow> offset < virtioNetHdrLen \<or> offset > int (slen buf) - 1"

lemma gro_step_returns:
  assumes inv: "gro_inv (nat offset) bufs0 i st" and i: "i < length bufs0" "i < 128"
  shows "returns (gro_step en offset can (int i) st) (\<lambda>(st', r). case r of
      Inl e \<Rightarrow> e = ErrInvalidOffset \<and> bad_offset offset (bufs0 ! i) \<and> st' = st
    | Inr _ \<Rightarrow> \<not> bad_offset offset (bufs0 ! i) \<and> gro_inv (nat offset) bufs0 (Suc i) st')"
proof -
  have l: "i < length (gBufs st)" and wf: "\<forall>b\<in>set (gBufs st). wf_slice b" and b0: "gBufs st ! i = bufs0 ! i"
    and len: "length (gBufs st) = length bufs0"
    using inv i by (auto simp: gro_inv_def)
  have el: "elem (gBufs st) (int i) = Some (bufs0 ! i)" using elem_ok [OF l] b0 by simp
  show ?thesis
  proof (cases "bad_offset offset (bufs0 ! i)")
    case True
    then show ?thesis by (simp add: gro_step_def el returns_def bad_offset_def)
  next
    case False
    then obtain off where off: "offset = int off" "10 \<le> off" "off < slen (bufs0 ! i)"
      by (cases offset) (auto simp: bad_offset_def virtioNetHdrLen_def)
    have inv: "gro_inv off bufs0 i st" using inv off(1) by simp
    have wi: "wf_slice (bufs0 ! i)" using wf l b0 by (metis nth_mem)
    define pkt where "pkt = \<lparr>sarr = drop off (sarr (bufs0 ! i)), slen = slen (bufs0 ! i) - off\<rparr>"
    have pkt: "sub_from (bufs0 ! i) (int off) = Some pkt" using sub_from_ok [of off "bufs0 ! i"] wi off(3) by (simp add: pkt_def)
    have wp: "wf_slice pkt" using wf_sub_from [OF pkt wi] .
    obtain c where c: "packetIsGROCandidate pkt can = Some c"
      using packetIsGROCandidate_returns [OF wp, of can] by (auto simp: returns_iff)
    obtain r st' where ev: "gro_eval en (int off) (int i) c st = Some (r, st')" "gro_evaluated off i st r st'"
      using gro_eval_returns [OF inv i pkt [folded b0] _ c, of en] off(3) b0 by (fastforce simp: returns_iff)
    have l': "length (gBufs st') = length bufs0" "\<forall>b\<in>set (gBufs st'). wf_slice b"
      using ev(2) len by (auto simp: gro_evaluated_def bufs_grow_def)
    have keep: "gro_inv off bufs0 (Suc i) (st'\<lparr>gBufs := bufs, gToWrite := tw\<rparr>)"
      if "tw = (if r = GroCoalesced then gToWrite st else gToWrite st @ [int i])"
        "length bufs = length bufs0" "\<forall>b\<in>set bufs. wf_slice b"
        "\<And>j. j < length bufs0 \<Longrightarrow> slen (bufs ! j) = slen (gBufs st' ! j)" "\<And>j. j < length bufs0 \<Longrightarrow> i < j \<Longrightarrow> bufs ! j = gBufs st' ! j"
      for bufs tw
      by (rule gro_evaluated_inv [OF inv i(1) _ ev(2) that]) (use i(2) in simp)
    have tw: "gToWrite st' = gToWrite st" using ev(2) by (simp add: gro_evaluated_def)
    have head: "gro_step en offset can (int i) st = (case r of
       GroNoop \<Rightarrow> do {
         buf \<leftarrow> elem (gBufs st') (int i);
         r \<leftarrow> encode_at en zero_hdr (int off) buf;
         case r of
           Inl e \<Rightarrow> Some (st', Inl e)
         | Inr buf \<Rightarrow> do {
             bufs \<leftarrow> set_elem (gBufs st') (int i) buf;
             Some (st'\<lparr>gBufs := bufs, gToWrite := gToWrite st' @ [int i]\<rparr>, Inr ())
           }
       }
     | GroTableInsert \<Rightarrow> Some (st'\<lparr>gToWrite := gToWrite st' @ [int i]\<rparr>, Inr ())
     | GroCoalesced \<Rightarrow> Some (st', Inr ()))"
      using False pkt c ev(1) by (simp add: gro_step_def el bad_offset_def off(1) cong: groResult.case_cong)
    show ?thesis
    proof (cases r)
      case GroNoop
      then have same: "gBufs st' = gBufs st" using ev(2) by (simp add: gro_evaluated_def)
      have e: "elem (gBufs st') (int i) = Some (bufs0 ! i)" using el same by simp
      have sl: "slen ((gBufs st')[i := with_hdr en zero_hdr off (bufs0 ! i)] ! j) = slen (gBufs st' ! j)" if "j < length bufs0" for j
        using that l' same b0 by (cases "j = i") simp_all
      have "gro_inv off bufs0 (Suc i)
          (st'\<lparr>gBufs := (gBufs st')[i := with_hdr en zero_hdr off (bufs0 ! i)], gToWrite := gToWrite st @ [int i]\<rparr>)"
        by (rule keep) (use GroNoop l' i(1) sl off wi in \<open>auto dest!: set_update_subset_insert [THEN subsetD]\<close>)
      then show ?thesis
        using False GroNoop i(1) l' off unfolding head tw
        by (simp add: e encode_at_ok [OF wi off(2)] set_elem_ok returns_def)
    next
      case GroTableInsert
      have "gro_inv off bufs0 (Suc i) (st'\<lparr>gBufs := gBufs st', gToWrite := gToWrite st @ [int i]\<rparr>)"
        by (rule keep) (use GroTableInsert l' in simp_all)
      then show ?thesis using False GroTableInsert off unfolding head tw by (simp add: returns_def)
    next
      case GroCoalesced
      have "gro_inv off bufs0 (Suc i) (st'\<lparr>gBufs := gBufs st', gToWrite := gToWrite st\<rparr>)"
        by (rule keep) (use GroCoalesced l' in simp_all)
      moreover have "st'\<lparr>gBufs := gBufs st', gToWrite := gToWrite st\<rparr> = st'" using tw by (cases st') simp
      ultimately show ?thesis using False GroCoalesced off unfolding head by (simp add: returns_def)
    qed
  qed
qed

lemma gro_loop_returns:
  assumes "gro_inv (nat offset) bufs0 i st" and "i + n = length bufs0" and "length bufs0 \<le> 128"
  shows "returns (gro_loop en offset can n (int i) st) (\<lambda>(st', r). case r of
      Inl e \<Rightarrow> e = ErrInvalidOffset \<and> (\<exists>j. i \<le> j \<and> j < length bufs0 \<and> bad_offset offset (bufs0 ! j) \<and> gro_inv (nat offset) bufs0 j st')
    | Inr _ \<Rightarrow> (\<forall>j. i \<le> j \<and> j < length bufs0 \<longrightarrow> \<not> bad_offset offset (bufs0 ! j)) \<and>
        gro_inv (nat offset) bufs0 (length bufs0) st')"
  using assms
proof (induction n arbitrary: i st)
  case 0
  then show ?case by (auto simp: returns_def)
next
  case (Suc n)
  have i: "i < length bufs0" "i < 128" using Suc.prems(2,3) by auto
  obtain st1 r where s: "gro_step en offset can (int i) st = Some (st1, r)"
    and o: "case r of Inl e \<Rightarrow> e = ErrInvalidOffset \<and> bad_offset offset (bufs0 ! i) \<and> st1 = st
      | Inr _ \<Rightarrow> \<not> bad_offset offset (bufs0 ! i) \<and> gro_inv (nat offset) bufs0 (Suc i) st1"
    using gro_step_returns [OF Suc.prems(1) i, of en can] by (auto simp: returns_iff)
  show ?case
  proof (cases r)
    case (Inl e)
    then show ?thesis using s o i Suc.prems(1) by (auto simp: returns_def)
  next
    case (Inr u)
    then have o': "\<not> bad_offset offset (bufs0 ! i)" "gro_inv (nat offset) bufs0 (Suc i) st1" using o by simp_all
    have c: "int i + 1 = int (Suc i)" and le: "i \<le> j \<longleftrightarrow> j = i \<or> Suc i \<le> j" for j by auto
    show ?thesis
      unfolding gro_loop.simps s Option.bind.simps prod.case Inr sum.case c
      by (rule returns_mono [OF Suc.IH [OF o'(2)]])
        (use Suc.prems(2,3) o'(1) in \<open>auto split: sum.splits simp: le\<close>)
  qed
qed

section \<open>The headers of coalesced packets\<close>

lemma with_hdr_vis:
  assumes "wf_slice buf" "10 \<le> off" "off \<le> slen buf"
  shows "with_hdr en h off buf = set_vis buf (take (off - 10) (vis buf) @ hdr_bytes en h @ drop off (vis buf))"
  using assms by (simp add: with_hdr_def splice_set_vis) (simp add: splice_def)

definition ip_fields :: "endian \<Rightarrow> bool \<Rightarrow> byte list \<Rightarrow> byte list" where
  "ip_fields en v6 p =
     (if v6 then splice p 4 (be16 (of_nat (length p) - 40))
      else let h = splice (splice p 10 [0, 0]) 2 (be16 (of_nat (length p)))
        in splice h 10 (be16 (NOT (checksum en (take 20 h) 0))))"

lemma length_ip_fields [simp]: "ip_len v6 \<le> length p \<Longrightarrow> length (ip_fields en v6 p) = length p"
  by (simp add: ip_fields_def ip_len_def Let_def split: if_splits)

lemma account_ip_ok:
  assumes wf: "wf_slice pkt" and len: "ip_len v6 \<le> slen pkt"
  shows "account_ip en v6 (of_nat (ip_len v6)) pkt = Some (set_vis pkt (ip_fields en v6 (vis pkt)))"
proof (cases v6)
  case True
  then show ?thesis using put16_vis [of pkt 4] wf len by (simp add: account_ip_def ip_fields_def ip_len_def)
next
  case False
  define h where "h = splice (splice (vis pkt) 10 [0, 0]) 2 (be16 (of_nat (slen pkt)))"
  have l: "20 \<le> slen pkt" using False len by (simp add: ip_len_def)
  have w1: "wr pkt 10 0 = Some (set_vis pkt (splice (vis pkt) 10 [0]))" using wr_vis [of pkt 10] wf l by simp
  have w2: "wr (set_vis pkt (splice (vis pkt) 10 [0])) 11 0 = Some (set_vis pkt (splice (vis pkt) 10 [0, 0]))"
    using wr_vis [of "set_vis pkt (splice (vis pkt) 10 [0])" 11 0] wf l splice_two [of 10 "vis pkt" 0 0] by simp
  have p1: "put16 (set_vis pkt (splice (vis pkt) 10 [0, 0])) 2 (of_nat (slen pkt)) = Some (set_vis pkt h)"
    using put16_vis [of "set_vis pkt (splice (vis pkt) 10 [0, 0])" 2] wf l by (simp add: h_def)
  have lh: "length h = slen pkt" using wf l by (simp add: h_def)
  have s: "sub (set_vis pkt h) 0 (uint (of_nat (ip_len v6) :: byte)) = Some \<lparr>sarr = sarr (set_vis pkt h), slen = 20\<rparr>"
    using False wf l lh by (simp add: sub_def ip_len_def set_vis_def)
  have v: "vis \<lparr>sarr = sarr (set_vis pkt h), slen = 20\<rparr> = take 20 h"
    using l lh by (simp add: vis_def set_vis_def)
  have p2: "put16 (set_vis pkt h) 10 x = Some (set_vis pkt (splice h 10 (be16 x)))" for x
    using put16_vis [of "set_vis pkt h" 10] l lh by simp
  have "ip_fields en v6 (vis pkt) = splice h 10 (be16 (NOT (checksum en (take 20 h) 0)))"
    using False wf by (simp add: ip_fields_def h_def Let_def)
  then show ?thesis
    unfolding account_ip_def if_not_P [OF False] w1 w2 Option.bind.simps set_vis_simps(1) p1 s v p2 by simp
qed

text \<open>The checksum field receives the folded sum of the pseudo-header.\<close>

definition psum_at :: "endian \<Rightarrow> bool \<Rightarrow> byte \<Rightarrow> nat \<Rightarrow> byte list \<Rightarrow> byte list" where
  "psum_at en v6 proto at p = (let a = nat (src_addr_offset v6); n = nat (addr_len v6) in
     splice p at (be16 (checksum en [] (pseudoHeaderChecksumNoFold en proto (take n (drop a p)) (take n (drop (a + n) p))
       (of_nat (length p - ip_len v6))))))"

lemma length_psum_at [simp]: "at + 2 \<le> length p \<Longrightarrow> length (psum_at en v6 proto at p) = length p"
  by (simp add: psum_at_def Let_def)

lemma account_psum_ok:
  assumes wf: "wf_slice buf" and len: "off + ip_len v6 \<le> slen buf" "off + at + 2 \<le> slen buf" and at: "uint csumAt = int at"
  shows "account_psum en v6 proto (of_nat (ip_len v6)) csumAt (int off) buf
    = Some (set_vis buf (take off (vis buf) @ psum_at en v6 proto at (drop off (vis buf))))"
proof -
  obtain pkt where pkt: "sub_from buf (int off) = Some pkt" using sub_from_total [of off buf] wf len by auto
  have p: "wf_slice pkt" "vis pkt = drop off (vis buf)" "slen pkt = slen buf - off"
    using wf_sub_from [OF pkt wf] vis_sub_from [OF pkt] sub_from_eq [OF pkt] by auto
  define a where "a = nat (src_addr_offset v6)"
  define n where "n = nat (addr_len v6)"
  have an: "src_addr_offset v6 = int a" "addr_len v6 = int n" "a + n * 2 \<le> ip_len v6"
    by (simp_all add: a_def n_def src_addr_offset_def addr_len_def ip_len_def tun_consts)
  have s1: "sub buf (int off + int a) (int off + int a + int n) = Some \<lparr>sarr = drop (off + a) (sarr buf), slen = n\<rparr>"
    and s2: "sub buf (int off + int a + int n) (int off + int a + int n * 2) = Some \<lparr>sarr = drop (off + a + n) (sarr buf), slen = n\<rparr>"
    using sub_ok [of "off + a" "off + a + n" buf] sub_ok [of "off + a + n" "off + a + n * 2" buf] wf len an(3)
    by (auto simp: wf_slice_def)
  have v1: "vis \<lparr>sarr = drop (off + a) (sarr buf), slen = n\<rparr> = take n (drop a (drop off (vis buf)))"
    and v2: "vis \<lparr>sarr = drop (off + a + n) (sarr buf), slen = n\<rparr> = take n (drop (a + n) (drop off (vis buf)))"
    using vis_sub [of buf "off + a" n] vis_sub [of buf "off + a + n" n] wf len an(3) by (simp_all add: ac_simps)
  have u: "(of_int (int (slen pkt) - uint (of_nat (ip_len v6) :: byte)) :: u16) = of_nat (slen pkt - ip_len v6)"
    using len p(3) by (simp add: ip_len_def)
  define P where "P = drop off (vis buf)"
  have lP: "length P = slen pkt" using p wf by (simp add: P_def)
  have pp: "put16 pkt (int at) v = Some (set_vis pkt (splice P at (be16 v)))" for v
    using put16_vis [OF p(1), of at] p len by (simp add: P_def)
  have pb: "put_back buf (int off) (set_vis pkt (splice P at (be16 v))) = set_vis buf (take off (vis buf) @ splice P at (be16 v))" for v
    by (rule put_back_vis [OF wf _ pkt]) (use lP p len in simp_all)
  show ?thesis
    unfolding account_psum_def Let_def an(1,2) s1 s2 pkt Option.bind.simps v1 v2 u at P_def [symmetric] pp pb
    unfolding psum_at_def Let_def an(1,2) nat_int lP ..
qed

text \<open>A frame in a buffer: the virtio header in front of the packet at \<open>off\<close>.\<close>

definition framed :: "endian \<Rightarrow> virtioNetHdr \<Rightarrow> nat \<Rightarrow> byte list \<Rightarrow> gslice \<Rightarrow> gslice" where
  "framed en h off p buf = set_vis buf (take (off - 10) (vis buf) @ hdr_bytes en h @ p)"

lemma framed_simps [simp]:
  assumes "wf_slice buf" "10 \<le> off" "off + length p = slen buf"
  shows "slen (framed en h off p buf) = slen buf" "wf_slice (framed en h off p buf)"
    "vis (framed en h off p buf) = take (off - 10) (vis buf) @ hdr_bytes en h @ p"
    "drop off (vis (framed en h off p buf)) = p" "drop (off - 10) (vis (framed en h off p buf)) = hdr_bytes en h @ p"
    "set_vis (framed en h off p buf) bs = set_vis buf bs"
    "take off (vis (framed en h off p buf)) = take (off - 10) (vis buf) @ hdr_bytes en h"
proof -
  have l: "length (take (off - 10) (vis buf) @ hdr_bytes en h @ p) = slen buf" using assms by simp
  then show "slen (framed en h off p buf) = slen buf" "wf_slice (framed en h off p buf)"
    and v: "vis (framed en h off p buf) = take (off - 10) (vis buf) @ hdr_bytes en h @ p"
    using assms by (simp_all add: framed_def)
  show "drop off (vis (framed en h off p buf)) = p" "drop (off - 10) (vis (framed en h off p buf)) = hdr_bytes en h @ p"
    "take off (vis (framed en h off p buf)) = take (off - 10) (vis buf) @ hdr_bytes en h"
    unfolding v using assms by simp_all
  show "set_vis (framed en h off p buf) bs = set_vis buf bs"
    using l unfolding framed_def by (simp add: set_vis_def) (simp add: hidden_def)
qed

lemma with_hdr_framed: "wf_slice buf \<Longrightarrow> 10 \<le> off \<Longrightarrow> off \<le> slen buf \<Longrightarrow> with_hdr en h off buf = framed en h off (drop off (vis buf)) buf"
  by (simp add: with_hdr_vis framed_def)

text \<open>The steps that both transports share.\<close>

lemma account_start:
  assumes wf: "wf_slice buf" and off: "10 \<le> off" "off + ip_len v6 \<le> slen buf" and ip: "iphL = of_nat (ip_len v6)"
  obtains pkt where "sub_from buf (int off) = Some pkt" "account_ip en v6 iphL pkt = Some (set_vis pkt (ip_fields en v6 (drop off (vis buf))))"
    "encode_at en h (int off) (put_back buf (int off) (set_vis pkt (ip_fields en v6 (drop off (vis buf)))))
      = Some (Inr (framed en h off (ip_fields en v6 (drop off (vis buf))) buf))"
proof -
  obtain pkt where pkt: "sub_from buf (int off) = Some pkt" using sub_from_total [of off buf] wf off by auto
  have p: "wf_slice pkt" "vis pkt = drop off (vis buf)" "slen pkt = slen buf - off"
    using wf_sub_from [OF pkt wf] vis_sub_from [OF pkt] sub_from_eq [OF pkt] by auto
  define q where "q = ip_fields en v6 (drop off (vis buf))"
  have lq: "length q = slen pkt" using wf off p(3) by (simp add: q_def)
  have a: "account_ip en v6 iphL pkt = Some (set_vis pkt q)"
    unfolding ip using account_ip_ok [OF p(1), of v6 en] p(2,3) off by (simp add: q_def)
  have pb: "put_back buf (int off) (set_vis pkt q) = set_vis buf (take off (vis buf) @ q)"
    by (rule put_back_vis [OF wf _ pkt lq]) (use off in simp)
  have l: "length (take off (vis buf) @ q) = slen buf" using wf off lq p(3) by simp
  have "encode_at en h (int off) (set_vis buf (take off (vis buf) @ q)) = Some (Inr (with_hdr en h off (set_vis buf (take off (vis buf) @ q))))"
    by (rule encode_at_ok) (use l off in simp_all)
  also have "with_hdr en h off (set_vis buf (take off (vis buf) @ q)) = framed en h off q buf"
    using l off wf by (simp add: with_hdr_vis framed_def)
  finally show thesis using that [OF pkt] a pb by (simp add: q_def)
qed

definition tcp_accounted :: "endian \<Rightarrow> bool \<Rightarrow> byte list \<Rightarrow> byte list" where
  "tcp_accounted en v6 p = psum_at en v6 IPPROTO_TCP (ip_len v6 + 16) (ip_fields en v6 p)"

lemma account_tcp_buf_ok:
  assumes wf: "wf_slice buf" and off: "10 \<le> off" "off + ip_len v6 + 20 \<le> slen buf"
    and x: "isV6 (key x) = v6" "unat (iphLen x) = ip_len v6"
  shows "account_tcp_buf en (int off) x buf = Some (
    if numMerged x > 0 then framed en (tcp_gro_hdr x) off (tcp_accounted en v6 (drop off (vis buf))) buf
    else framed en zero_hdr off (drop off (vis buf)) buf, Inr ())"
proof (cases "numMerged x > 0")
  case False
  then show ?thesis
    using encode_at_ok [OF wf off(1), of en zero_hdr] with_hdr_framed [OF wf off(1)] off(2) by (simp add: account_tcp_buf_def)
next
  case True
  have ip: "iphLen x = of_nat (ip_len v6)" by (simp flip: x(2))
  obtain pkt where s: "sub_from buf (int off) = Some pkt" "account_ip en v6 (iphLen x) pkt = Some (set_vis pkt (ip_fields en v6 (drop off (vis buf))))"
    "encode_at en (tcp_gro_hdr x) (int off) (put_back buf (int off) (set_vis pkt (ip_fields en v6 (drop off (vis buf)))))
      = Some (Inr (framed en (tcp_gro_hdr x) off (ip_fields en v6 (drop off (vis buf))) buf))"
    using account_start [OF wf off(1) _ ip, of en "tcp_gro_hdr x"] off(2) by auto
  define q where "q = ip_fields en v6 (drop off (vis buf))"
  have lq: "off + length q = slen buf" using wf off by (simp add: q_def)
  have at: "uint (csumStart (tcp_gro_hdr x) + csumOffset (tcp_gro_hdr x)) = int (ip_len v6 + 16)"
    by (simp add: tcp_gro_hdr_def ip ip_len_def)
  have "account_psum en v6 IPPROTO_TCP (of_nat (ip_len v6)) (csumStart (tcp_gro_hdr x) + csumOffset (tcp_gro_hdr x)) (int off)
      (framed en (tcp_gro_hdr x) off q buf) = Some (framed en (tcp_gro_hdr x) off (tcp_accounted en v6 (drop off (vis buf))) buf)"
    by (subst account_psum_ok [OF _ _ _ at]) (use wf off lq in \<open>simp_all add: framed_def tcp_accounted_def flip: q_def\<close>)
  with True show ?thesis
    unfolding account_tcp_buf_def by (simp add: s(1) s(2,3) [folded q_def, unfolded ip] x ip Let_def)
qed

definition udp_accounted :: "endian \<Rightarrow> bool \<Rightarrow> byte list \<Rightarrow> byte list" where
  "udp_accounted en v6 p = psum_at en v6 IPPROTO_UDP (ip_len v6 + 6)
     (splice (ip_fields en v6 p) (ip_len v6 + 4) (be16 (of_nat (length p - ip_len v6))))"

lemma account_udp_buf_ok:
  assumes wf: "wf_slice buf" and off: "10 \<le> off" "off + ip_len v6 + 8 \<le> slen buf"
    and x: "isV6 (key x) = v6" "unat (iphLen x) = ip_len v6"
  shows "account_udp_buf en (int off) x buf = Some (
    if numMerged x > 0 then framed en (udp_gro_hdr x) off (udp_accounted en v6 (drop off (vis buf))) buf
    else framed en zero_hdr off (drop off (vis buf)) buf, Inr ())"
proof (cases "numMerged x > 0")
  case False
  then show ?thesis
    using encode_at_ok [OF wf off(1), of en zero_hdr] with_hdr_framed [OF wf off(1)] off(2) by (simp add: account_udp_buf_def)
next
  case True
  have ip: "iphLen x = of_nat (ip_len v6)" by (simp flip: x(2))
  obtain pkt where s: "sub_from buf (int off) = Some pkt" "account_ip en v6 (iphLen x) pkt = Some (set_vis pkt (ip_fields en v6 (drop off (vis buf))))"
    "encode_at en (udp_gro_hdr x) (int off) (put_back buf (int off) (set_vis pkt (ip_fields en v6 (drop off (vis buf)))))
      = Some (Inr (framed en (udp_gro_hdr x) off (ip_fields en v6 (drop off (vis buf))) buf))"
    using account_start [OF wf off(1) _ ip, of en "udp_gro_hdr x"] off(2) by auto
  define q where "q = ip_fields en v6 (drop off (vis buf))"
  define F where "F = framed en (udp_gro_hdr x) off q buf"
  have lq: "off + length q = slen buf" using wf off by (simp add: q_def)
  have F: "wf_slice F" "slen F = slen buf" "drop off (vis F) = q" using framed_simps [OF wf off(1) lq] by (simp_all add: F_def)
  obtain pk where pk: "sub_from F (int off) = Some pk" using sub_from_total [of off F] F off by auto
  have p: "wf_slice pk" "vis pk = q" "slen pk = slen buf - off"
    using wf_sub_from [OF pk F(1)] vis_sub_from [OF pk] sub_from_eq [OF pk] F by auto
  have u: "uint (of_nat (ip_len v6) :: byte) = int (ip_len v6)" "uint (of_nat (ip_len v6) + 4 :: byte) = int (ip_len v6 + 4)"
    by (simp_all add: ip_len_def)
  have t: "sub_from pk (int (ip_len v6)) = Some \<lparr>sarr = drop (ip_len v6) (sarr pk), slen = slen pk - ip_len v6\<rparr>"
    by (rule sub_from_ok) (use p off in auto)
  define q' where "q' = splice q (ip_len v6 + 4) (be16 (of_nat (slen pk - ip_len v6)))"
  have lq': "off + length q' = slen buf" unfolding q'_def by (subst length_splice) (use lq off in simp_all)
  have w: "put16 pk (int (ip_len v6 + 4)) (of_nat (slen pk - ip_len v6)) = Some (set_vis pk q')"
    using put16_vis [OF p(1), of "ip_len v6 + 4"] p(2,3) off by (simp add: q'_def)
  have "put_back F (int off) (set_vis pk q') = set_vis F (take off (vis F) @ q')"
    by (rule put_back_vis [OF F(1) _ pk]) (use F p off lq' in simp_all)
  also have "\<dots> = framed en (udp_gro_hdr x) off q' buf"
    using framed_simps [OF wf off(1) lq, of en "udp_gro_hdr x"] by (simp add: F_def framed_def)
  finally have pb: "put_back F (int off) (set_vis pk q') = framed en (udp_gro_hdr x) off q' buf" .
  have at: "uint (csumStart (udp_gro_hdr x) + csumOffset (udp_gro_hdr x)) = int (ip_len v6 + 6)"
    by (simp add: udp_gro_hdr_def ip ip_len_def)
  have q': "psum_at en v6 IPPROTO_UDP (ip_len v6 + 6) q' = udp_accounted en v6 (drop off (vis buf))"
    using wf p(3) by (simp add: q'_def udp_accounted_def q_def)
  have "account_psum en v6 IPPROTO_UDP (of_nat (ip_len v6)) (csumStart (udp_gro_hdr x) + csumOffset (udp_gro_hdr x)) (int off)
      (framed en (udp_gro_hdr x) off q' buf) = Some (framed en (udp_gro_hdr x) off (udp_accounted en v6 (drop off (vis buf))) buf)"
    by (subst account_psum_ok [OF _ _ _ at]) (use wf off lq' q' in \<open>simp_all add: framed_def\<close>)
  with True show ?thesis
    unfolding account_udp_buf_def
    by (simp only: s(1) s(2,3) [folded q_def, unfolded ip] x ip Let_def Option.bind.simps if_True sum.case F_def [symmetric] pk u t w pb gslice.simps)
qed

section \<open>The accounting of a table\<close>

lemma account_items_ok:
  fixes acc :: "int \<Rightarrow> ('k, 'b) gro_item_scheme \<Rightarrow> gslice \<Rightarrow> (gslice \<times> (go_error + unit)) option"
  assumes "\<forall>x\<in>set items. unat (bufsIndex x) < length bufs \<and>
      acc offset x (bufs ! unat (bufsIndex x)) = Some (f x (bufs ! unat (bufsIndex x)), Inr ())"
    and "distinct (map bufsIndex items)"
  shows "\<exists>bufs'. account_items acc bufsIndex offset items bufs = Some (bufs', Inr ()) \<and> length bufs' = length bufs \<and>
    (\<forall>x\<in>set items. bufs' ! unat (bufsIndex x) = f x (bufs ! unat (bufsIndex x))) \<and>
    (\<forall>j. (\<forall>x\<in>set items. unat (bufsIndex x) \<noteq> j) \<longrightarrow> bufs' ! j = bufs ! j)"
  using assms
proof (induction items arbitrary: bufs)
  case (Cons x items)
  define i where "i = unat (bufsIndex x)"
  define bufs1 where "bufs1 = bufs[i := f x (bufs ! i)]"
  have i: "i < length bufs" "acc offset x (bufs ! i) = Some (f x (bufs ! i), Inr ())" "uint (bufsIndex x) = int i"
    using Cons.prems(1) by (auto simp: i_def)
  have ne: "\<forall>y\<in>set items. unat (bufsIndex y) \<noteq> i" using Cons.prems(2) by (auto simp: i_def simp flip: word_unat_eq_iff) (metis imageI)
  have "\<forall>y\<in>set items. unat (bufsIndex y) < length bufs1 \<and>
      acc offset y (bufs1 ! unat (bufsIndex y)) = Some (f y (bufs1 ! unat (bufsIndex y)), Inr ())"
    using Cons.prems(1) ne by (auto simp: bufs1_def)
  moreover have "distinct (map bufsIndex items)" using Cons.prems(2) by simp
  ultimately obtain bufs' where b: "account_items acc bufsIndex offset items bufs1 = Some (bufs', Inr ())" "length bufs' = length bufs1"
      "\<forall>y\<in>set items. bufs' ! unat (bufsIndex y) = f y (bufs1 ! unat (bufsIndex y))"
      "\<forall>j. (\<forall>y\<in>set items. unat (bufsIndex y) \<noteq> j) \<longrightarrow> bufs' ! j = bufs1 ! j"
    using Cons.IH [of bufs1] by blast
  have run: "account_items acc bufsIndex offset (x # items) bufs = Some (bufs', Inr ())"
    using elem_ok [OF i(1)] set_elem_ok [OF i(1)] b(1) i(2) by (simp add: i(3) bufs1_def)
  have own: "bufs' ! i = f x (bufs ! i)" using b(4) ne i(1) by (simp add: bufs1_def)
  show ?case
    using run own b(2-4) ne by (intro exI [of _ bufs']) (auto simp: bufs1_def simp flip: i_def)
qed simp

text \<open>What the accounting makes of the buffer of an item.\<close>

definition tcp_frame :: "endian \<Rightarrow> nat \<Rightarrow> tcpGROItem \<Rightarrow> gslice \<Rightarrow> gslice" where
  "tcp_frame en off x buf = (if numMerged x > 0
     then framed en (tcp_gro_hdr x) off (tcp_accounted en (isV6 (key x)) (drop off (vis buf))) buf
     else framed en zero_hdr off (drop off (vis buf)) buf)"

definition udp_frame :: "endian \<Rightarrow> nat \<Rightarrow> udpGROItem \<Rightarrow> gslice \<Rightarrow> gslice" where
  "udp_frame en off x buf = (if numMerged x > 0
     then framed en (udp_gro_hdr x) off (udp_accounted en (isV6 (key x)) (drop off (vis buf))) buf
     else framed en zero_hdr off (drop off (vis buf)) buf)"

lemma accounted_length:
  "ip_len v6 + 20 \<le> length p \<Longrightarrow> length (tcp_accounted en v6 p) = length p"
  "ip_len v6 + 8 \<le> length p \<Longrightarrow> length (udp_accounted en v6 p) = length p"
  by (simp_all add: tcp_accounted_def udp_accounted_def)

lemma tcp_frame_ok:
  assumes "wf_slice buf" "10 \<le> off" "off + ip_len (isV6 (key x)) + 20 \<le> slen buf"
  shows "slen (tcp_frame en off x buf) = slen buf" "wf_slice (tcp_frame en off x buf)"
proof -
  have l: "off + length (tcp_accounted en (isV6 (key x)) (drop off (vis buf))) = slen buf" "off + length (drop off (vis buf)) = slen buf"
    using assms by (simp_all add: accounted_length)
  show "slen (tcp_frame en off x buf) = slen buf" "wf_slice (tcp_frame en off x buf)"
    using framed_simps [OF assms(1,2) l(1)] framed_simps [OF assms(1,2) l(2)] by (simp_all add: tcp_frame_def)
qed

lemma udp_frame_ok:
  assumes "wf_slice buf" "10 \<le> off" "off + ip_len (isV6 (key x)) + 8 \<le> slen buf"
  shows "slen (udp_frame en off x buf) = slen buf" "wf_slice (udp_frame en off x buf)"
proof -
  have l: "off + length (udp_accounted en (isV6 (key x)) (drop off (vis buf))) = slen buf" "off + length (drop off (vis buf)) = slen buf"
    using assms by (simp_all add: accounted_length)
  show "slen (udp_frame en off x buf) = slen buf" "wf_slice (udp_frame en off x buf)"
    using framed_simps [OF assms(1,2) l(1)] framed_simps [OF assms(1,2) l(2)] by (simp_all add: udp_frame_def)
qed

text \<open>The buffers after the accounting of both tables.\<close>

definition gro_accounted :: "endian \<Rightarrow> nat \<Rightarrow> gro_state \<Rightarrow> gslice list \<Rightarrow> bool" where
  "gro_accounted en off st bufs' \<longleftrightarrow> length bufs' = length (gBufs st) \<and>
     (\<forall>x\<in>set (tbl_items (gTcp st)). bufs' ! unat (bufsIndex x) = tcp_frame en off x (gBufs st ! unat (bufsIndex x))) \<and>
     (\<forall>x\<in>set (tbl_items (gUdp st)). bufs' ! unat (bufsIndex x) = udp_frame en off x (gBufs st ! unat (bufsIndex x))) \<and>
     (\<forall>j. (\<forall>x\<in>set (tbl_items (gTcp st)). unat (bufsIndex x) \<noteq> j) \<longrightarrow> (\<forall>x\<in>set (tbl_items (gUdp st)). unat (bufsIndex x) \<noteq> j) \<longrightarrow>
        bufs' ! j = gBufs st ! j)"

lemma distinct_subset_mset: "mset xs \<subseteq># mset ys \<Longrightarrow> distinct ys \<Longrightarrow> distinct xs"
proof -
  assume "mset xs \<subseteq># mset ys" and ys: "distinct ys"
  then obtain M where "mset ys = mset xs + M" by (auto simp: mset_subset_eq_exists_conv)
  moreover obtain zs where "mset zs = M" using ex_mset by blast
  ultimately have "mset (xs @ zs) = mset ys" by simp
  then have "distinct (xs @ zs)" using ys mset_eq_imp_distinct_iff by blast
  then show "distinct xs" by simp
qed

lemma accounting_ok:
  assumes inv: "gro_inv off bufs0 (length bufs0) st" and off: "10 \<le> off"
  shows "\<exists>bufs1 bufs'. applyTCPCoalesceAccounting en (gBufs st) (int off) (gTcp st) = Some (bufs1, Inr ()) \<and>
    applyUDPCoalesceAccounting en bufs1 (int off) (gUdp st) = Some (bufs', Inr ()) \<and> gro_accounted en off st bufs'"
proof -
  define n where "n = length bufs0"
  have tcp: "tcp_kept off n (gBufs st) x" if "x \<in> set (tbl_items (gTcp st))" for x
    using tbl_inv_items [OF _ that] inv by (auto simp: gro_inv_def n_def)
  have udp: "udp_kept off n (gBufs st) x" if "x \<in> set (tbl_items (gUdp st))" for x
    using tbl_inv_items [OF _ that] inv by (auto simp: gro_inv_def n_def)
  have wf: "\<forall>b\<in>set (gBufs st). wf_slice b" using inv by (simp add: gro_inv_def)
  have tw: "distinct (gToWrite st)" using inv by (auto simp: gro_inv_def strict_sorted_iff)
  have "mset (map (\<lambda>x. uint (bufsIndex x)) (tbl_items (gTcp st)) @ map (\<lambda>x. uint (bufsIndex x)) (tbl_items (gUdp st))) \<subseteq># mset (gToWrite st)"
    using inv by (simp add: gro_inv_def owned_def multiset.map_comp comp_def)
  from distinct_subset_mset [OF this tw]
  have d: "distinct (map bufsIndex (tbl_items (gTcp st)))" "distinct (map bufsIndex (tbl_items (gUdp st)))"
    and dis: "\<And>x y. x \<in> set (tbl_items (gTcp st)) \<Longrightarrow> y \<in> set (tbl_items (gUdp st)) \<Longrightarrow> bufsIndex x \<noteq> bufsIndex y"
    by (auto simp: distinct_map inj_on_def)
  have at: "\<forall>x\<in>set (tbl_items (gTcp st)). unat (bufsIndex x) < length (gBufs st) \<and>
      account_tcp_buf en (int off) x (gBufs st ! unat (bufsIndex x)) = Some (tcp_frame en off x (gBufs st ! unat (bufsIndex x)), Inr ())"
  proof
    fix x assume "x \<in> set (tbl_items (gTcp st))"
    then have k: "tcp_item_ok off (gBufs st) x" using tcp by (simp add: tcp_kept_def)
    then have b: "unat (bufsIndex x) < length (gBufs st)" "unat (iphLen x) = ip_len (isV6 (key x))"
      "off + ip_len (isV6 (key x)) + 20 \<le> slen (gBufs st ! unat (bufsIndex x))"
      by (auto simp: tcp_item_ok_def ip_len_def)
    then show "unat (bufsIndex x) < length (gBufs st) \<and>
      account_tcp_buf en (int off) x (gBufs st ! unat (bufsIndex x)) = Some (tcp_frame en off x (gBufs st ! unat (bufsIndex x)), Inr ())"
      using account_tcp_buf_ok [OF _ off b(3) refl b(2)] wf by (simp add: tcp_frame_def)
  qed
  obtain bufs1 where b1: "applyTCPCoalesceAccounting en (gBufs st) (int off) (gTcp st) = Some (bufs1, Inr ())" "length bufs1 = length (gBufs st)"
      "\<forall>x\<in>set (tbl_items (gTcp st)). bufs1 ! unat (bufsIndex x) = tcp_frame en off x (gBufs st ! unat (bufsIndex x))"
      "\<forall>j. (\<forall>x\<in>set (tbl_items (gTcp st)). unat (bufsIndex x) \<noteq> j) \<longrightarrow> bufs1 ! j = gBufs st ! j"
    using account_items_ok [where f = "tcp_frame en off" and acc = "account_tcp_buf en" and bufs = "gBufs st" and offset = "int off", OF at d(1)] by (auto simp: applyTCPCoalesceAccounting_def)
  have same: "bufs1 ! unat (bufsIndex y) = gBufs st ! unat (bufsIndex y)" if "y \<in> set (tbl_items (gUdp st))" for y
    using b1(4) dis [OF _ that] by (auto simp: word_unat_eq_iff)
  have au: "\<forall>x\<in>set (tbl_items (gUdp st)). unat (bufsIndex x) < length bufs1 \<and>
      account_udp_buf en (int off) x (bufs1 ! unat (bufsIndex x)) = Some (udp_frame en off x (bufs1 ! unat (bufsIndex x)), Inr ())"
  proof
    fix x assume x: "x \<in> set (tbl_items (gUdp st))"
    then have k: "udp_item_ok off (gBufs st) x" using udp by (simp add: udp_kept_def)
    then have b: "unat (bufsIndex x) < length bufs1" "unat (iphLen x) = ip_len (isV6 (key x))"
      "off + ip_len (isV6 (key x)) + 8 \<le> slen (gBufs st ! unat (bufsIndex x))"
      by (auto simp: udp_item_ok_def ip_len_def b1(2))
    then show "unat (bufsIndex x) < length bufs1 \<and>
      account_udp_buf en (int off) x (bufs1 ! unat (bufsIndex x)) = Some (udp_frame en off x (bufs1 ! unat (bufsIndex x)), Inr ())"
      using account_udp_buf_ok [OF _ off b(3) refl b(2)] wf b1(2) by (simp add: udp_frame_def same [OF x])
  qed
  obtain bufs' where b2: "applyUDPCoalesceAccounting en bufs1 (int off) (gUdp st) = Some (bufs', Inr ())" "length bufs' = length bufs1"
      "\<forall>x\<in>set (tbl_items (gUdp st)). bufs' ! unat (bufsIndex x) = udp_frame en off x (bufs1 ! unat (bufsIndex x))"
      "\<forall>j. (\<forall>x\<in>set (tbl_items (gUdp st)). unat (bufsIndex x) \<noteq> j) \<longrightarrow> bufs' ! j = bufs1 ! j"
    using account_items_ok [where f = "udp_frame en off" and acc = "account_udp_buf en" and bufs = bufs1 and offset = "int off", OF au d(2)]
    by (auto simp: applyUDPCoalesceAccounting_def)
  have other: "bufs' ! unat (bufsIndex x) = bufs1 ! unat (bufsIndex x)" if "x \<in> set (tbl_items (gTcp st))" for x
    using b2(4) dis [OF that] by (metis word_unat_eq_iff)
  have "gro_accounted en off st bufs'"
    unfolding gro_accounted_def using b1(2-4) b2(2-4) other same by simp
  with b1(1) b2(1) show ?thesis by blast
qed

section \<open>The batch\<close>

text \<open>The state of a \<open>Write\<close> before its first packet: tables without flows, all 128 slices in the pools.\<close>

definition tables_fresh :: "tcpGROTable \<Rightarrow> udpGROTable \<Rightarrow> bool" where
  "tables_fresh t u \<longleftrightarrow> tbl_inv key (\<lambda>_. True) 0 t \<and> tbl_inv key (\<lambda>_. True) 0 u"

lemma fresh_lookup: "tbl_inv kf P 0 t \<Longrightarrow> tbl_lookup t k = None \<and> tbl_items t = []"
  by (simp add: tbl_inv_def tbl_lookup_def tbl_items_def)

lemma fresh_inv: "tbl_inv kf P 0 t \<Longrightarrow> tbl_inv kf Q 0 t"
  using fresh_lookup [of kf P t] by (auto simp: tbl_inv_def)

lemma gro_inv_start:
  assumes "\<forall>b\<in>set bufs. wf_slice b" "tables_fresh t u"
  shows "gro_inv off bufs 0 \<lparr>gBufs = bufs, gTcp = t, gUdp = u, gToWrite = []\<rparr>"
  using assms fresh_inv [of key _ t] fresh_inv [of key _ u] fresh_lookup [of key _ t] fresh_lookup [of key _ u]
  by (auto simp: gro_inv_def tables_fresh_def owned_def)

lemma handleGRO_returns:
  assumes wf: "\<forall>b\<in>set bufs. wf_slice b" and fresh: "tables_fresh t u" and n: "length bufs \<le> 128"
  shows "returns (handleGRO en offset can \<lparr>gBufs = bufs, gTcp = t, gUdp = u, gToWrite = []\<rparr>) (\<lambda>(st', errs).
    (if \<exists>b\<in>set bufs. bad_offset offset b
     then errs = [ErrInvalidOffset] \<and> (\<exists>i<length bufs. bad_offset offset (bufs ! i) \<and> gro_inv (nat offset) bufs i st')
     else errs = [] \<and> (\<exists>st bufs'. gro_inv (nat offset) bufs (length bufs) st \<and>
       (bufs \<noteq> [] \<longrightarrow> gro_accounted en (nat offset) st bufs') \<and> (bufs = [] \<longrightarrow> bufs' = []) \<and>
       st' = st\<lparr>gBufs := bufs'\<rparr>)))"
proof -
  define st0 where "st0 = \<lparr>gBufs = bufs, gTcp = t, gUdp = u, gToWrite = []\<rparr>"
  have st0: "gro_inv (nat offset) bufs 0 st0" "gBufs st0 = bufs" using gro_inv_start [OF wf fresh] by (simp_all add: st0_def)
  obtain st1 r where lp: "gro_loop en offset can (length bufs) 0 st0 = Some (st1, r)"
    and o: "case r of
      Inl e \<Rightarrow> e = ErrInvalidOffset \<and> (\<exists>j<length bufs. bad_offset offset (bufs ! j) \<and> gro_inv (nat offset) bufs j st1)
    | Inr _ \<Rightarrow> (\<forall>j<length bufs. \<not> bad_offset offset (bufs ! j)) \<and> gro_inv (nat offset) bufs (length bufs) st1"
    using gro_loop_returns [OF st0(1), of "length bufs" en can] n by (auto simp: returns_iff)
  show ?thesis
  proof (cases r)
    case (Inl e)
    then show ?thesis using o lp st0(2) unfolding handleGRO_def st0_def [symmetric]
      by (auto simp: returns_def)
  next
    case (Inr v)
    then have ok: "\<not> (\<exists>b\<in>set bufs. bad_offset offset b)" and inv: "gro_inv (nat offset) bufs (length bufs) st1"
      using o by (auto simp: in_set_conv_nth)
    show ?thesis
    proof (cases "bufs = []")
      case True
      have e: "st1 = st0" using lp True by simp
      have "tbl_items t = []" "tbl_items u = []" using fresh fresh_lookup [of key "\<lambda>_. True" t] fresh_lookup [of key "\<lambda>_. True" u]
        by (simp_all add: tables_fresh_def)
      then show ?thesis
        using lp True inv Inr by (auto simp: handleGRO_def st0_def [symmetric] returns_def e
            applyTCPCoalesceAccounting_def applyUDPCoalesceAccounting_def) (auto simp: st0_def)
    next
      case False
      then have "10 \<le> nat offset" "int (nat offset) = offset" using ok
        by (cases bufs; auto simp: bad_offset_def virtioNetHdrLen_def)+
      then obtain bufs1 bufs' where "applyTCPCoalesceAccounting en (gBufs st1) offset (gTcp st1) = Some (bufs1, Inr ())"
          "applyUDPCoalesceAccounting en bufs1 offset (gUdp st1) = Some (bufs', Inr ())" "gro_accounted en (nat offset) st1 bufs'"
        using accounting_ok [OF inv, of en] by auto
      then show ?thesis using lp False inv ok Inr st0(2)
        by (auto simp: handleGRO_def st0_def [symmetric] returns_def)
    qed
  qed
qed

section \<open>Properties\<close>

text \<open>C2. A batch never panics and never leaks a slice: on at most 128 well-formed buffers and fresh tables, for any offset,
  \<open>handleGRO\<close> returns; it reports exactly the offsets without room for a virtio header and a byte of packet,
  \<^verbatim>\<open>toWrite\<close> is strictly increasing and in range, every tracked packet is in \<^verbatim>\<open>toWrite\<close>, and no two tracked packets of
  either table share a buffer.\<close>

theorem handleGRO_invariant:
  assumes "\<forall>b\<in>set bufs. wf_slice b" and "tables_fresh t u" and "length bufs \<le> 128"
  shows "case handleGRO en offset can \<lparr>gBufs = bufs, gTcp = t, gUdp = u, gToWrite = []\<rparr> of
      None \<Rightarrow> False
    | Some (st', errs) \<Rightarrow>
        errs = (if \<exists>b\<in>set bufs. offset < 10 \<or> offset \<ge> int (slen b) then [ErrInvalidOffset] else []) \<and>
        length (gBufs st') = length bufs \<and>
        sorted_wrt (<) (gToWrite st') \<and> set (gToWrite st') \<subseteq> {0..<int (length bufs)} \<and>
        (let idx = map (\<lambda>x. uint (bufsIndex x)) (tbl_items (gTcp st')) @ map (\<lambda>x. uint (bufsIndex x)) (tbl_items (gUdp st'))
         in distinct idx \<and> set idx \<subseteq> set (gToWrite st')) \<and>
        length (itemsPool (gTcp st')) + length (itemsByFlow (gTcp st')) = 128 \<and>
        length (itemsPool (gUdp st')) + length (itemsByFlow (gUdp st')) = 128"
proof -
  obtain st' errs where run: "handleGRO en offset can \<lparr>gBufs = bufs, gTcp = t, gUdp = u, gToWrite = []\<rparr> = Some (st', errs)"
    and out: "if \<exists>b\<in>set bufs. bad_offset offset b
     then errs = [ErrInvalidOffset] \<and> (\<exists>i<length bufs. bad_offset offset (bufs ! i) \<and> gro_inv (nat offset) bufs i st')
     else errs = [] \<and> (\<exists>st bufs'. gro_inv (nat offset) bufs (length bufs) st \<and>
       (bufs \<noteq> [] \<longrightarrow> gro_accounted en (nat offset) st bufs') \<and> (bufs = [] \<longrightarrow> bufs' = []) \<and>
       st' = st\<lparr>gBufs := bufs'\<rparr>)"
    using handleGRO_returns [OF assms, of en offset can] by (auto simp: returns_iff)
  have bad: "bad_offset offset b \<longleftrightarrow> offset < 10 \<or> offset \<ge> int (slen b)" for b
    by (auto simp: bad_offset_def virtioNetHdrLen_def)
  obtain i st where st: "i \<le> length bufs" "gro_inv (nat offset) bufs i st" "gTcp st' = gTcp st" "gUdp st' = gUdp st"
      "gToWrite st' = gToWrite st" "length (gBufs st') = length bufs"
  proof (cases "\<exists>b\<in>set bufs. bad_offset offset b")
    case True
    then obtain i where "i < length bufs" "gro_inv (nat offset) bufs i st'" using out by auto
    then show thesis using that [of i st'] by (simp add: gro_inv_def)
  next
    case False
    then obtain st bufs' where s: "gro_inv (nat offset) bufs (length bufs) st" "bufs \<noteq> [] \<longrightarrow> gro_accounted en (nat offset) st bufs'"
        "bufs = [] \<longrightarrow> bufs' = []" "st' = st\<lparr>gBufs := bufs'\<rparr>" using out by auto
    then have "length bufs' = length bufs" by (cases "bufs = []") (simp_all add: gro_accounted_def gro_inv_def)
    with s show thesis using that [of "length bufs" st] by simp
  qed
  have errs: "errs = (if \<exists>b\<in>set bufs. bad_offset offset b then [ErrInvalidOffset] else [])" using out by (auto split: if_splits)
  define L where "L = map (\<lambda>x. uint (bufsIndex x)) (tbl_items (gTcp st')) @ map (\<lambda>x. uint (bufsIndex x)) (tbl_items (gUdp st'))"
  have sub: "mset L \<subseteq># mset (gToWrite st')"
    using st by (simp add: L_def gro_inv_def owned_def multiset.map_comp comp_def)
  have "distinct (gToWrite st')" using st by (auto simp: gro_inv_def strict_sorted_iff)
  then have "distinct L" "set L \<subseteq> set (gToWrite st')" using distinct_subset_mset [OF sub] set_mset_mono [OF sub] by auto
  moreover have "sorted_wrt (<) (gToWrite st')" "set (gToWrite st') \<subseteq> {0..<int (length bufs)}"
    using st by (auto simp: gro_inv_def)
  moreover have "length (itemsPool (gTcp st')) + length (itemsByFlow (gTcp st')) = 128"
      "length (itemsPool (gUdp st')) + length (itemsByFlow (gUdp st')) = 128"
    using st by (simp_all add: gro_inv_def tbl_inv_def)
  ultimately show ?thesis using st(6) errs unfolding run bad option.case prod.case Let_def L_def by blast
qed

theorem handleGRO_invariant_witness:
  "\<exists>st'. handleGRO LittleEndian 10 True \<lparr>gBufs = [of_bytes (replicate 40 0x45), of_bytes (replicate 10 0)],
      gTcp = newTCPGROTable, gUdp = newUDPGROTable, gToWrite = []\<rparr> = Some (st', [ErrInvalidOffset])
    \<and> length (gBufs st') = 2"
proof -
  have f: "tables_fresh newTCPGROTable newUDPGROTable"
    by (simp add: tables_fresh_def newTCPGROTable_def newUDPGROTable_def tbl_inv_new)
  show ?thesis
    using handleGRO_invariant [of "[of_bytes (replicate 40 0x45), of_bytes (replicate 10 0)]" newTCPGROTable newUDPGROTable 10 LittleEndian True, OF _ f]
    by (auto split: option.splits)
qed

end
