(* ===== verification/Gro_Frames.thy ===== *)
theory Gro_Frames
  imports Gro_Batch Gso_Segments
begin

text \<open>
  The frames \<open>handleGRO\<close> hands to the device (\<^verbatim>\<open>apply*CoalesceAccounting\<close> of \<^verbatim>\<open>offload_linux.go\<close>): the fields
  of a coalesced packet, and its partial checksum, which the receiver of the frame completes with
  \<open>gsoNoneChecksum\<close>.
\<close>

section \<open>The partial checksum\<close>

lemma src_dst_psum: "take (nat (addr_len v)) (drop (nat (src_addr_offset v)) p) = src_addr v p"
  "take (nat (addr_len v)) (drop (nat (src_addr_offset v) + nat (addr_len v)) p) = dst_addr v p"
  by (simp_all add: src_addr_def dst_addr_def src_addr_offset_def addr_len_def tun_consts)

lemma psum_at_eq: "psum_at en v6 proto at p
    = splice p at (be16 (checksum en [] (pseudoHeaderChecksumNoFold en proto (src_addr v6 p) (dst_addr v6 p) (of_nat (length p - ip_len v6)))))"
  by (simp add: psum_at_def Let_def src_dst_psum)

text \<open>A folded partial sum is as good as the sum itself.\<close>

lemma checksum_folded: "checksum en b (ucast (checksum en [] i)) = checksum en b i"
proof -
  have "unat (ucast (checksum en [] i) :: u64) = oc (unat i)"
    using oc_bound [of "unat i"] by (simp add: unsigned_ucast_eq unat_checksum take_bit_nat_eq_self)
  then have "unat (checksum en b (ucast (checksum en [] i))) = oc (oc (unat i) + be16_sum b)" by (simp add: unat_checksum)
  also have "\<dots> = oc (unat i + be16_sum b)" by (intro oc_cong oc_rel_add oc_rel_oc oc_rel_refl)
  finally show ?thesis by (simp add: word_unat_eq_iff unat_checksum)
qed

text \<open>Completing a packet prepared by \<open>psum_at\<close> gives a transport checksum that verifies.\<close>

lemma psum_completes:
  assumes p: "p = psum_at en v6 proto (ip_len v6 + co) q" and co: "even co" "co < 65536" "ip_len v6 + co + 2 \<le> length q"
  shows "\<exists>inp'. gsoNoneChecksum en (of_bytes p) (of_nat (ip_len v6)) (of_nat co) = Some (inp', Inr ()) \<and>
    (\<exists>w. vis inp' = splice p (ip_len v6 + co) (be16 w)) \<and>
    checksum en (drop (ip_len v6) (vis inp')) (pseudoHeaderChecksumNoFold en proto (src_addr v6 p) (dst_addr v6 p) (of_nat (length p - ip_len v6))) = 0xffff"
proof -
  define P where "P = pseudoHeaderChecksumNoFold en proto (src_addr v6 q) (dst_addr v6 q) (of_nat (length q - ip_len v6))"
  define w0 where "w0 = checksum en [] P"
  have p': "p = splice q (ip_len v6 + co) (be16 w0)" by (simp add: p psum_at_eq w0_def P_def)
  have lp: "length p = length q" using co by (simp add: p')
  have sa: "src_addr v6 p = src_addr v6 q" "dst_addr v6 p = dst_addr v6 q"
    using co by (auto simp: p' src_addr_def dst_addr_def ip_len_def take_drop_splice_other)
  have u: "unat (of_nat (ip_len v6) :: u16) = ip_len v6" "unat (of_nat co :: u16) = co"
    using co by (simp_all add: ip_len_def unat_of_nat take_bit_nat_eq_self)
  define d where "d = drop (ip_len v6) p"
  have f: "of_nat (field16 p (ip_len v6 + co)) = (ucast w0 :: u64)"
    using co by (simp add: p' field16_splice(2))
  have z: "drop (ip_len v6) (splice p (ip_len v6 + co) [0, 0]) = splice d co [0, 0]"
    using co lp by (simp add: d_def drop_splice_before)
  define w where "w = NOT (checksum en (splice d co [0, 0]) (ucast w0))"
  have v: "validateChecksumPosition (int (length p)) (of_nat (ip_len v6)) (of_nat co) = Inr ()"
    using co lp u by (simp add: validateChecksumPosition_Inr uint_nat del: of_nat_unat)
  have run: "gsoNoneChecksum en (of_bytes p) (of_nat (ip_len v6)) (of_nat co)
      = Some (of_bytes (splice p (ip_len v6 + co) (be16 w)), Inr ())"
    unfolding gsoNoneChecksum_eq [OF wf_of_bytes] slen_of_bytes v sum.case Let_def u vis_of_bytes z f w_def [symmetric]
    using co lp by (simp add: of_bytes_def)
  have "checksum en (splice d co (be16 w)) (ucast w0) = 0xffff"
    using go_checksum.csum_fill [OF co(1) _ refl, of d en "ucast w0"] co lp by (simp add: w_def d_def)
  moreover have "drop (ip_len v6) (splice p (ip_len v6 + co) (be16 w)) = splice d co (be16 w)"
    using co lp by (simp add: d_def drop_splice_before)
  ultimately show ?thesis using run by (auto simp: w0_def checksum_folded sa lp P_def)
qed

section \<open>The IP header\<close>

lemma ip_fields_facts:
  assumes "ip_len v6 \<le> length p" and "length p \<le> 65535"
  shows "\<not> v6 \<Longrightarrow> checksum en (take 20 (ip_fields en v6 p)) 0 = 0xffff"
    and "\<not> v6 \<Longrightarrow> field16 (ip_fields en v6 p) 2 = length p"
    and "v6 \<Longrightarrow> field16 (ip_fields en v6 p) 4 = length p - 40"
    and "drop (ip_len v6) (ip_fields en v6 p) = drop (ip_len v6) p"
    and "src_addr v6 (ip_fields en v6 p) = src_addr v6 p" "dst_addr v6 (ip_fields en v6 p) = dst_addr v6 p"
proof -
  have u: "unat (of_nat (length p) :: u16) = length p" using assms(2) by (simp add: unat_of_nat take_bit_nat_eq_self)
  define h where "h = splice (splice p 10 [0, 0]) 2 (be16 (of_nat (length p)))"
  have f4: "ip_fields en v6 p = splice h 10 (be16 (NOT (checksum en (take 20 h) 0)))" if "\<not> v6"
    using that by (simp add: ip_fields_def h_def Let_def)
  have f6: "ip_fields en v6 p = splice p 4 (be16 (of_nat (length p) - 40))" if v6 using that by (simp add: ip_fields_def)
  have l: "length h = length p" "20 \<le> length p" using assms(1) by (simp_all add: h_def ip_len_def split: if_splits)
  have z: "take 20 h = splice (take 20 h) 10 [0, 0]"
    using l by (intro nth_equalityI) (auto simp: h_def nth_splice numeral_eq_Suc less_Suc_eq)
  show "checksum en (take 20 (ip_fields en v6 p)) 0 = 0xffff" if "\<not> v6"
    using go_checksum.csum_fill [OF _ _ z, of en 0] l by (simp add: f4 [OF that] take_splice)
  show "field16 (ip_fields en v6 p) 2 = length p" if "\<not> v6"
    using l by (simp add: f4 [OF that] field16_splice(1)) (simp add: h_def field16_splice(2) u)
  show "field16 (ip_fields en v6 p) 4 = length p - 40" if v: v6
  proof -
    obtain n where n: "length p = 40 + n" using assms(1) v le_Suc_ex [of 40 "length p"] by (auto simp: ip_len_def)
    then have "unat (of_nat n :: u16) = n" using assms(2) by (simp add: unat_of_nat take_bit_nat_eq_self)
    then show ?thesis using n by (simp add: f6 [OF v] field16_splice(2))
  qed
  show "drop (ip_len v6) (ip_fields en v6 p) = drop (ip_len v6) p"
    using assms(1) l by (cases v6) (simp_all add: ip_fields_def Let_def ip_len_def)
  show "src_addr v6 (ip_fields en v6 p) = src_addr v6 p" "dst_addr v6 (ip_fields en v6 p) = dst_addr v6 p"
    using assms(1) l by (cases v6; simp add: ip_fields_def Let_def src_addr_def dst_addr_def ip_len_def take_drop_splice_other)+
qed

section \<open>Properties\<close>

text \<open>C9. The frame of a coalesced TCP packet is a valid GSO frame: in front of the packet stands the virtio header of the
  item (segment size, header length, where the checksum goes), the IP length field is the length of the packet, the IPv4
  header checksum verifies, and a receiver that completes the partial checksum with \<open>gsoNoneChecksum\<close> obtains a valid
  TCP checksum; payload and addresses are not touched.\<close>

theorem account_tcp_frame:
  assumes "wf_slice buf" and "10 \<le> off" and "off + (if isV6 (key x) then 40 else 20) + 20 \<le> slen buf"
    and "slen buf - off \<le> 65535" and "uint (iphLen x) = (if isV6 (key x) then 40 else 20)" and "numMerged x > 0"
  shows "\<exists>buf' p. account_tcp_buf en (int off) x buf = Some (buf', Inr ()) \<and> slen buf' = slen buf \<and>
    vis buf' = take (off - 10) (vis buf) @ hdr_bytes en (tcp_gro_hdr x) @ p \<and> length p = slen buf - off \<and>
    (let v6 = isV6 (key x); h = (if v6 then 40 else 20) in
     (if v6 then field16 p 4 = length p - 40 else field16 p 2 = length p \<and> checksum en (take 20 p) 0 = 0xffff) \<and>
     src_addr v6 p = src_addr v6 (drop off (vis buf)) \<and> dst_addr v6 p = dst_addr v6 (drop off (vis buf)) \<and>
     take 16 (drop h p) = take 16 (drop (off + h) (vis buf)) \<and> drop (h + 18) p = drop (off + h + 18) (vis buf) \<and>
     (\<exists>inp'. gsoNoneChecksum en (of_bytes p) (csumStart (tcp_gro_hdr x)) (csumOffset (tcp_gro_hdr x)) = Some (inp', Inr ()) \<and>
       checksum en (drop h (vis inp'))
         (pseudoHeaderChecksumNoFold en IPPROTO_TCP (src_addr v6 p) (dst_addr v6 p) (of_nat (length p - h))) = 0xffff))"
proof -
  define v6 where "v6 = isV6 (key x)"
  define P where "P = drop off (vis buf)"
  define q where "q = ip_fields en v6 P"
  define p where "p = tcp_accounted en v6 P"
  have h: "(if v6 then 40 else 20) = ip_len v6" by (simp add: ip_len_def)
  have ip: "unat (iphLen x) = ip_len v6" using assms(5) by (simp add: v6_def ip_len_def uint_nat del: of_nat_unat split: if_splits)
  have len: "off + ip_len v6 + 20 \<le> slen buf" using assms(3) by (simp add: h v6_def [symmetric])
  have lP: "length P = slen buf - off" using assms(1) by (simp add: P_def)
  then have lp: "ip_len v6 + 20 \<le> length P" "length P \<le> 65535" using len assms(4) by auto
  have lq: "length q = length P" and pl: "length p = length P" using lp by (simp_all add: q_def p_def accounted_length)
  have run: "account_tcp_buf en (int off) x buf = Some (framed en (tcp_gro_hdr x) off p buf, Inr ())"
    using account_tcp_buf_ok [OF assms(1,2) len v6_def [symmetric] ip, of en] assms(6) by (simp add: p_def P_def)
  have fr: "off + length p = slen buf" using lP pl len by simp
  have pq: "p = psum_at en v6 IPPROTO_TCP (ip_len v6 + 16) q" by (simp add: p_def q_def tcp_accounted_def)
  have ps: "p = splice q (ip_len v6 + 16) (be16 w)"
    if "w = checksum en [] (pseudoHeaderChecksumNoFold en IPPROTO_TCP (src_addr v6 q) (dst_addr v6 q) (of_nat (length q - ip_len v6)))" for w
    by (simp add: pq psum_at_eq that)
  then obtain w where w: "p = splice q (ip_len v6 + 16) (be16 w)" by blast
  note ipf = ip_fields_facts [of v6 P, OF _ lp(2), of en, folded q_def]
  have qv: "ip_len v6 \<le> length P" using lp by simp
  have hdr: "csumStart (tcp_gro_hdr x) = of_nat (ip_len v6)" "csumOffset (tcp_gro_hdr x) = of_nat 16"
    using ip by (simp_all add: tcp_gro_hdr_def) (simp add: word_unat_eq_iff unsigned_ucast_eq unat_of_nat ip_len_def)
  have "(if v6 then field16 p 4 = length p - 40 else field16 p 2 = length p \<and> checksum en (take 20 p) 0 = 0xffff)"
    using ipf(1-3) [OF qv] lp lq pl by (auto simp: w field16_splice(1) ip_len_def)
  moreover have sd: "src_addr v6 p = src_addr v6 P" "dst_addr v6 p = dst_addr v6 P"
    using ipf(5,6) [OF qv] lp lq by (cases v6; simp add: w src_addr_def dst_addr_def ip_len_def take_drop_splice_other)+
  moreover have d18: "drop (ip_len v6 + 18) q = drop (ip_len v6 + 18) P" using ipf(4) [OF qv] by (metis drop_drop add.commute)
  moreover have "take 16 (drop (ip_len v6) p) = take 16 (drop (ip_len v6) P)" "drop (ip_len v6 + 18) p = drop (ip_len v6 + 18) P"
    using ipf(4) [OF qv] lp lq d18 by (simp_all add: w take_drop_splice_other)
  moreover obtain inp' where "gsoNoneChecksum en (of_bytes p) (of_nat (ip_len v6)) (of_nat 16) = Some (inp', Inr ())"
      "checksum en (drop (ip_len v6) (vis inp'))
         (pseudoHeaderChecksumNoFold en IPPROTO_TCP (src_addr v6 p) (dst_addr v6 p) (of_nat (length p - ip_len v6))) = 0xffff"
    using psum_completes [OF pq] lp lq by auto
  moreover have "drop (ip_len v6 + k) P = drop (off + ip_len v6 + k) (vis buf)" "drop (ip_len v6) P = drop (off + ip_len v6) (vis buf)" for k
    by (simp_all add: P_def ac_simps)
  ultimately show ?thesis
    using run framed_simps [OF assms(1,2) fr] pl lP
    unfolding Let_def v6_def [symmetric] h hdr P_def [symmetric]
    by (intro exI [of _ "framed en (tcp_gro_hdr x) off p buf"] exI [of _ p]) (auto simp del: of_nat_diff)
qed

text \<open>C10. The same for a coalesced UDP packet: virtio header, IP length field, IPv4 header checksum, UDP length field, and a
  partial checksum that completes to a valid UDP checksum; ports, addresses and payload are not touched.\<close>

theorem account_udp_frame:
  assumes "wf_slice buf" and "10 \<le> off" and "off + (if isV6 (key x) then 40 else 20) + 8 \<le> slen buf"
    and "slen buf - off \<le> 65535" and "uint (iphLen x) = (if isV6 (key x) then 40 else 20)" and "numMerged x > 0"
  shows "\<exists>buf' p. account_udp_buf en (int off) x buf = Some (buf', Inr ()) \<and> slen buf' = slen buf \<and>
    vis buf' = take (off - 10) (vis buf) @ hdr_bytes en (udp_gro_hdr x) @ p \<and> length p = slen buf - off \<and>
    (let v6 = isV6 (key x); h = (if v6 then 40 else 20) in
     (if v6 then field16 p 4 = length p - 40 else field16 p 2 = length p \<and> checksum en (take 20 p) 0 = 0xffff) \<and>
     src_addr v6 p = src_addr v6 (drop off (vis buf)) \<and> dst_addr v6 p = dst_addr v6 (drop off (vis buf)) \<and>
     take 4 (drop h p) = take 4 (drop (off + h) (vis buf)) \<and> drop (h + 8) p = drop (off + h + 8) (vis buf) \<and>
     field16 p (h + 4) = length p - h \<and>
     (\<exists>inp'. gsoNoneChecksum en (of_bytes p) (csumStart (udp_gro_hdr x)) (csumOffset (udp_gro_hdr x)) = Some (inp', Inr ()) \<and>
       checksum en (drop h (vis inp'))
         (pseudoHeaderChecksumNoFold en IPPROTO_UDP (src_addr v6 p) (dst_addr v6 p) (of_nat (length p - h))) = 0xffff))"
proof -
  define v6 where "v6 = isV6 (key x)"
  define P where "P = drop off (vis buf)"
  define q0 where "q0 = ip_fields en v6 P"
  define q where "q = splice q0 (ip_len v6 + 4) (be16 (of_nat (length P - ip_len v6)))"
  define p where "p = udp_accounted en v6 P"
  have h: "(if v6 then 40 else 20) = ip_len v6" by (simp add: ip_len_def)
  have ip: "unat (iphLen x) = ip_len v6" using assms(5) by (simp add: v6_def ip_len_def uint_nat del: of_nat_unat split: if_splits)
  have len: "off + ip_len v6 + 8 \<le> slen buf" using assms(3) by (simp add: h v6_def [symmetric])
  have lP: "length P = slen buf - off" using assms(1) by (simp add: P_def)
  then have lp: "ip_len v6 + 8 \<le> length P" "length P \<le> 65535" using len assms(4) by auto
  have lq: "length q0 = length P" "length q = length P" and pl: "length p = length P"
    using lp by (simp_all add: q0_def q_def p_def accounted_length)
  have run: "account_udp_buf en (int off) x buf = Some (framed en (udp_gro_hdr x) off p buf, Inr ())"
    using account_udp_buf_ok [OF assms(1,2) len v6_def [symmetric] ip, of en] assms(6) by (simp add: p_def P_def)
  have fr: "off + length p = slen buf" using lP pl len by simp
  have pq: "p = psum_at en v6 IPPROTO_UDP (ip_len v6 + 6) q" by (simp add: p_def q_def q0_def udp_accounted_def)
  then obtain w where w: "p = splice q (ip_len v6 + 6) (be16 w)" by (auto simp: psum_at_eq)
  note ipf = ip_fields_facts [of v6 P, OF _ lp(2), of en, folded q0_def]
  have qv: "ip_len v6 \<le> length P" using lp by simp
  have hdr: "csumStart (udp_gro_hdr x) = of_nat (ip_len v6)" "csumOffset (udp_gro_hdr x) = of_nat 6"
    using ip by (simp_all add: udp_gro_hdr_def) (simp add: word_unat_eq_iff unsigned_ucast_eq unat_of_nat ip_len_def)
  have "(if v6 then field16 p 4 = length p - 40 else field16 p 2 = length p \<and> checksum en (take 20 p) 0 = 0xffff)"
    using ipf(1-3) [OF qv] lp lq pl by (auto simp: w q_def field16_splice(1) ip_len_def)
  moreover have "src_addr v6 p = src_addr v6 P" "dst_addr v6 p = dst_addr v6 P"
    using ipf(5,6) [OF qv] lp lq by (cases v6; simp add: w q_def src_addr_def dst_addr_def ip_len_def take_drop_splice_other)+
  moreover have d8: "drop (ip_len v6 + 8) q0 = drop (ip_len v6 + 8) P" using ipf(4) [OF qv] by (metis drop_drop add.commute)
  moreover have "take 4 (drop (ip_len v6) p) = take 4 (drop (ip_len v6) P)" "drop (ip_len v6 + 8) p = drop (ip_len v6 + 8) P"
    using ipf(4) [OF qv] lp lq d8 by (simp_all add: w q_def take_drop_splice_other)
  moreover have "unat (of_nat (length P - ip_len v6) :: u16) = length P - ip_len v6"
    using lp by (simp add: unat_of_nat take_bit_nat_eq_self del: of_nat_diff)
  then have "field16 p (ip_len v6 + 4) = length p - ip_len v6"
    using lp lq pl by (simp add: w field16_splice(1) del: of_nat_diff) (simp add: q_def field16_splice(2) del: of_nat_diff)
  moreover obtain inp' where "gsoNoneChecksum en (of_bytes p) (of_nat (ip_len v6)) (of_nat 6) = Some (inp', Inr ())"
      "checksum en (drop (ip_len v6) (vis inp'))
         (pseudoHeaderChecksumNoFold en IPPROTO_UDP (src_addr v6 p) (dst_addr v6 p) (of_nat (length p - ip_len v6))) = 0xffff"
    using psum_completes [OF pq] lp lq by auto
  moreover have "drop (ip_len v6 + k) P = drop (off + ip_len v6 + k) (vis buf)" "drop (ip_len v6) P = drop (off + ip_len v6) (vis buf)" for k
    by (simp_all add: P_def ac_simps)
  ultimately show ?thesis
    using run framed_simps [OF assms(1,2) fr] pl lP
    unfolding Let_def v6_def [symmetric] h hdr P_def [symmetric]
    by (intro exI [of _ "framed en (udp_gro_hdr x) off p buf"] exI [of _ p]) (auto simp del: of_nat_diff)
qed

text \<open>The items of the witnesses: two merged packets of a flow over IPv4.\<close>

definition ex_tcp_item :: tcpGROItem where
  "ex_tcp_item = \<lparr>key = \<lparr>srcAddr = replicate 16 1, dstAddr = replicate 16 2, srcPort = 80, dstPort = 443, isV6 = False, rxAck = 7\<rparr>,
     bufsIndex = 0, numMerged = 1, itemGsoSize = 3, iphLen = 20, sentSeq = 9, tcphLen = 20, pshSet = False\<rparr>"

definition ex_udp_item :: udpGROItem where
  "ex_udp_item = \<lparr>key = \<lparr>srcAddr = replicate 16 1, dstAddr = replicate 16 2, srcPort = 53, dstPort = 53, isV6 = False\<rparr>,
     bufsIndex = 0, numMerged = 1, itemGsoSize = 3, iphLen = 20, cSumKnownInvalid = False\<rparr>"

lemma ex_items: "isV6 (key ex_tcp_item) = False" "iphLen ex_tcp_item = 20" "numMerged ex_tcp_item = 1"
  "isV6 (key ex_udp_item) = False" "iphLen ex_udp_item = 20" "numMerged ex_udp_item = 1"
  by (simp_all add: ex_tcp_item_def ex_udp_item_def)

theorem account_tcp_frame_witness:
  "\<exists>buf' p. account_tcp_buf LittleEndian (int 10) ex_tcp_item (of_bytes (replicate 56 0x45)) = Some (buf', Inr ()) \<and>
    vis buf' = hdr_bytes LittleEndian (tcp_gro_hdr ex_tcp_item) @ p \<and> field16 p 2 = 46 \<and> checksum LittleEndian (take 20 p) 0 = 0xffff"
proof -
  have "\<exists>buf' p. account_tcp_buf LittleEndian (int 10) ex_tcp_item (of_bytes (replicate 56 0x45)) = Some (buf', Inr ()) \<and>
      vis buf' = take (10 - 10) (vis (of_bytes (replicate 56 0x45))) @ hdr_bytes LittleEndian (tcp_gro_hdr ex_tcp_item) @ p \<and>
      length p = 46 \<and> field16 p 2 = length p \<and> checksum LittleEndian (take 20 p) 0 = 0xffff"
    using account_tcp_frame [of "of_bytes (replicate 56 0x45)" 10 ex_tcp_item LittleEndian] unfolding ex_items Let_def if_False by force
  then show ?thesis by fastforce
qed

theorem account_udp_frame_witness:
  "\<exists>buf' p. account_udp_buf BigEndian (int 12) ex_udp_item (of_bytes (replicate 46 0x45)) = Some (buf', Inr ()) \<and>
    vis buf' = take 2 (replicate 46 0x45) @ hdr_bytes BigEndian (udp_gro_hdr ex_udp_item) @ p \<and> field16 p 24 = 14"
proof -
  have "\<exists>buf' p. account_udp_buf BigEndian (int 12) ex_udp_item (of_bytes (replicate 46 0x45)) = Some (buf', Inr ()) \<and>
      vis buf' = take (12 - 10) (vis (of_bytes (replicate 46 0x45))) @ hdr_bytes BigEndian (udp_gro_hdr ex_udp_item) @ p \<and>
      length p = 34 \<and> field16 p (20 + 4) = length p - 20"
    using account_udp_frame [of "of_bytes (replicate 46 0x45)" 12 ex_udp_item BigEndian] unfolding ex_items Let_def if_False by force
  then show ?thesis by fastforce
qed

end
