(* ===== verification/Linux_Tun.thy ===== *)
theory Linux_Tun
  imports Virtio_Read Gro_Frames
begin

text \<open>
  The Linux device (\<^verbatim>\<open>tun_linux.go\<close>): its state, \<open>Read\<close>, \<open>Write\<close> and \<open>writeBatch\<close>, and the detection of its
  offload features. The device file is outside the repository: what a \<^verbatim>\<open>read\<close> of it returns and what
  each \<^verbatim>\<open>write\<close> to it answers are parameters. Goroutines that hold the read or the write mutex are
  the callers of these functions; each call is one step.
\<close>

section \<open>State\<close>

text \<open>The channel of asynchronous errors is a queue; the closing channels and the caches of the name are
  not part of the packet path.\<close>

record NativeTun =
  batchSize :: int
  vnetHdr :: bool
  udpGSO :: bool
  errorsCh :: "go_error list"
  readBuff :: gslice
  toWrite :: "int list"
  tcpGROTab :: tcpGROTable
  udpGROTab :: udpGROTable

text \<open>The allocation in \<open>CreateTUNFromFile\<close> and \<open>CreateUnmonitoredTUNFromFD\<close>.\<close>

definition new_tun :: NativeTun where
  "new_tun = \<lparr>batchSize = 0, vnetHdr = False, udpGSO = False, errorsCh = [],
     readBuff = of_bytes (replicate (10 + 65535) 0), toWrite = [], tcpGROTab = newTCPGROTable, udpGROTab = newUDPGROTable\<rparr>"

text \<open>\<open>initFromFlags\<close>: the answers of \<^verbatim>\<open>TUNGETIFF\<close> (the interface flags) and of the two \<^verbatim>\<open>TUNSETOFFLOAD\<close> calls
  are parameters.\<close>

definition IFF_VNET_HDR :: u16 where "IFF_VNET_HDR = 0x4000"

definition initFromFlags ::
  "go_error + u16 \<Rightarrow> go_error option \<Rightarrow> go_error option \<Rightarrow> NativeTun \<Rightarrow> NativeTun \<times> (go_error + unit)" where
  "initFromFlags getiff setTCP setUDP tun =
     (case getiff of
        Inl e \<Rightarrow> (tun, Inl e)
      | Inr got \<Rightarrow>
          if got AND IFF_VNET_HDR \<noteq> 0 then
            (case setTCP of
               Some e \<Rightarrow> (tun, Inl e)
             | None \<Rightarrow> (tun\<lparr>vnetHdr := True, batchSize := IdealBatchSize, udpGSO := (setUDP = None)\<rparr>, Inr ()))
          else (tun\<lparr>batchSize := 1\<rparr>, Inr ()))"

definition BatchSize :: "NativeTun \<Rightarrow> int" where
  "BatchSize tun = batchSize tun"

section \<open>Reading\<close>

text \<open>\<^verbatim>\<open>EBADFD\<close>, the answer of a device whose interface is gone.\<close>

definition EBADFD :: go_error where "EBADFD = SysErr 77"

text \<open>An answer that says so, wrapped by \<^verbatim>\<open>os.File\<close> or not.\<close>

definition gone :: "go_error option \<Rightarrow> bool" where
  "gone a \<longleftrightarrow> (\<exists>e. a = Some e \<and> errors_is e EBADFD)"

lemma gone_simps [simp]: "\<not> gone None" "gone (Some e) \<longleftrightarrow> errors_is e EBADFD"
  by (simp_all add: gone_def)

text \<open>\<open>file_read len\<close> is the answer of the device to a \<^verbatim>\<open>read\<close> into \<open>len\<close> bytes.\<close>

definition Read ::
  "endian \<Rightarrow> (nat \<Rightarrow> go_error + byte list) \<Rightarrow> NativeTun \<Rightarrow> gslice list \<Rightarrow> int list \<Rightarrow> int
    \<Rightarrow> (NativeTun \<times> gslice list \<times> int list \<times> (go_error + int)) option" where
  "Read en file_read tun bufs sizes offset =
     (case validateReadBuffers (BatchSize tun) bufs sizes of
        Inl e \<Rightarrow> Some (tun, bufs, sizes, Inl e)
      | Inr _ \<Rightarrow>
     (case errorsCh tun of
        e # rest \<Rightarrow> Some (tun\<lparr>errorsCh := rest\<rparr>, bufs, sizes, Inl e)
      | [] \<Rightarrow> do {
     buf0 \<leftarrow> elem bufs 0;
     readInto \<leftarrow> sub_from buf0 offset;
     let readInto = (if vnetHdr tun then readBuff tun else readInto);
     case file_read (slen readInto) of
        Inl e \<Rightarrow> Some (tun, bufs, sizes, Inl (if errors_is e EBADFD then ErrClosed else e))
      | Inr frame \<Rightarrow>
          let readInto = readInto\<lparr>sarr := splice (sarr readInto) 0 frame\<rparr>;
              n = int (length frame)
          in if vnetHdr tun then do {
               inp \<leftarrow> sub readInto 0 n;
               (bufs, sizes, r) \<leftarrow> handleVirtioRead en inp bufs sizes offset;
               Some (tun\<lparr>readBuff := readInto\<rparr>, bufs, sizes, r)
             } else do {
               bufs \<leftarrow> set_elem bufs 0 (put_back buf0 offset readInto);
               sizes \<leftarrow> set_elem sizes 0 n;
               Some (tun, bufs, sizes, Inr 1)
             }
     }))"

section \<open>Writing\<close>

text \<open>\<open>writer k b\<close> is the answer of the device to the \<open>k\<close>-th \<^verbatim>\<open>write\<close> of the call, of the bytes \<open>b\<close>. The
  result is the number of packets written, the joined errors, and the frames handed to the device.\<close>

fun writeBatch_loop ::
  "(nat \<Rightarrow> byte list \<Rightarrow> go_error option) \<Rightarrow> gslice list \<Rightarrow> int \<Rightarrow> nat \<Rightarrow> int list \<Rightarrow> int \<Rightarrow> go_error list \<Rightarrow> byte list list
    \<Rightarrow> (int \<times> go_error list \<times> byte list list) option" where
  "writeBatch_loop writer bufs offset k [] written errs frames = Some (written, errs, frames)"
| "writeBatch_loop writer bufs offset k (bufsI # rest) written errs frames = do {
     buf \<leftarrow> elem bufs bufsI;
     b \<leftarrow> sub_from buf offset;
     case writer k (vis b) of
       Some e \<Rightarrow>
         if errors_is e EBADFD then Some (written, [ErrClosed], frames @ [vis b])
         else writeBatch_loop writer bufs offset (Suc k) rest written (errs @ [e]) (frames @ [vis b])
     | None \<Rightarrow> writeBatch_loop writer bufs offset (Suc k) rest (written + 1) errs (frames @ [vis b])
   }"

definition writeBatch ::
  "(nat \<Rightarrow> byte list \<Rightarrow> go_error option) \<Rightarrow> gslice list \<Rightarrow> int list \<Rightarrow> int \<Rightarrow> (int \<times> go_error list \<times> byte list list) option" where
  "writeBatch writer bufs tw offset = writeBatch_loop writer bufs offset 0 tw 0 [] []"

text \<open>The deferred resets of the tables run on every return.\<close>

definition reset_tables :: "NativeTun \<Rightarrow> NativeTun" where
  "reset_tables tun = tun\<lparr>tcpGROTab := tcp_reset (tcpGROTab tun), udpGROTab := udp_reset (udpGROTab tun)\<rparr>"

definition Write ::
  "endian \<Rightarrow> (nat \<Rightarrow> byte list \<Rightarrow> go_error option) \<Rightarrow> NativeTun \<Rightarrow> gslice list \<Rightarrow> int
    \<Rightarrow> (NativeTun \<times> gslice list \<times> int \<times> go_error list \<times> byte list list) option" where
  "Write en writer tun bufs offset = do {
     let tun = tun\<lparr>toWrite := []\<rparr>;
     if vnetHdr tun then do {
       (st, errs) \<leftarrow> handleGRO en offset (udpGSO tun)
         \<lparr>gBufs = bufs, gTcp = tcpGROTab tun, gUdp = udpGROTab tun, gToWrite = toWrite tun\<rparr>;
       let tun = tun\<lparr>toWrite := gToWrite st, tcpGROTab := gTcp st, udpGROTab := gUdp st\<rparr>;
       if errs \<noteq> [] then Some (reset_tables tun, gBufs st, 0, errs, [])
       else do {
         (n, errs, frames) \<leftarrow> writeBatch writer (gBufs st) (toWrite tun) (offset - virtioNetHdrLen);
         Some (reset_tables tun, gBufs st, n, errs, frames)
       }
     } else do {
       let tun = tun\<lparr>toWrite := map int [0..<length bufs]\<rparr>;
       (n, errs, frames) \<leftarrow> writeBatch writer bufs (toWrite tun) offset;
       Some (reset_tables tun, bufs, n, errs, frames)
     }
   }"

section \<open>The writes to the device\<close>

text \<open>The answers of the device to the frames \<open>F\<close>, the first of them to write \<open>k\<close>, and what \<open>writeBatch\<close> makes of
  them.\<close>

definition answers :: "(nat \<Rightarrow> byte list \<Rightarrow> go_error option) \<Rightarrow> nat \<Rightarrow> byte list list \<Rightarrow> go_error option list" where
  "answers writer k F = map (\<lambda>i. writer (k + i) (F ! i)) [0..<length F]"

definition batch_outcome :: "go_error option list \<Rightarrow> byte list list \<Rightarrow> int \<times> go_error list \<times> byte list list" where
  "batch_outcome as F = (let ok = takeWhile (\<lambda>a. \<not> gone a) as; over = (\<exists>a\<in>set as. gone a) in
     (int (length (filter (\<lambda>a. a = None) ok)), (if over then [ErrClosed] else map the (filter (\<lambda>a. a \<noteq> None) ok)),
      take (length ok + (if over then 1 else 0)) F))"

lemma answers_Cons: "answers writer k (f # F) = writer k f # answers writer (Suc k) F"
proof -
  have "[0..<length (f # F)] = 0 # map Suc [0..<length F]" by (simp add: upt_conv_Cons map_Suc_upt del: upt_Suc)
  then show ?thesis by (simp add: answers_def del: upt_Suc)
qed

definition frames_at :: "gslice list \<Rightarrow> nat \<Rightarrow> int list \<Rightarrow> byte list list" where
  "frames_at bufs off tw = map (\<lambda>j. drop off (vis (bufs ! nat j))) tw"

lemma writeBatch_loop_eq:
  assumes "\<forall>j\<in>set tw. 0 \<le> j \<and> j < int (length bufs) \<and> off \<le> slen (bufs ! nat j)" and "\<forall>b\<in>set bufs. wf_slice b"
  shows "writeBatch_loop writer bufs (int off) k tw n errs frames =
    (case batch_outcome (answers writer k (frames_at bufs off tw)) (frames_at bufs off tw) of (m, es, fs) \<Rightarrow>
      Some (n + m, (if \<exists>a\<in>set (answers writer k (frames_at bufs off tw)). gone a then es else errs @ es), frames @ fs))"
  using assms(1)
proof (induction tw arbitrary: k n errs frames)
  case Nil
  then show ?case by (simp add: frames_at_def answers_def batch_outcome_def)
next
  case (Cons j tw)
  then have j: "0 \<le> j" "nat j < length bufs" "off \<le> slen (bufs ! nat j)" by auto
  have e: "elem bufs j = Some (bufs ! nat j)" using j by (simp add: elem_def)
  obtain t where t: "sub_from (bufs ! nat j) (int off) = Some t" "vis t = drop off (vis (bufs ! nat j))"
    using sub_from_total [OF j(3)] vis_sub_from assms(2) j(2) by fastforce
  define f where "f = drop off (vis (bufs ! nat j))"
  have fr: "frames_at bufs off (j # tw) = f # frames_at bufs off tw" by (simp add: frames_at_def f_def)
  show ?case
    using Cons.prems unfolding fr answers_Cons
    by (cases "writer k f")
      (auto simp: e t f_def [symmetric] Cons.IH batch_outcome_def Let_def)
qed

lemma writeBatch_eq:
  assumes "\<forall>j\<in>set tw. 0 \<le> j \<and> j < int (length bufs) \<and> off \<le> slen (bufs ! nat j)" and "\<forall>b\<in>set bufs. wf_slice b"
  shows "writeBatch writer bufs tw (int off)
    = Some (batch_outcome (answers writer 0 (frames_at bufs off tw)) (frames_at bufs off tw))"
  unfolding writeBatch_def writeBatch_loop_eq [OF assms] by (auto split: prod.splits)

lemma batch_outcome_le: "batch_outcome as F = (n, errs, fs) \<Longrightarrow> 0 \<le> n \<and> n \<le> int (length as)"
  using order_trans [OF length_filter_le [of "\<lambda>a. a = None" "takeWhile (\<lambda>a. \<not> gone a) as"] length_takeWhile_le [of "\<lambda>a. \<not> gone a" as]]
  by (auto simp: batch_outcome_def Let_def)

section \<open>Write\<close>

lemma gro_accounted_ok:
  assumes inv: "gro_inv off bufs0 (length bufs0) st" and off: "10 \<le> off" and acc: "gro_accounted en off st bufs'" and j: "j < length bufs0"
  shows "slen (bufs' ! j) = slen (gBufs st ! j) \<and> wf_slice (bufs' ! j)"
proof -
  have wj: "wf_slice (gBufs st ! j)" and t: "tbl_inv key (tcp_kept off (length bufs0) (gBufs st)) (length bufs0) (gTcp st)"
    and u: "tbl_inv key (udp_kept off (length bufs0) (gBufs st)) (length bufs0) (gUdp st)"
    using inv j by (simp_all add: gro_inv_def)
  consider (tcp) x where "x \<in> set (tbl_items (gTcp st))" "unat (bufsIndex x) = j"
    | (udp) x where "x \<in> set (tbl_items (gUdp st))" "unat (bufsIndex x) = j"
    | (other) "\<forall>x\<in>set (tbl_items (gTcp st)). unat (bufsIndex x) \<noteq> j" "\<forall>x\<in>set (tbl_items (gUdp st)). unat (bufsIndex x) \<noteq> j"
    by blast
  then show ?thesis
  proof cases
    case tcp
    then have "tcp_kept off (length bufs0) (gBufs st) x" using tbl_inv_items [OF t] by simp
    then have "off + ip_len (isV6 (key x)) + 20 \<le> slen (gBufs st ! j)" using tcp(2) by (auto simp: tcp_kept_def tcp_item_ok_def ip_len_def)
    then show ?thesis using acc tcp tcp_frame_ok [OF wj off] by (auto simp: gro_accounted_def)
  next
    case udp
    then have "udp_kept off (length bufs0) (gBufs st) x" using tbl_inv_items [OF u] by simp
    then have "off + ip_len (isV6 (key x)) + 8 \<le> slen (gBufs st ! j)" using udp(2) by (auto simp: udp_kept_def udp_item_ok_def ip_len_def)
    then show ?thesis using acc udp udp_frame_ok [OF wj off] by (auto simp: gro_accounted_def)
  next
    case other
    then show ?thesis using acc wj by (auto simp: gro_accounted_def)
  qed
qed

text \<open>Between calls the tables of a device hold no flow and all their slices.\<close>

definition tun_ready :: "NativeTun \<Rightarrow> bool" where
  "tun_ready tun \<longleftrightarrow> tables_fresh (tcpGROTab tun) (udpGROTab tun)"

lemma new_tun_ready: "tun_ready new_tun"
  by (simp add: tun_ready_def new_tun_def tables_fresh_def newTCPGROTable_def newUDPGROTable_def tbl_inv_new)

lemma reset_ready:
  assumes "tbl_inv key P n (tcpGROTab tun)" "tbl_inv key Q m (udpGROTab tun)"
  shows "tun_ready (reset_tables tun)"
  using assms by (simp add: tun_ready_def reset_tables_def tables_fresh_def tcp_reset_def udp_reset_def tbl_inv_reset)

lemma gro_inv_ready:
  assumes "gro_inv off bufs0 i st"
  shows "tun_ready (reset_tables (tun\<lparr>toWrite := tw, tcpGROTab := gTcp st, udpGROTab := gUdp st\<rparr>))"
proof (rule reset_ready)
  show "tbl_inv key (tcp_kept off i (gBufs st)) i (tcpGROTab (tun\<lparr>toWrite := tw, tcpGROTab := gTcp st, udpGROTab := gUdp st\<rparr>))"
    "tbl_inv key (udp_kept off i (gBufs st)) i (udpGROTab (tun\<lparr>toWrite := tw, tcpGROTab := gTcp st, udpGROTab := gUdp st\<rparr>))"
    using assms by (simp_all add: gro_inv_def)
qed

lemma Write_gro_returns:
  assumes wf: "\<forall>b\<in>set bufs. wf_slice b" and n: "length bufs \<le> 128" and tun: "tun_ready tun" "vnetHdr tun"
  shows "returns (Write en writer tun bufs offset) (\<lambda>(tun', bufs', k, errs, frames).
    tun_ready tun' \<and> vnetHdr tun' \<and>
    (if \<exists>b\<in>set bufs. bad_offset offset b then k = 0 \<and> errs = [ErrInvalidOffset] \<and> frames = []
     else sorted_wrt (<) (toWrite tun') \<and> set (toWrite tun') \<subseteq> {0..<int (length bufs)} \<and> length bufs' = length bufs \<and>
       (k, errs, frames) = batch_outcome (answers writer 0 (frames_at bufs' (nat offset - 10) (toWrite tun')))
         (frames_at bufs' (nat offset - 10) (toWrite tun'))))"
proof -
  have fresh: "tables_fresh (tcpGROTab tun) (udpGROTab tun)" using tun(1) by (simp add: tun_ready_def)
  obtain st errs where h: "handleGRO en offset (udpGSO tun) \<lparr>gBufs = bufs, gTcp = tcpGROTab tun, gUdp = udpGROTab tun, gToWrite = []\<rparr> = Some (st, errs)"
    and o: "if \<exists>b\<in>set bufs. bad_offset offset b
     then errs = [ErrInvalidOffset] \<and> (\<exists>i<length bufs. bad_offset offset (bufs ! i) \<and> gro_inv (nat offset) bufs i st)
     else errs = [] \<and> (\<exists>st1 bufs'. gro_inv (nat offset) bufs (length bufs) st1 \<and>
       (bufs \<noteq> [] \<longrightarrow> gro_accounted en (nat offset) st1 bufs') \<and> (bufs = [] \<longrightarrow> bufs' = []) \<and> st = st1\<lparr>gBufs := bufs'\<rparr>)"
    using handleGRO_returns [OF wf fresh n, of en offset "udpGSO tun"] by (auto simp: returns_iff)
  have ready: "tun_ready (reset_tables (tun\<lparr>toWrite := gToWrite st, tcpGROTab := gTcp st, udpGROTab := gUdp st\<rparr>))"
    using o by (auto intro: gro_inv_ready split: if_splits)
  show ?thesis
  proof (cases "\<exists>b\<in>set bufs. bad_offset offset b")
    case True
    then show ?thesis using o h tun ready by (auto simp: Write_def returns_def reset_tables_def)
  next
    case False
    then obtain st1 bufs' where s: "errs = []" "gro_inv (nat offset) bufs (length bufs) st1" "bufs \<noteq> [] \<Longrightarrow> gro_accounted en (nat offset) st1 bufs'"
        "bufs = [] \<Longrightarrow> bufs' = []" "st = st1\<lparr>gBufs := bufs'\<rparr>"
      using o by auto
    have off: "10 \<le> nat offset" "offset - virtioNetHdrLen = int (nat offset - 10)" if "bufs \<noteq> []"
      using that False by (cases bufs; auto simp: bad_offset_def virtioNetHdrLen_def)+
    have len: "length bufs' = length bufs" using s by (cases "bufs = []") (auto simp: gro_accounted_def gro_inv_def)
    have b: "\<forall>b\<in>set bufs'. wf_slice b"
      using gro_accounted_ok [OF s(2)] off s(3,4) len by (cases "bufs = []") (auto simp: in_set_conv_nth)
    have tw: "sorted_wrt (<) (gToWrite st)" "set (gToWrite st) \<subseteq> {0..<int (length bufs)}"
      using s(2,5) by (auto simp: gro_inv_def)
    have "\<forall>j\<in>set (gToWrite st). 0 \<le> j \<and> j < int (length bufs') \<and> nat offset - 10 \<le> slen (bufs' ! nat j)"
    proof
      fix j assume "j \<in> set (gToWrite st)"
      then have "j \<in> {0..<int (length bufs)}" using tw(2) by blast
      then have j: "0 \<le> j" "nat j < length bufs" "bufs \<noteq> []" by auto
      then have "nat offset < slen (gBufs st1 ! nat j)" using s(2) by (simp add: gro_inv_def)
      then show "0 \<le> j \<and> j < int (length bufs') \<and> nat offset - 10 \<le> slen (bufs' ! nat j)"
        using gro_accounted_ok [OF s(2) off(1) [OF j(3)] s(3) [OF j(3)] j(2)] j len by linarith
    qed
    note wb = writeBatch_eq [OF this b, of writer]
    have wb': "writeBatch writer bufs' (gToWrite st) (offset - virtioNetHdrLen)
        = Some (batch_outcome (answers writer 0 (frames_at bufs' (nat offset - 10) (gToWrite st))) (frames_at bufs' (nat offset - 10) (gToWrite st)))"
    proof (cases "bufs = []")
      case True
      then have "gToWrite st = []" using tw(2) by auto
      then show ?thesis by (simp add: writeBatch_def frames_at_def answers_def batch_outcome_def)
    qed (use wb off in simp)
    show ?thesis
      using False h s(1,5) tun ready tw len wb'
      by (auto simp: Write_def returns_def reset_tables_def split: prod.splits)
  qed
qed

section \<open>Properties\<close>

text \<open>C21. \<open>writeBatch\<close> on frames that lie in their buffers: every frame is handed to the device in the order of \<^verbatim>\<open>toWrite\<close>,
  the count is that of the accepted frames, errors are collected and do not stop the batch, and \<^verbatim>\<open>EBADFD\<close>, wrapped or not, stops it with
  the error of a closed device in place of the collected ones.\<close>

theorem writeBatch_outcome:
  assumes "\<forall>j\<in>set tw. 0 \<le> j \<and> j < int (length bufs) \<and> off \<le> slen (bufs ! nat j)" and "\<forall>b\<in>set bufs. wf_slice b"
  shows "writeBatch writer bufs tw (int off) = (
    let F = map (\<lambda>j. drop off (vis (bufs ! nat j))) tw;
        as = map (\<lambda>i. writer i (F ! i)) [0..<length F];
        ok = takeWhile (\<lambda>a. \<not> gone a) as
    in Some (int (count_list ok None),
         if \<exists>a\<in>set as. gone a then [ErrClosed] else [e. Some e \<leftarrow> ok],
         if \<exists>a\<in>set as. gone a then take (Suc (length ok)) F else F))"
proof -
  define F where "F = map (\<lambda>j. drop off (vis (bufs ! nat j))) tw"
  define as where "as = map (\<lambda>i. writer i (F ! i)) [0..<length F]"
  define ok where "ok = takeWhile (\<lambda>a. \<not> gone a) as"
  have F: "frames_at bufs off tw = F" by (simp add: frames_at_def F_def)
  have A: "answers writer 0 F = as" by (simp add: answers_def as_def)
  have e: "map the (filter (\<lambda>a. a \<noteq> None) xs) = [e. Some e \<leftarrow> xs]" for xs :: "go_error option list"
    by (induction xs) (auto split: option.splits)
  have l: "ok = as" if "\<not> (\<exists>a\<in>set as. gone a)" using that by (auto simp: ok_def takeWhile_eq_all_conv)
  have n: "((=) None) = (\<lambda>a :: go_error option. a = None)" by auto
  have "length as = length F" by (simp add: as_def)
  then show ?thesis
    using l unfolding writeBatch_eq [OF assms] F A batch_outcome_def Let_def F_def [symmetric] as_def [symmetric] ok_def [symmetric] e
    by (auto simp: count_list_eq_length_filter n)
qed

theorem writeBatch_outcome_witness:
  "writeBatch (\<lambda>i b. if i = 1 then Some (SysErr 5) else None) [of_bytes [1, 2, 3], of_bytes [4, 5], of_bytes [6]] [0, 1, 2] (int 1)
    = Some (2, [SysErr 5], [[2, 3], [5], []])"
proof -
  have "[0..<3] = [0, 1, 2 :: nat]" by (simp add: upt_rec)
  then show ?thesis
    using writeBatch_outcome [of "[0, 1, 2]" "[of_bytes [1, 2, 3], of_bytes [4, 5], of_bytes [6]]" 1
      "\<lambda>i b. if i = 1 then Some (SysErr 5) else None"]
    by (simp add: EBADFD_def Let_def)
qed

text \<open>C5. A \<open>Write\<close> with virtio headers never panics: it refuses the whole batch when the offset does not fit one of its
  buffers, and otherwise writes the frames of an increasing, in-range list of buffers, each with its virtio header;
  afterwards both tables are empty again and all their slices are back in the pools.\<close>

theorem Write_returns:
  assumes "\<forall>b\<in>set bufs. wf_slice b" and "length bufs \<le> 128" and "tun_ready tun" and "vnetHdr tun"
  shows "case Write en writer tun bufs offset of
      None \<Rightarrow> False
    | Some (tun', bufs', k, errs, frames) \<Rightarrow>
        tun_ready tun' \<and> itemsByFlow (tcpGROTab tun') = [] \<and> itemsByFlow (udpGROTab tun') = [] \<and>
        length (itemsPool (tcpGROTab tun')) = 128 \<and> length (itemsPool (udpGROTab tun')) = 128 \<and>
        (if \<exists>b\<in>set bufs. offset < 10 \<or> offset \<ge> int (slen b)
         then k = 0 \<and> errs = [ErrInvalidOffset] \<and> frames = []
         else sorted_wrt (<) (toWrite tun') \<and> set (toWrite tun') \<subseteq> {0..<int (length bufs)} \<and> length bufs' = length bufs \<and>
           0 \<le> k \<and> k \<le> int (length (toWrite tun')) \<and>
           ((\<forall>i b. writer i b = None) \<longrightarrow> k = int (length (toWrite tun')) \<and> errs = [] \<and>
             frames = map (\<lambda>j. drop (nat offset - 10) (vis (bufs' ! nat j))) (toWrite tun')))"
proof -
  obtain tun' bufs' k errs frames where run: "Write en writer tun bufs offset = Some (tun', bufs', k, errs, frames)"
    and out: "tun_ready tun'" "if \<exists>b\<in>set bufs. bad_offset offset b then k = 0 \<and> errs = [ErrInvalidOffset] \<and> frames = []
     else sorted_wrt (<) (toWrite tun') \<and> set (toWrite tun') \<subseteq> {0..<int (length bufs)} \<and> length bufs' = length bufs \<and>
       (k, errs, frames) = batch_outcome (answers writer 0 (frames_at bufs' (nat offset - 10) (toWrite tun')))
         (frames_at bufs' (nat offset - 10) (toWrite tun'))"
    using Write_gro_returns [OF assms, of en writer offset] by (auto simp: returns_iff)
  have bad: "bad_offset offset b \<longleftrightarrow> offset < 10 \<or> offset \<ge> int (slen b)" for b
    by (auto simp: bad_offset_def virtioNetHdrLen_def)
  define F where "F = frames_at bufs' (nat offset - 10) (toWrite tun')"
  have le: "(k, errs, frames) = batch_outcome (answers writer 0 F) F \<Longrightarrow> 0 \<le> k \<and> k \<le> int (length (toWrite tun'))"
    using batch_outcome_le [of "answers writer 0 F" F k errs frames] by (auto simp: answers_def F_def frames_at_def)
  have all: "\<forall>i b. writer i b = None \<Longrightarrow> batch_outcome (answers writer 0 F) F = (int (length (toWrite tun')), [], F)"
  proof -
    assume "\<forall>i b. writer i b = None"
    then have "answers writer 0 F = replicate (length F) None" by (simp add: answers_def map_replicate_const)
    then show ?thesis by (simp add: batch_outcome_def Let_def takeWhile_eq_all_conv [THEN iffD2] F_def frames_at_def)
  qed
  have F: "map (\<lambda>j. drop (nat offset - 10) (vis (bufs' ! nat j))) (toWrite tun') = F" by (simp add: F_def frames_at_def)
  have "itemsByFlow (tcpGROTab tun') = []" "itemsByFlow (udpGROTab tun') = []"
    "length (itemsPool (tcpGROTab tun')) = 128" "length (itemsPool (udpGROTab tun')) = 128"
    using out(1) by (auto simp: tun_ready_def tables_fresh_def tbl_inv_def)
  moreover have "(\<forall>i b. writer i b = None) \<longrightarrow> k = int (length (toWrite tun')) \<and> errs = [] \<and> frames = F"
    if "(k, errs, frames) = batch_outcome (answers writer 0 F) F" using all that [symmetric] by auto
  ultimately show ?thesis
    using out le unfolding run bad option.case prod.case F F_def [symmetric] by (simp split: if_splits)
qed

theorem Write_returns_witness:
  "\<exists>tun' bufs'. Write BigEndian (\<lambda>_ _. None) (new_tun\<lparr>vnetHdr := True\<rparr>) [of_bytes (replicate 60 0x45)] 20
      = Some (tun', bufs', int (length (toWrite tun')), [], map (\<lambda>j. drop 10 (vis (bufs' ! nat j))) (toWrite tun'))
    \<and> length (itemsPool (tcpGROTab tun')) = 128"
proof -
  have "tun_ready (new_tun\<lparr>vnetHdr := True\<rparr>)" using new_tun_ready by (simp add: tun_ready_def)
  then show ?thesis
    using Write_returns [of "[of_bytes (replicate 60 0x45)]" "new_tun\<lparr>vnetHdr := True\<rparr>" 20 "\<lambda>_ _. None" BigEndian]
    by (auto split: option.splits)
qed

end
