(* ===== verification/Os_Calls.thy ===== *)
theory Os_Calls
  imports Linux_Tun "HOL-Library.State_Monad"
begin

text \<open>
  The system calls behind the creation, configuration and closing of a device. A call is an element of a log, in
  the order they are made, with its outcome; what the system answers is a parameter that may look at the whole
  log. A descriptor is named by the position of the call that opened it, so every open call gives a new
  one. The lemmas follow the set of open descriptors through a log.
\<close>

section \<open>Calls and their log\<close>

type_synonym fd = nat

text \<open>What an \<^verbatim>\<open>ioctl\<close> is told.\<close>

datatype ioctl_arg = NoArg | IfName string | IfMTU string u32 | IfRename string string | IfFlags string u32 | IntArg int

datatype os_call =
    Socket string                    \<comment> \<open>the address family and type\<close>
  | OpenFile string
  | PipePair                         \<comment> \<open>both ends of the pipe of \<open>NewRWCancel\<close> as one\<close>
  | CloseFd fd
  | Shutdown fd
  | Ioctl fd string ioctl_arg
  | Bind fd
  | Connect fd u32
  | SetNonblock fd
  | SyscallConn fd
  | Control fd                       \<comment> \<open>\<^verbatim>\<open>RawConn.Control\<close>: its error when it does not run the function\<close>
  | NewIfreq string                \<comment> \<open>refuses a name that is too long\<close>
  | Stat fd
  | Getsockopt fd
  | InterfaceByName string
  | Getenv string
  | WriteFile string string
  | Spawn string                     \<comment> \<open>a goroutine\<close>
  | WriteCancel fd                   \<comment> \<open>the write of \<open>Cancel\<close> to the pipe\<close>

text \<open>The system: does a call fail after this log, and what number or name does it give otherwise.\<close>

type_synonym os_log = "(os_call \<times> bool) list"

record os_env =
  fails :: "os_log \<Rightarrow> os_call \<Rightarrow> go_error option"
  number :: "os_log \<Rightarrow> os_call \<Rightarrow> int"
  text_of :: "os_log \<Rightarrow> os_call \<Rightarrow> string"

abbreviation ret :: "'a \<Rightarrow> (os_log, 'a) state" where
  "ret \<equiv> State_Monad.return"

definition os_do :: "os_env \<Rightarrow> os_call \<Rightarrow> (os_log, go_error option) state" where
  "os_do env c = State (\<lambda>l. (fails env l c, l @ [(c, fails env l c = None)]))"

definition os_open :: "os_env \<Rightarrow> os_call \<Rightarrow> (os_log, go_error + fd) state" where
  "os_open env c = State (\<lambda>l. (case fails env l c of Some e \<Rightarrow> Inl e | None \<Rightarrow> Inr (length l), l @ [(c, fails env l c = None)]))"

definition os_number :: "os_env \<Rightarrow> os_call \<Rightarrow> (os_log, go_error + int) state" where
  "os_number env c = State (\<lambda>l. (case fails env l c of Some e \<Rightarrow> Inl e | None \<Rightarrow> Inr (number env l c), l @ [(c, fails env l c = None)]))"

definition os_text :: "os_env \<Rightarrow> os_call \<Rightarrow> (os_log, go_error + string) state" where
  "os_text env c = State (\<lambda>l. (case fails env l c of Some e \<Rightarrow> Inl e | None \<Rightarrow> Inr (text_of env l c), l @ [(c, fails env l c = None)]))"

text \<open>A call whose result is not looked at.\<close>

definition os_ignore :: "os_env \<Rightarrow> os_call \<Rightarrow> (os_log, unit) state" where
  "os_ignore env c = do { os_do env c; ret () }"

section \<open>Open descriptors\<close>

fun opens :: "os_call \<Rightarrow> bool" where
  "opens (Socket _) = True"
| "opens (OpenFile _) = True"
| "opens PipePair = True"
| "opens _ = False"

text \<open>\<open>fd_step n\<close>: the call at position \<open>n\<close>. A close frees the descriptor even when it reports an error.\<close>

fun fd_step :: "nat \<Rightarrow> os_call \<times> bool \<Rightarrow> fd set \<Rightarrow> fd set" where
  "fd_step n (CloseFd fd, _) F = F - {fd}"
| "fd_step n (c, ok) F = (if opens c \<and> ok then insert n F else F)"

fun open_fds_from :: "nat \<Rightarrow> os_log \<Rightarrow> fd set \<Rightarrow> fd set" where
  "open_fds_from n [] F = F"
| "open_fds_from n (c # l) F = open_fds_from (Suc n) l (fd_step n c F)"

definition open_fds :: "os_log \<Rightarrow> fd set" where
  "open_fds l = open_fds_from 0 l {}"

lemma open_fds_from_snoc: "open_fds_from n (l @ [c]) F = fd_step (n + length l) c (open_fds_from n l F)"
  by (induction l arbitrary: n F) auto

lemma open_fds_snoc [simp]: "open_fds (l @ [c]) = fd_step (length l) c (open_fds l)"
  by (simp add: open_fds_def open_fds_from_snoc)

lemma open_fds_bound: "fd \<in> open_fds l \<Longrightarrow> fd < length l"
proof (induction l arbitrary: fd rule: rev_induct)
  case (snoc c l)
  have "fd = length l \<or> fd \<in> open_fds l" using snoc.prems by (cases "(length l, c, open_fds l)" rule: fd_step.cases) (auto split: if_splits)
  then show ?case using snoc.IH less_Suc_eq by auto
qed (simp add: open_fds_def)

lemma open_fds_new [simp]: "length l \<le> n \<Longrightarrow> n \<notin> open_fds l"
  using open_fds_bound by fastforce

section \<open>Running\<close>

text \<open>One call, for evaluation: the log grows by one.\<close>

named_theorems os_run

lemma run_os_do [os_run]: "run_state (os_do env c) l = (fails env l c, l @ [(c, fails env l c = None)])"
  by (simp add: os_do_def)

lemma run_os_ignore [os_run]: "run_state (os_ignore env c) l = ((), l @ [(c, fails env l c = None)])"
  by (simp add: os_ignore_def run_os_do)

lemma run_os_open [os_run]:
  "run_state (os_open env c) l = (case fails env l c of Some e \<Rightarrow> Inl e | None \<Rightarrow> Inr (length l), l @ [(c, fails env l c = None)])"
  by (simp add: os_open_def)

lemma run_os_number [os_run]:
  "run_state (os_number env c) l = (case fails env l c of Some e \<Rightarrow> Inl e | None \<Rightarrow> Inr (number env l c), l @ [(c, fails env l c = None)])"
  by (simp add: os_number_def)

lemma run_os_text [os_run]:
  "run_state (os_text env c) l = (case fails env l c of Some e \<Rightarrow> Inl e | None \<Rightarrow> Inr (text_of env l c), l @ [(c, fails env l c = None)])"
  by (simp add: os_text_def)

section \<open>Reasoning about runs\<close>

text \<open>\<open>ensures l p Q\<close>: \<open>p\<close>, begun after the log \<open>l\<close>, ends with a result and log for which \<open>Q\<close> holds. The rules below follow a program call by call
  and keep of each call what the lemmas need: the open descriptors and the set of calls made.\<close>

definition ensures :: "os_log \<Rightarrow> (os_log, 'a) state \<Rightarrow> ('a \<Rightarrow> os_log \<Rightarrow> bool) \<Rightarrow> bool" where
  "ensures l p Q \<longleftrightarrow> (case run_state p l of (r, l') \<Rightarrow> Q r l')"

named_theorems os_rules

definition logged :: "os_log \<Rightarrow> os_call \<Rightarrow> bool \<Rightarrow> os_log \<Rightarrow> bool" where
  "logged l c ok l' \<longleftrightarrow> l' = l @ [(c, ok)]"

lemma logged_fds: "logged l c ok l' \<Longrightarrow> open_fds l' = fd_step (length l) (c, ok) (open_fds l)"
  and logged_length: "logged l c ok l' \<Longrightarrow> length l' = Suc (length l)"
  and logged_set: "logged l c ok l' \<Longrightarrow> set l' = insert (c, ok) (set l)"
  by (auto simp: logged_def)

lemma ensures_return [os_rules]: "Q x l \<Longrightarrow> ensures l (ret x) Q"
  by (simp add: ensures_def)

lemma ensures_bind [os_rules]: "ensures l m (\<lambda>r l'. ensures l' (f r) Q) \<Longrightarrow> ensures l (State_Monad.bind m f) Q"
  by (auto simp: ensures_def split: prod.splits)

lemma ensures_do [os_rules]:
  "(\<And>l'. logged l c True l' \<Longrightarrow> Q None l') \<Longrightarrow> (\<And>e l'. logged l c False l' \<Longrightarrow> Q (Some e) l') \<Longrightarrow> ensures l (os_do env c) Q"
  by (cases "fails env l c") (auto simp: ensures_def os_do_def logged_def)

lemma ensures_ignore [os_rules]: "(\<And>l' ok. logged l c ok l' \<Longrightarrow> Q () l') \<Longrightarrow> ensures l (os_ignore env c) Q"
  by (auto simp: ensures_def os_ignore_def os_do_def logged_def)

lemma ensures_open [os_rules]:
  "(\<And>l'. logged l c True l' \<Longrightarrow> Q (Inr (length l)) l') \<Longrightarrow> (\<And>e l'. logged l c False l' \<Longrightarrow> Q (Inl e) l') \<Longrightarrow> ensures l (os_open env c) Q"
  by (cases "fails env l c") (auto simp: ensures_def os_open_def logged_def)

lemma ensures_number [os_rules]:
  "(\<And>l' v. logged l c True l' \<Longrightarrow> Q (Inr v) l') \<Longrightarrow> (\<And>e l'. logged l c False l' \<Longrightarrow> Q (Inl e) l') \<Longrightarrow> ensures l (os_number env c) Q"
  by (cases "fails env l c") (auto simp: ensures_def os_number_def logged_def)

lemma ensures_text [os_rules]:
  "(\<And>l' v. logged l c True l' \<Longrightarrow> Q (Inr v) l') \<Longrightarrow> (\<And>e l'. logged l c False l' \<Longrightarrow> Q (Inl e) l') \<Longrightarrow> ensures l (os_text env c) Q"
  by (cases "fails env l c") (auto simp: ensures_def os_text_def logged_def)

lemma ensures_if [os_rules]: "(b \<Longrightarrow> ensures l p Q) \<Longrightarrow> (\<not> b \<Longrightarrow> ensures l q Q) \<Longrightarrow> ensures l (if b then p else q) Q"
  by simp

text \<open>Results are taken apart where they are known, so that no impossible branch is followed.\<close>

lemma ensures_Inl [os_rules]: "ensures l (f e) Q \<Longrightarrow> ensures l (case Inl e of Inl e \<Rightarrow> f e | Inr v \<Rightarrow> g v) Q"
  and ensures_Inr [os_rules]: "ensures l (g v) Q \<Longrightarrow> ensures l (case Inr v of Inl e \<Rightarrow> f e | Inr v \<Rightarrow> g v) Q"
  and ensures_None [os_rules]: "ensures l p Q \<Longrightarrow> ensures l (case None of None \<Rightarrow> p | Some v \<Rightarrow> h v) Q"
  and ensures_Some [os_rules]: "ensures l (h v) Q \<Longrightarrow> ensures l (case Some v of None \<Rightarrow> p | Some v \<Rightarrow> h v) Q"
  and ensures_pair [os_rules]: "ensures l (k a b) Q \<Longrightarrow> ensures l (case (a, b) of (a, b) \<Rightarrow> k a b) Q"
  by simp_all

lemma ensures_mono: "ensures l p Q \<Longrightarrow> (\<And>r l'. Q r l' \<Longrightarrow> Q' r l') \<Longrightarrow> ensures l p Q'"
  by (auto simp: ensures_def)

lemma ensuresD: "ensures l p Q \<Longrightarrow> run_state p l = (r, l') \<Longrightarrow> Q r l'"
  by (simp add: ensures_def)

text \<open>A program that leaves the descriptors alone, whatever it calls.\<close>

definition fds_kept :: "os_log \<Rightarrow> os_log \<Rightarrow> bool" where
  "fds_kept l l' \<longleftrightarrow> open_fds l' = open_fds l \<and> length l \<le> length l' \<and> set l \<subseteq> set l'"

lemma loggedD: "logged l c ok l' \<Longrightarrow> open_fds l' = fd_step (length l) (c, ok) (open_fds l) \<and> length l' = Suc (length l) \<and> set l' = insert (c, ok) (set l)"
  by (simp add: logged_fds logged_length logged_set)

end
