(* ===== verification/Netlink.thy ===== *)
theory Netlink
  imports Tun_Prelude
begin

text \<open>
  The device status events of Linux (\<^verbatim>\<open>tun_linux.go\<close>): the parser of netlink datagrams
  (\<open>parseNetlinkEvents\<close>, on Go's \<^verbatim>\<open>syscall.ParseNetlinkMessage\<close>), the goroutine that reads the netlink socket
  and the one that probes the device. What the socket and the device answer, and when the shutdown
  channel is closed, are parameters.
\<close>

datatype Event = EventUp | EventDown | EventMTUUpdate

section \<open>Netlink datagrams\<close>

definition NLMSG_DONE :: u16 where "NLMSG_DONE = 3"
definition RTM_NEWLINK :: u16 where "RTM_NEWLINK = 16"
definition SizeofIfInfomsg :: nat where "SizeofIfInfomsg = 16"
definition IFF_RUNNING :: u32 where "IFF_RUNNING = 0x40"

record netlink_message =
  hdrType :: u16
  msgData :: "byte list"

text \<open>\<^verbatim>\<open>syscall.ParseNetlinkMessage\<close>: every message has a 16-byte header whose first word is its length, and starts
  at a multiple of four bytes; a length below the header or beyond the datagram is an error (\<open>None\<close>).\<close>

definition nlmAlignOf :: "nat \<Rightarrow> nat" where
  "nlmAlignOf n = (n + 3) div 4 * 4"

lemma nlmAlignOf_le: "n \<le> nlmAlignOf n"
  by (simp add: nlmAlignOf_def)

function ParseNetlinkMessage :: "endian \<Rightarrow> byte list \<Rightarrow> netlink_message list option" where
  "ParseNetlinkMessage en b =
     (if length b < 16 then Some []
      else let n = native_nat en (take 4 b); l = nlmAlignOf n in
        if n < 16 \<or> length b < l then None
        else do {
          ms \<leftarrow> ParseNetlinkMessage en (drop l b);
          Some (\<lparr>hdrType = of_nat (native_nat en (take 2 (drop 4 b))), msgData = take (n - 16) (drop 16 b)\<rparr> # ms)
        })"
  by pat_completeness auto

termination
proof (relation "measure (\<lambda>(en, b). length b)", goal_cases)
  case (2 en b n l)
  then show ?case using nlmAlignOf_le [of n] by auto
qed simp

declare ParseNetlinkMessage.simps [simp del]

text \<open>The interface message behind \<^verbatim>\<open>&message.Data[0]\<close>; reading beyond the data would be out of bounds.\<close>

record IfInfomsg =
  ifi_index :: "32 word"
  ifi_flags :: u32

definition read_ifinfo :: "endian \<Rightarrow> byte list \<Rightarrow> IfInfomsg option" where
  "read_ifinfo en d = (if length d < SizeofIfInfomsg then None
     else Some \<lparr>ifi_index = of_nat (native_nat en (take 4 (drop 4 d))), ifi_flags = of_nat (native_nat en (take 4 (drop 8 d)))\<rparr>)"

text \<open>The loop over the messages: the events, and whether the interface was ever up.\<close>

fun netlink_events :: "endian \<Rightarrow> 32 word \<Rightarrow> netlink_message list \<Rightarrow> bool \<Rightarrow> (Event list \<times> bool) option" where
  "netlink_events en index [] wasEverUp = Some ([], wasEverUp)"
| "netlink_events en index (m # ms) wasEverUp =
     (if hdrType m = NLMSG_DONE then Some ([], wasEverUp)
      else if hdrType m \<noteq> RTM_NEWLINK \<or> length (msgData m) < SizeofIfInfomsg then netlink_events en index ms wasEverUp
      else do {
        info \<leftarrow> read_ifinfo en (msgData m);
        if ifi_index info \<noteq> index then netlink_events en index ms wasEverUp
        else do {
          let up = (ifi_flags info AND IFF_RUNNING \<noteq> 0);
          (evs, w) \<leftarrow> netlink_events en index ms (up \<or> wasEverUp);
          Some ((if up then [EventUp] else if wasEverUp then [EventDown] else []) @ EventMTUUpdate # evs, w)
        }
      })"

definition parseNetlinkEvents :: "endian \<Rightarrow> byte list \<Rightarrow> 32 word \<Rightarrow> bool \<Rightarrow> (Event list \<times> bool) option" where
  "parseNetlinkEvents en msg index wasEverUp =
     (case ParseNetlinkMessage en msg of
        None \<Rightarrow> Some ([], wasEverUp)
      | Some ms \<Rightarrow> netlink_events en index ms wasEverUp)"

section \<open>The netlink goroutine\<close>

text \<open>One turn of the receive loop: what \<^verbatim>\<open>Recvmsg\<close> answers, what \<open>ReadyRead\<close> answers after a retryable error,
  and whether the shutdown channel is closed when the loop looks at it.\<close>

record netlink_turn =
  recvmsg :: "go_error + byte list"
  readyRead :: bool
  shutDown :: bool

definition RetryAfterError :: "go_error \<Rightarrow> bool" where
  "RetryAfterError e \<longleftrightarrow> errors_is e (SysErr 11) \<or> errors_is e (SysErr 4)"

text \<open>What the goroutine does to the channels, in order. The last three are its deferred actions; the lock of
  \<^verbatim>\<open>hackListenerClosed\<close> comes between the first two.\<close>

datatype listener_action = Emit Event | SendError go_error | CloseSocket | CloseEvents | CloseCancel

definition netlink_exit :: "listener_action list" where
  "netlink_exit = [CloseSocket, CloseEvents, CloseCancel]"

text \<open>\<open>None\<close>: an out-of-bounds read. The list ends without \<open>netlink_exit\<close> when the goroutine is still waiting for
  the next datagram.\<close>

fun routineNetlinkListener :: "endian \<Rightarrow> 32 word \<Rightarrow> netlink_turn list \<Rightarrow> listener_action list option" where
  "routineNetlinkListener en index [] = Some []"
| "routineNetlinkListener en index (t # ts) = (case recvmsg t of
     Inl e \<Rightarrow>
       if RetryAfterError e \<and> readyRead t then routineNetlinkListener en index ts
       else Some (SendError e # netlink_exit)
   | Inr msg \<Rightarrow>
       if shutDown t then Some netlink_exit
       else do {
         (evs, w) \<leftarrow> parseNetlinkEvents en msg index False;
         acts \<leftarrow> routineNetlinkListener en index ts;
         Some (map Emit evs @ acts)
       })"

section \<open>The probing goroutine\<close>

text \<open>The answers to the null write: \<^verbatim>\<open>EINVAL\<close> when the device is up, \<^verbatim>\<open>EIO\<close> when it is down, anything else ends the
  goroutine. \<open>lastUp\<close> is the last reported state, \<open>None\<close> at the start. The result is the events and whether
  the goroutine has ended.\<close>

datatype probe = ProbeEINVAL | ProbeEIO | ProbeOther

fun routineHackListener :: "bool option \<Rightarrow> (probe \<times> bool) list \<Rightarrow> Event list \<times> bool" where
  "routineHackListener lastUp [] = ([], False)"
| "routineHackListener lastUp ((p, shut) # ps) = (case p of
     ProbeOther \<Rightarrow> ([], True)
   | _ \<Rightarrow>
     let up = (p = ProbeEINVAL);
         evs = (if lastUp = Some up then [] else [if up then EventUp else EventDown]);
         (rest, fin) = (if shut then ([], True) else routineHackListener (Some up) ps)
     in (evs @ rest, fin))"

section \<open>Lemmas\<close>

lemma netlink_events_total: "netlink_events en index ms w \<noteq> None"
proof (induction ms arbitrary: w)
  case (Cons m ms)
  show ?case unfolding netlink_events.simps Let_def
    by (intro no_panic Cons.IH) (simp_all add: read_ifinfo_def)
qed simp

text \<open>No \<open>EventDown\<close> without an \<open>EventUp\<close> before it.\<close>

fun down_after_up :: "bool \<Rightarrow> Event list \<Rightarrow> bool" where
  "down_after_up seen [] = True"
| "down_after_up seen (e # es) = ((e = EventDown \<longrightarrow> seen) \<and> down_after_up (seen \<or> e = EventUp) es)"

lemma netlink_events_order:
  "netlink_events en index ms w = Some (evs, w') \<Longrightarrow> down_after_up w evs \<and> (w' \<longleftrightarrow> w \<or> EventUp \<in> set evs)"
proof (induction ms arbitrary: index w evs w')
  case (Cons m ms)
  from Cons.prems show ?case
    by (auto simp: Let_def elim!: run_elims dest!: Cons.IH split: if_splits)
qed simp

lemma parseNetlinkEvents_returns:
  "\<exists>evs w'. parseNetlinkEvents en msg index w = Some (evs, w') \<and> down_after_up w evs \<and> (w' \<longleftrightarrow> w \<or> EventUp \<in> set evs)"
proof (cases "ParseNetlinkMessage en msg")
  case (Some ms)
  then show ?thesis using netlink_events_total [of en index ms w] netlink_events_order [of en index ms w]
    by (auto simp: parseNetlinkEvents_def)
qed (simp add: parseNetlinkEvents_def)

text \<open>The bytes of a message as the kernel lays them out.\<close>

definition nl_bytes :: "endian \<Rightarrow> u16 \<times> byte list \<times> byte list \<Rightarrow> byte list" where
  "nl_bytes en m = (case m of (ty, rest, d) \<Rightarrow>
     nat_native en 4 (16 + length d) @ nat_native en 2 (unat ty) @ rest @ d
       @ replicate (nlmAlignOf (length d) - length d) 0)"

lemma nlmAlignOf_add: "nlmAlignOf (16 + n) = 16 + nlmAlignOf n"
  unfolding nlmAlignOf_def by presburger

lemma length_nl_bytes: "length rest = 10 \<Longrightarrow> length (nl_bytes en (ty, rest, d)) = nlmAlignOf (16 + length d)"
  using nlmAlignOf_le [of "length d"] by (simp add: nl_bytes_def nlmAlignOf_add)

lemma Parse_cons:
  assumes "length rest = 10" and "length d < 2 ^ 32 - 16"
  shows "ParseNetlinkMessage en (nl_bytes en (ty, rest, d) @ bs)
    = map_option (\<lambda>ms. \<lparr>hdrType = ty, msgData = d\<rparr> # ms) (ParseNetlinkMessage en bs)"
proof -
  define b where "b = nl_bytes en (ty, rest, d) @ bs"
  have l: "length (nl_bytes en (ty, rest, d)) = nlmAlignOf (16 + length d)" by (rule length_nl_bytes [OF assms(1)])
  have t4: "take 4 b = nat_native en 4 (16 + length d)" and t2: "take 2 (drop 4 b) = nat_native en 2 (unat ty)"
    and td: "take (length d) (drop 16 b) = d"
    using assms(1) by (simp_all add: b_def nl_bytes_def)
  have n: "native_nat en (take 4 b) = 16 + length d" using assms(2) by (simp add: t4)
  have dr: "drop (nlmAlignOf (16 + length d)) b = bs" using l by (simp add: b_def)
  have lb: "16 \<le> length b" "nlmAlignOf (16 + length d) \<le> length b"
    using l nlmAlignOf_le [of "16 + length d"] by (simp_all add: b_def)
  have ty: "(of_nat (native_nat en (take 2 (drop 4 b))) :: u16) = ty" using unat_less_power [of ty] by (simp add: t2)
  show ?thesis
    unfolding b_def [symmetric] using lb td
    by (subst ParseNetlinkMessage.simps) (simp add: n dr ty Let_def map_option_case Option.bind_def split: option.splits)
qed

lemma Parse_all:
  "\<forall>(ty, rest, d)\<in>set ms. length rest = 10 \<and> length d < 2 ^ 32 - 16 \<Longrightarrow>
   ParseNetlinkMessage en (concat (map (nl_bytes en) ms)) = Some (map (\<lambda>(ty, rest, d). \<lparr>hdrType = ty, msgData = d\<rparr>) ms)"
proof (induction ms)
  case Nil
  then show ?case by (simp add: ParseNetlinkMessage.simps)
next
  case (Cons m ms)
  obtain ty rest d where m: "m = (ty, rest, d)" by (cases m)
  show ?case using Cons by (simp add: m Parse_cons)
qed

lemma listener_returns:
  "\<exists>acts. routineNetlinkListener en index ts = Some acts \<and>
     (\<exists>es tl. acts = map Emit es @ tl \<and> tl \<in> {[], netlink_exit} \<union> {SendError e # netlink_exit | e. True})"
proof (induction ts)
  case (Cons t ts)
  then obtain es tl where IH: "routineNetlinkListener en index ts = Some (map Emit es @ tl)"
    "tl \<in> {[], netlink_exit} \<union> {SendError e # netlink_exit | e. True}" by blast
  show ?case
  proof (cases "recvmsg t")
    case (Inl e)
    then show ?thesis using IH by (auto intro: exI [of _ "[]"])
  next
    case (Inr msg)
    obtain evs w where "parseNetlinkEvents en msg index False = Some (evs, w)"
      using parseNetlinkEvents_returns [of en msg index False] by blast
    then show ?thesis using Inr IH by (auto intro: exI [of _ "[]"] exI [of _ "evs @ es"])
  qed
qed auto

text \<open>The events of the probe: up and down in turn.\<close>

fun alternating :: "bool option \<Rightarrow> Event list \<Rightarrow> bool" where
  "alternating s [] = True"
| "alternating s (e # es) = ((e = EventUp \<and> s \<noteq> Some True \<and> alternating (Some True) es) \<or>
     (e = EventDown \<and> s \<noteq> Some False \<and> alternating (Some False) es))"

lemma hack_alternating: "alternating s (fst (routineHackListener s ps))"
proof (induction s ps rule: routineHackListener.induct)
  case (2 lastUp p shut ps)
  have "alternating lastUp (fst (routineHackListener lastUp ps))" if "lastUp = Some up" "p \<noteq> ProbeOther" "up = (p = ProbeEINVAL)" "\<not> shut" for up
    using 2 that by (cases p) auto
  then show ?case using 2
    by (cases p; cases lastUp) (auto simp: Let_def split: prod.splits)
qed simp

lemma down_needs_up: "down_after_up seen evs \<Longrightarrow> EventDown \<in> set evs \<Longrightarrow> seen \<or> EventUp \<in> set evs"
  by (induction evs arbitrary: seen) auto

lemma alternating_changes:
  "alternating s es \<Longrightarrow> set es \<subseteq> {EventUp, EventDown} \<and> (\<forall>i. Suc i < length es \<longrightarrow> es ! i \<noteq> es ! Suc i)"
proof (induction es arbitrary: s)
  case (Cons e es)
  then obtain s' where s': "alternating s' es" "e \<in> {EventUp, EventDown}" "s' = Some (e = EventUp)" by auto
  show ?case
    using Cons.IH [OF s'(1)] s' by (cases es) (auto simp: nth_Cons split: nat.splits)
qed simp

section \<open>Properties\<close>

text \<open>C0. A datagram is read as the kernel wrote it: the messages of a well-formed datagram come back in order, header type
  and data unchanged, on either byte order.\<close>

theorem ParseNetlinkMessage_roundtrip:
  assumes "\<forall>(ty, rest, d)\<in>set ms. length rest = 10 \<and> length d < 2 ^ 32 - 16"
  shows "ParseNetlinkMessage en (concat (map (nl_bytes en) ms)) = Some (map (\<lambda>(ty, rest, d). \<lparr>hdrType = ty, msgData = d\<rparr>) ms)"
  by (rule Parse_all [OF assms])

theorem ParseNetlinkMessage_roundtrip_witness:
  "ParseNetlinkMessage LittleEndian (concat (map (nl_bytes LittleEndian) [(16, replicate 10 0, [1, 2, 3]), (3, replicate 10 7, [])]))
    = Some [\<lparr>hdrType = 16, msgData = [1, 2, 3]\<rparr>, \<lparr>hdrType = 3, msgData = []\<rparr>]"
  by (subst ParseNetlinkMessage_roundtrip) auto

text \<open>C30. For any bytes at all, \<open>parseNetlinkEvents\<close> reads nothing out of bounds, emits no \<open>EventDown\<close> before the
  interface was up, and records exactly whether it was.\<close>

theorem parseNetlinkEvents_safe:
  "\<exists>evs w'. parseNetlinkEvents en msg index w = Some (evs, w') \<and> (w' \<longleftrightarrow> w \<or> EventUp \<in> set evs) \<and>
    (\<forall>i < length evs. evs ! i = EventDown \<longrightarrow> w \<or> EventUp \<in> set (take i evs))"
proof -
  have down: "down_after_up w evs \<Longrightarrow> i < length evs \<Longrightarrow> evs ! i = EventDown \<Longrightarrow> w \<or> EventUp \<in> set (take i evs)" for w evs i
    by (induction evs arbitrary: w i) (auto simp: nth_Cons take_Cons split: nat.splits)
  obtain evs w' where r: "parseNetlinkEvents en msg index w = Some (evs, w')" "down_after_up w evs" "w' \<longleftrightarrow> w \<or> EventUp \<in> set evs"
    using parseNetlinkEvents_returns [of en msg index w] by blast
  then show ?thesis using down [OF r(2)] by blast
qed

text \<open>The netlink goroutine closes the event channel at most once and last: whatever the socket answers, its actions
  are events, then possibly one error, then the closing of socket, event channel and cancel pipe, or nothing yet.\<close>

theorem routineNetlinkListener_closes_last:
  "\<exists>es err. routineNetlinkListener en index ts \<in> {Some (map Emit es), Some (map Emit es @ [CloseSocket, CloseEvents, CloseCancel]),
     Some (map Emit es @ [SendError err, CloseSocket, CloseEvents, CloseCancel])}"
  using listener_returns [of en index ts] by (auto simp: netlink_exit_def)

text \<open>The memory of an interface that was up does not outlive a datagram: when no message of a datagram shows the
  interface running, the goroutine reports no \<open>EventDown\<close> for it, whatever came before.\<close>

theorem routineNetlinkListener_forgets:
  assumes "routineNetlinkListener en index ts = Some acts" and "Emit EventDown \<in> set acts"
  shows "\<exists>t msg evs w. t \<in> set ts \<and> recvmsg t = Inr msg \<and> parseNetlinkEvents en msg index False = Some (evs, w) \<and>
    EventDown \<in> set evs \<and> EventUp \<in> set evs"
  using assms
proof (induction ts arbitrary: acts)
  case (Cons t ts)
  show ?case
  proof (cases "recvmsg t")
    case (Inl e)
    then show ?thesis using Cons by (auto simp: netlink_exit_def split: if_splits)
  next
    case (Inr msg)
    obtain evs w where e: "parseNetlinkEvents en msg index False = Some (evs, w)" "down_after_up False evs"
      using parseNetlinkEvents_returns [of en msg index False] by blast
    have "EventDown \<in> set evs \<Longrightarrow> EventUp \<in> set evs"
      using down_needs_up [OF e(2)] by blast
    then show ?thesis using Cons Inr e(1) by (fastforce simp: netlink_exit_def elim!: run_elims split: if_splits)
  qed
qed simp

text \<open>The probing goroutine reports changes only: its events are up and down in turn, starting from the last state.\<close>

theorem routineHackListener_alternates:
  "let es = fst (routineHackListener None ps) in
   set es \<subseteq> {EventUp, EventDown} \<and> (\<forall>i. Suc i < length es \<longrightarrow> es ! i \<noteq> es ! Suc i)"
proof -
  show ?thesis using alternating_changes [OF hack_alternating [of None ps]] by (simp add: Let_def)
qed

definition ex_info :: "byte \<Rightarrow> u16 \<times> byte list \<times> byte list" where
  "ex_info fl = (RTM_NEWLINK, replicate 10 0, [0, 0, 0, 0, 7, 0, 0, 0, fl, 0, 0, 0, 0, 0, 0, 0])"

definition ex_turn :: "byte list \<Rightarrow> netlink_turn" where
  "ex_turn fls = \<lparr>recvmsg = Inr (concat (map (nl_bytes LittleEndian) (map ex_info fls))), readyRead = False, shutDown = False\<rparr>"

lemma ex_turn_parse: "parseNetlinkEvents LittleEndian (concat (map (nl_bytes LittleEndian) (map ex_info fls))) 7 w
    = netlink_events LittleEndian 7 (map (\<lambda>(ty, rest, d). \<lparr>hdrType = ty, msgData = d\<rparr>) (map ex_info fls)) w"
  by (simp only: parseNetlinkEvents_def, subst Parse_all) (auto simp: ex_info_def)

lemma ex_infos: "read_ifinfo LittleEndian [0, 0, 0, 0, 7, 0, 0, 0, fl, 0, 0, 0, 0, 0, 0, 0] = Some \<lparr>ifi_index = 7, ifi_flags = ucast fl\<rparr>"
  by (simp add: read_ifinfo_def SizeofIfInfomsg_def native_nat_def)

lemma ex_turn_up_down: "routineNetlinkListener LittleEndian 7 [ex_turn [0x40, 0]]
    = Some [Emit EventUp, Emit EventMTUUpdate, Emit EventDown, Emit EventMTUUpdate]"
  unfolding routineNetlinkListener.simps ex_turn_def netlink_turn.simps sum.case if_False ex_turn_parse
  by (simp add: ex_info_def ex_infos RTM_NEWLINK_def NLMSG_DONE_def SizeofIfInfomsg_def IFF_RUNNING_def)

text \<open>The interface goes up in one datagram and down in the next: the goroutine reports the first only.\<close>

lemma listener_drops_down: "routineNetlinkListener LittleEndian 7 [ex_turn [0x40], ex_turn [0]]
    = Some [Emit EventUp, Emit EventMTUUpdate, Emit EventMTUUpdate]"
  unfolding routineNetlinkListener.simps ex_turn_def netlink_turn.simps sum.case if_False ex_turn_parse
  by (simp add: ex_info_def ex_infos RTM_NEWLINK_def NLMSG_DONE_def SizeofIfInfomsg_def IFF_RUNNING_def)

theorem routineNetlinkListener_forgets_witness:
  "\<exists>t msg evs w. t \<in> set [ex_turn [0x40, 0]] \<and> recvmsg t = Inr msg \<and>
    parseNetlinkEvents LittleEndian msg 7 False = Some (evs, w) \<and> EventDown \<in> set evs \<and> EventUp \<in> set evs"
  by (rule routineNetlinkListener_forgets [OF ex_turn_up_down]) simp

theorem parseNetlinkEvents_safe_witness:
  "\<exists>evs w. parseNetlinkEvents LittleEndian (concat (map (nl_bytes LittleEndian) (map ex_info [0x40, 0]))) 7 False = Some (evs, w) \<and>
    (w \<longleftrightarrow> EventUp \<in> set evs)"
  using parseNetlinkEvents_safe [of LittleEndian "concat (map (nl_bytes LittleEndian) (map ex_info [0x40, 0]))" 7 False] by blast

theorem routineHackListener_alternates_witness:
  "fst (routineHackListener None [(ProbeEINVAL, False), (ProbeEINVAL, False), (ProbeEIO, False)]) = [EventUp, EventDown] \<and> EventUp \<noteq> EventDown"
proof -
  have e: "fst (routineHackListener None [(ProbeEINVAL, False), (ProbeEINVAL, False), (ProbeEIO, False)]) = [EventUp, EventDown]" by simp
  show ?thesis
    using routineHackListener_alternates [of "[(ProbeEINVAL, False), (ProbeEINVAL, False), (ProbeEIO, False)]"] e
    unfolding e Let_def by auto
qed

end
