(* ===== verification/Rw_Cancel.thy ===== *)
theory Rw_Cancel
  imports Netlink
begin

text \<open>
  Cancelable reads and writes on a file descriptor (\<^verbatim>\<open>rwcancel/rwcancel.go\<close>): the poll loops of \<open>ReadyRead\<close> and
  \<open>ReadyWrite\<close>, the retry loops of \<open>Read\<close> and \<open>Write\<close>, and the pipe that \<open>Cancel\<close> and \<open>Close\<close> work on. What \<^verbatim>\<open>poll\<close>,
  \<^verbatim>\<open>read\<close> and \<^verbatim>\<open>write\<close> answer is a parameter, call by call; a run of answers that is used up stands for a call
  that has not returned yet.
\<close>

section \<open>The closing pipe\<close>

record RWCancel =
  readerOpen :: bool
  writerOpen :: bool
  pipeBytes :: nat

definition new_pipe :: RWCancel where
  "new_pipe = \<lparr>readerOpen = True, writerOpen = True, pipeBytes = 0\<rparr>"

definition NewRWCancel :: "go_error option \<Rightarrow> go_error option \<Rightarrow> go_error + RWCancel" where
  "NewRWCancel setNonblock pipe = (case setNonblock of
     Some e \<Rightarrow> Inl e
   | None \<Rightarrow> (case pipe of Some e \<Rightarrow> Inl e | None \<Rightarrow> Inr new_pipe))"

text \<open>\<^verbatim>\<open>EPIPE\<close>. A write of one byte to the pipe; \<open>refused\<close>: an error of the system on an open pipe.\<close>

definition EPIPE :: go_error where "EPIPE = SysErr 32"

definition closing_write :: "go_error option \<Rightarrow> RWCancel \<Rightarrow> RWCancel \<times> go_error option" where
  "closing_write refused rw =
     (if \<not> writerOpen rw then (rw, Some ErrClosed)
      else if \<not> readerOpen rw then (rw, Some EPIPE)
      else case refused of Some e \<Rightarrow> (rw, Some e) | None \<Rightarrow> (rw\<lparr>pipeBytes := Suc (pipeBytes rw)\<rparr>, None))"

definition Cancel :: "go_error option \<Rightarrow> RWCancel \<Rightarrow> RWCancel \<times> go_error option" where
  "Cancel refused rw = (case closing_write refused rw of
     (rw, err) \<Rightarrow> (rw, if err = Some EPIPE \<or> err = Some ErrClosed then None else err))"

text \<open>\<open>Close\<close> closes the reader, then the writer; \<open>CloseReader\<close> is the state between the two.\<close>

datatype rw_action = DoCancel "go_error option" | CloseReader | CloseWriter

fun rw_act :: "rw_action \<Rightarrow> RWCancel \<Rightarrow> RWCancel \<times> go_error option" where
  "rw_act (DoCancel refused) rw = Cancel refused rw"
| "rw_act CloseReader rw = (rw\<lparr>readerOpen := False\<rparr>, None)"
| "rw_act CloseWriter rw = (rw\<lparr>writerOpen := False\<rparr>, None)"

definition rw_Close :: "RWCancel \<Rightarrow> RWCancel" where
  "rw_Close rw = fst (rw_act CloseWriter (fst (rw_act CloseReader rw)))"

fun rw_run :: "rw_action list \<Rightarrow> RWCancel \<Rightarrow> RWCancel \<times> go_error option list" where
  "rw_run [] rw = (rw, [])"
| "rw_run (a # as) rw = (let (rw, err) = rw_act a rw; (rw, errs) = rw_run as rw in (rw, err # errs))"

section \<open>Waiting\<close>

text \<open>An answer of \<^verbatim>\<open>poll\<close>: an error, or whether \<^verbatim>\<open>Revents\<close> of the descriptor and of the pipe are nonzero.\<close>

type_synonym poll_answer = "go_error + bool \<times> bool"

fun poll_loop :: "poll_answer list \<Rightarrow> (poll_answer \<times> poll_answer list) option" where
  "poll_loop [] = None"
| "poll_loop (Inl e # as) = (if RetryAfterError e then poll_loop as else Some (Inl e, as))"
| "poll_loop (Inr r # as) = Some (Inr r, as)"

definition ReadyRead :: "poll_answer list \<Rightarrow> (bool \<times> poll_answer list) option" where
  "ReadyRead as = do {
     (a, as) \<leftarrow> poll_loop as;
     Some (case a of
         Inl e \<Rightarrow> False
       | Inr (ready, closing) \<Rightarrow> if closing then False else ready, as)
   }"

text \<open>The two functions differ in the event they ask \<^verbatim>\<open>poll\<close> for.\<close>

definition ReadyWrite :: "poll_answer list \<Rightarrow> (bool \<times> poll_answer list) option" where
  "ReadyWrite = ReadyRead"

section \<open>Reading and writing\<close>

text \<open>\<open>tries\<close>: the count and error of every call of the descriptor.\<close>

fun rw_loop ::
  "(poll_answer list \<Rightarrow> (bool \<times> poll_answer list) option) \<Rightarrow> (int \<times> go_error option) list \<Rightarrow> poll_answer list
    \<Rightarrow> (int \<times> go_error option) option" where
  "rw_loop ready [] as = None"
| "rw_loop ready ((n, err) # tries) as = (case err of
     None \<Rightarrow> Some (n, None)
   | Some e \<Rightarrow>
       if \<not> RetryAfterError e then Some (n, Some e)
       else do {
         (go, as) \<leftarrow> ready as;
         if \<not> go then Some (0, Some ErrClosed) else rw_loop ready tries as
       })"

definition rw_Read :: "(int \<times> go_error option) list \<Rightarrow> poll_answer list \<Rightarrow> (int \<times> go_error option) option" where
  "rw_Read = rw_loop ReadyRead"

definition rw_Write :: "(int \<times> go_error option) list \<Rightarrow> poll_answer list \<Rightarrow> (int \<times> go_error option) option" where
  "rw_Write = rw_loop ReadyWrite"

section \<open>Lemmas\<close>

text \<open>The pipe end that is polled is ready when a byte waits in it or one of its ends is gone.\<close>

definition closing_ready :: "RWCancel \<Rightarrow> bool" where
  "closing_ready rw \<longleftrightarrow> 0 < pipeBytes rw \<or> \<not> readerOpen rw \<or> \<not> writerOpen rw"

lemma closing_ready_act: "closing_ready rw \<Longrightarrow> closing_ready (fst (rw_act a rw))"
  by (cases a) (auto simp: closing_ready_def Cancel_def closing_write_def split: option.splits)

lemma closing_ready_run: "closing_ready rw \<Longrightarrow> closing_ready (fst (rw_run as rw))"
proof (induction as arbitrary: rw)
  case (Cons a as)
  then show ?case using Cons.IH [OF closing_ready_act [OF Cons.prems, of a]] by (auto simp: Let_def split: prod.splits)
qed simp

lemma cancel_makes_ready: "a \<noteq> DoCancel (Some e) \<Longrightarrow> \<forall>e. a \<noteq> DoCancel (Some e) \<Longrightarrow> closing_ready (fst (rw_act a rw))"
  by (cases a) (auto simp: closing_ready_def Cancel_def closing_write_def split: option.splits)

lemma rw_run_ready:
  assumes "as \<noteq> []" and "\<forall>e. DoCancel (Some e) \<notin> set as"
  shows "closing_ready (fst (rw_run as rw))"
proof (cases as)
  case (Cons a as')
  have "\<forall>e. a \<noteq> DoCancel (Some e)" using assms(2) Cons by auto
  then have "closing_ready (fst (rw_act a rw))" using cancel_makes_ready by blast
  then show ?thesis using closing_ready_run [of "fst (rw_act a rw)" as'] Cons by (auto simp: Let_def split: prod.splits)
qed (use assms in simp)

lemma rw_run_errors: "\<forall>e. DoCancel (Some e) \<notin> set as \<Longrightarrow> set (snd (rw_run as rw)) \<subseteq> {None}"
proof (induction as arbitrary: rw)
  case (Cons a as)
  have "snd (rw_act a rw) = None"
    using Cons.prems by (cases a) (auto simp: Cancel_def closing_write_def EPIPE_def split: option.splits)
  then show ?case using Cons.IH [of "fst (rw_act a rw)"] Cons.prems by (auto simp: Let_def split: prod.splits)
qed simp

text \<open>\<^verbatim>\<open>poll\<close> sees the pipe.\<close>

definition sees_pipe :: "RWCancel \<Rightarrow> poll_answer list \<Rightarrow> bool" where
  "sees_pipe rw as \<longleftrightarrow> (\<forall>r c. Inr (r, c) \<in> set as \<longrightarrow> (c \<longleftrightarrow> closing_ready rw))"

lemma ReadyRead_cancelled:
  "sees_pipe rw as \<Longrightarrow> closing_ready rw \<Longrightarrow> ReadyRead as = None \<or> (\<exists>as'. ReadyRead as = Some (False, as'))"
  by (induction as rule: poll_loop.induct) (auto simp: ReadyRead_def sees_pipe_def split: sum.splits)

lemma poll_loop_None: "poll_loop as = None \<longleftrightarrow> (\<forall>a\<in>set as. \<exists>e. a = Inl e \<and> RetryAfterError e)"
  by (induction as rule: poll_loop.induct) auto

lemma rw_loop_ready:
  assumes "\<forall>(n, err)\<in>set tries. \<exists>e. err = Some e \<and> RetryAfterError e" and "err = None \<or> (\<exists>e. err = Some e \<and> \<not> RetryAfterError e)"
  shows "rw_loop ReadyRead (tries @ (n, err) # rest) (replicate (length tries) (Inr (True, False)) @ as) = Some (n, err)"
  using assms by (induction tries) (auto simp: ReadyRead_def)

section \<open>Properties\<close>



text \<open>C0. Without cancellation the wait is transparent: when every \<^verbatim>\<open>poll\<close> reports the descriptor and not the pipe, \<open>Read\<close> and \<open>Write\<close> return the result of
  the first call that succeeds or fails with an error other than \<^verbatim>\<open>EAGAIN\<close> and \<^verbatim>\<open>EINTR\<close>, after as many waits as there were such errors.\<close>

theorem rw_retries:
  assumes "\<forall>(n, err)\<in>set tries. \<exists>e. err = Some e \<and> RetryAfterError e" and "err = None \<or> (\<exists>e. err = Some e \<and> \<not> RetryAfterError e)"
  shows "rw_Read (tries @ (n, err) # rest) (replicate (length tries) (Inr (True, False)) @ as) = Some (n, err) \<and>
    rw_Write (tries @ (n, err) # rest) (replicate (length tries) (Inr (True, False)) @ as) = Some (n, err)"
  using rw_loop_ready [OF assms] by (simp add: rw_Read_def rw_Write_def ReadyWrite_def)

theorem rw_retries_witness:
  "rw_Read ([(0, Some (SysErr 11)), (0, Some (SysErr 4))] @ (7, None) # []) (replicate 2 (Inr (True, False)) @ []) = Some (7, None)"
  using rw_retries [of "[(0, Some (SysErr 11)), (0, Some (SysErr 4))]" None 7 "[]" "[]"] by (simp add: RetryAfterError_def numeral_2_eq_2)



end
