(* ===== verification/Linux_Lifecycle.thy ===== *)
theory Linux_Lifecycle
  imports Os_Calls Rw_Cancel
begin

text \<open>
  Creation, configuration and closing of the Linux device (\<^verbatim>\<open>tun_linux.go\<close>), as programs of system calls:
  the constructors with every early return, name, index and MTU, and \<open>Close\<close>. The lemmas
  say which descriptors each program leaves open.
\<close>

section \<open>Name, index and MTU\<close>

text \<open>What of the device the lifecycle uses; \<open>data\<close> is the state of \<open>Read\<close> and \<open>Write\<close>.\<close>

record linux_dev =
  tunFile :: fd
  index :: "32 word"
  netlinkSock :: fd
  netlinkCancel :: "fd option"
  hasShutdown :: bool
  nameCache :: "(go_error + string) option"
  data :: NativeTun

definition nameSlow :: "os_env \<Rightarrow> fd \<Rightarrow> (os_log, go_error + string) state" where
  "nameSlow env file = do {
     e \<leftarrow> os_do env (SyscallConn file);
     case e of
       Some e \<Rightarrow> ret (Inl e)
     | None \<Rightarrow> do {
     e \<leftarrow> os_do env (Control file);
     case e of
       Some e \<Rightarrow> ret (Inl (ErrWrap ''failed to get name of TUN device'' e))
     | None \<Rightarrow> do {
     r \<leftarrow> os_text env (Ioctl file ''TUNGETIFF'' NoArg);
     case r of
       Inl errno \<Rightarrow> ret (Inl (ErrWrap ''failed to get name of TUN device'' errno))
     | Inr name \<Rightarrow> ret (Inr name)
     }}}"

text \<open>\<open>Name\<close> asks once and keeps the answer, an error too.\<close>

definition Name :: "os_env \<Rightarrow> linux_dev \<Rightarrow> (os_log, (go_error + string) \<times> linux_dev) state" where
  "Name env dev = (case nameCache dev of
     Some r \<Rightarrow> ret (r, dev)
   | None \<Rightarrow> do {
       r \<leftarrow> nameSlow env (tunFile dev);
       ret (r, dev\<lparr>nameCache := Some r\<rparr>)
     })"

definition getIFIndex :: "os_env \<Rightarrow> string \<Rightarrow> (os_log, go_error + 32 word) state" where
  "getIFIndex env name = do {
     r \<leftarrow> os_open env (Socket ''AF_INET SOCK_DGRAM'');
     case r of
       Inl e \<Rightarrow> ret (Inl e)
     | Inr fd \<Rightarrow> do {
     r \<leftarrow> os_number env (Ioctl fd ''SIOCGIFINDEX'' (IfName name));
     os_ignore env (CloseFd fd);
     case r of
       Inl errno \<Rightarrow> ret (Inl errno)
     | Inr i \<Rightarrow> ret (Inr (of_int i))
     }}"

definition setMTU :: "os_env \<Rightarrow> linux_dev \<Rightarrow> int \<Rightarrow> (os_log, go_error option \<times> linux_dev) state" where
  "setMTU env dev n = do {
     (r, dev) \<leftarrow> Name env dev;
     case r of
       Inl e \<Rightarrow> ret (Some e, dev)
     | Inr name \<Rightarrow> do {
     r \<leftarrow> os_open env (Socket ''AF_INET SOCK_DGRAM'');
     case r of
       Inl e \<Rightarrow> ret (Some e, dev)
     | Inr fd \<Rightarrow> do {
     e \<leftarrow> os_do env (Ioctl fd ''SIOCSIFMTU'' (IfMTU name (of_int n)));
     os_ignore env (CloseFd fd);
     case e of
       Some errno \<Rightarrow> ret (Some (ErrWrap ''failed to set MTU of TUN device'' errno), dev)
     | None \<Rightarrow> ret (None, dev)
     }}}"

text \<open>The four bytes of the answer are read as a signed number.\<close>

definition MTU :: "os_env \<Rightarrow> linux_dev \<Rightarrow> (os_log, (go_error + int) \<times> linux_dev) state" where
  "MTU env dev = do {
     (r, dev) \<leftarrow> Name env dev;
     case r of
       Inl e \<Rightarrow> ret (Inl e, dev)
     | Inr name \<Rightarrow> do {
     r \<leftarrow> os_open env (Socket ''AF_INET SOCK_DGRAM'');
     case r of
       Inl e \<Rightarrow> ret (Inl e, dev)
     | Inr fd \<Rightarrow> do {
     r \<leftarrow> os_number env (Ioctl fd ''SIOCGIFMTU'' (IfName name));
     os_ignore env (CloseFd fd);
     case r of
       Inl errno \<Rightarrow> ret (Inl (ErrWrap ''failed to get MTU of TUN device'' errno), dev)
     | Inr v \<Rightarrow> ret (Inr (sint (of_int v :: 32 word)), dev)
     }}}"

section \<open>Constructors\<close>

definition createNetlinkSocket :: "os_env \<Rightarrow> (os_log, go_error + fd) state" where
  "createNetlinkSocket env = do {
     r \<leftarrow> os_open env (Socket ''AF_NETLINK SOCK_RAW'');
     case r of
       Inl e \<Rightarrow> ret (Inl e)
     | Inr sock \<Rightarrow> do {
     e \<leftarrow> os_do env (Bind sock);
     case e of
       Some e \<Rightarrow> ret (Inl e)
     | None \<Rightarrow> ret (Inr sock)
     }}"

text \<open>\<open>NewRWCancel\<close> as calls.\<close>

definition os_NewRWCancel :: "os_env \<Rightarrow> fd \<Rightarrow> (os_log, go_error + fd) state" where
  "os_NewRWCancel env fd = do {
     e \<leftarrow> os_do env (SetNonblock fd);
     case e of
       Some e \<Rightarrow> ret (Inl e)
     | None \<Rightarrow> os_open env PipePair
     }"

text \<open>The offloads asked for: checksums with TSO, and with USO beside them.\<close>

definition tunTCPOffloads :: int where "tunTCPOffloads = 0x01 + 0x02 + 0x04"
definition tunUDPOffloads :: int where "tunUDPOffloads = 0x20 + 0x40"

definition os_initFromFlags :: "os_env \<Rightarrow> fd \<Rightarrow> string \<Rightarrow> NativeTun \<Rightarrow> (os_log, NativeTun \<times> (go_error + unit)) state" where
  "os_initFromFlags env file name tun = do {
     e \<leftarrow> os_do env (SyscallConn file);
     case e of
       Some e \<Rightarrow> ret (tun, Inl e)
     | None \<Rightarrow> do {
     e \<leftarrow> os_do env (Control file);
     case e of
       Some e \<Rightarrow> ret (tun, Inl e)
     | None \<Rightarrow> do {
     e \<leftarrow> os_do env (NewIfreq name);
     case e of
       Some e \<Rightarrow> ret (tun, Inl e)
     | None \<Rightarrow> do {
     r \<leftarrow> os_number env (Ioctl file ''TUNGETIFF'' (IfName name));
     case r of
       Inl e \<Rightarrow> ret (initFromFlags (Inl e) None None tun)
     | Inr got \<Rightarrow>
         if of_int got AND IFF_VNET_HDR \<noteq> 0 then do {
           tcp \<leftarrow> os_do env (Ioctl file ''TUNSETOFFLOAD'' (IntArg tunTCPOffloads));
           case tcp of
             Some e \<Rightarrow> ret (initFromFlags (Inr (of_int got)) (Some e) None tun)
           | None \<Rightarrow> do {
               udp \<leftarrow> os_do env (Ioctl file ''TUNSETOFFLOAD'' (IntArg (tunTCPOffloads + tunUDPOffloads)));
               ret (initFromFlags (Inr (of_int got)) None udp tun)
             }
         } else ret (initFromFlags (Inr (of_int got)) None None tun)
     }}}}"

definition new_dev :: "fd \<Rightarrow> bool \<Rightarrow> linux_dev" where
  "new_dev file monitored = \<lparr>tunFile = file, index = 0, netlinkSock = 0, netlinkCancel = None, hasShutdown = monitored,
     nameCache = None, data = new_tun\<rparr>"

definition CreateTUNFromFile :: "os_env \<Rightarrow> fd \<Rightarrow> int \<Rightarrow> (os_log, go_error + linux_dev) state" where
  "CreateTUNFromFile env file mtu = do {
     (r, tun) \<leftarrow> Name env (new_dev file True);
     case r of
       Inl e \<Rightarrow> ret (Inl e)
     | Inr name \<Rightarrow> do {
     (d, r) \<leftarrow> os_initFromFlags env file name (data tun);
     case r of
       Inl e \<Rightarrow> ret (Inl e)
     | Inr _ \<Rightarrow> do {
     r \<leftarrow> getIFIndex env name;
     case r of
       Inl e \<Rightarrow> ret (Inl e)
     | Inr i \<Rightarrow> do {
     r \<leftarrow> createNetlinkSocket env;
     case r of
       Inl e \<Rightarrow> ret (Inl e)
     | Inr sock \<Rightarrow> do {
     r \<leftarrow> os_NewRWCancel env sock;
     case r of
       Inl e \<Rightarrow> do { os_ignore env (CloseFd sock); ret (Inl e) }
     | Inr pipe \<Rightarrow> do {
     os_ignore env (Spawn ''routineNetlinkListener'');
     os_ignore env (Spawn ''routineHackListener'');
     (e, tun) \<leftarrow> setMTU env (tun\<lparr>data := d, index := i, netlinkSock := sock, netlinkCancel := Some pipe\<rparr>) mtu;
     case e of
       Some e \<Rightarrow> do { os_ignore env (CloseFd sock); ret (Inl e) }
     | None \<Rightarrow> ret (Inr tun)
     }}}}}}"

text \<open>\<open>IFF_TUN | IFF_NO_PI | IFF_VNET_HDR\<close>. \<^verbatim>\<open>os.IsNotExist\<close> is true for \<^verbatim>\<open>ENOENT\<close>.\<close>

text \<open>\<^verbatim>\<open>%q\<close> of a name without special characters.\<close>

definition quoted :: "string \<Rightarrow> string" where
  "quoted s = CHR 0x22 # s @ [CHR 0x22]"

definition tun_flags :: u32 where "tun_flags = 0x0001 + 0x1000 + 0x4000"

definition CreateTUN :: "os_env \<Rightarrow> string \<Rightarrow> int \<Rightarrow> (os_log, go_error + linux_dev) state" where
  "CreateTUN env name mtu = do {
     r \<leftarrow> os_open env (OpenFile ''/dev/net/tun'');
     case r of
       Inl e \<Rightarrow> ret (Inl (if e = SysErr 2 then ErrMsg (''CreateTUN('' @ quoted name @ '') failed; /dev/net/tun does not exist'') else e))
     | Inr nfd \<Rightarrow> do {
     e \<leftarrow> os_do env (NewIfreq name);
     case e of
       Some e \<Rightarrow> ret (Inl e)
     | None \<Rightarrow> do {
     e \<leftarrow> os_do env (Ioctl nfd ''TUNSETIFF'' (IfFlags name tun_flags));
     case e of
       Some e \<Rightarrow> ret (Inl e)
     | None \<Rightarrow> do {
     e \<leftarrow> os_do env (SetNonblock nfd);
     case e of
       Some e \<Rightarrow> do { os_ignore env (CloseFd nfd); ret (Inl e) }
     | None \<Rightarrow> CreateTUNFromFile env nfd mtu
     }}}}"

definition CreateUnmonitoredTUNFromFD :: "os_env \<Rightarrow> fd \<Rightarrow> (os_log, go_error + linux_dev \<times> string) state" where
  "CreateUnmonitoredTUNFromFD env fd = do {
     e \<leftarrow> os_do env (SetNonblock fd);
     case e of
       Some e \<Rightarrow> ret (Inl e)
     | None \<Rightarrow> do {
     (r, tun) \<leftarrow> Name env (new_dev fd False);
     case r of
       Inl e \<Rightarrow> ret (Inl e)
     | Inr name \<Rightarrow> do {
     (d, r) \<leftarrow> os_initFromFlags env fd name (data tun);
     case r of
       Inl e \<Rightarrow> ret (Inl e)
     | Inr _ \<Rightarrow> ret (Inr (tun\<lparr>data := d\<rparr>, name))
     }}}"

section \<open>Closing\<close>

text \<open>The actions of the first \<open>Close\<close> on channels, and its two errors; \<^verbatim>\<open>closeOnce\<close> makes every later call return nil.\<close>

datatype close_action = CloseShutdown | CloseEventChannel

definition os_Cancel :: "os_env \<Rightarrow> fd \<Rightarrow> (os_log, go_error option) state" where
  "os_Cancel env pipe = do {
     err \<leftarrow> os_do env (WriteCancel pipe);
     ret (case err of Some e \<Rightarrow> if errors_is e EPIPE \<or> errors_is e ErrClosed then None else Some e | None \<Rightarrow> None)
   }"

definition Close_once :: "os_env \<Rightarrow> linux_dev \<Rightarrow> (os_log, close_action list \<times> go_error list) state" where
  "Close_once env dev = do {
     (acts, err1) \<leftarrow> (if hasShutdown dev then do {
         err1 \<leftarrow> (case netlinkCancel dev of Some pipe \<Rightarrow> os_Cancel env pipe | None \<Rightarrow> ret None);
         ret ([CloseShutdown], err1)
       } else ret ([CloseEventChannel], None));
     err2 \<leftarrow> os_do env (CloseFd (tunFile dev));
     ret (acts, (case err1 of Some e \<Rightarrow> [e] | None \<Rightarrow> []) @ (case err2 of Some e \<Rightarrow> [e] | None \<Rightarrow> []))
   }"

definition Close :: "os_env \<Rightarrow> bool \<Rightarrow> linux_dev \<Rightarrow> (os_log, close_action list \<times> go_error list) state" where
  "Close env done dev = (if done then ret ([], []) else Close_once env dev)"

text \<open>What the netlink goroutine closes at its end.\<close>

definition netlink_exit_calls :: "os_env \<Rightarrow> linux_dev \<Rightarrow> (os_log, unit) state" where
  "netlink_exit_calls env dev = do {
     os_ignore env (CloseFd (netlinkSock dev));
     case netlinkCancel dev of Some pipe \<Rightarrow> os_ignore env (CloseFd pipe) | None \<Rightarrow> ret ()
   }"

section \<open>Descriptors\<close>

lemma nameSlow_kept [os_rules]:
  assumes "\<And>e l'. fds_kept l l' \<Longrightarrow> Q (Inl e) l'" and "\<And>n l'. fds_kept l l' \<Longrightarrow> Q (Inr n) l'"
  shows "ensures l (nameSlow env f) Q"
  unfolding nameSlow_def by (intro os_rules; rule assms) (auto dest!: loggedD simp: fds_kept_def)

text \<open>A device differs from another in its cached name at most.\<close>

definition renamed :: "linux_dev \<Rightarrow> linux_dev \<Rightarrow> bool" where
  "renamed dev dev' \<longleftrightarrow> (\<exists>c. dev' = dev\<lparr>nameCache := c\<rparr>)"

lemma renamed_refl [simp]: "renamed dev dev"
  unfolding renamed_def by (rule exI [of _ "nameCache dev"]) simp

lemma renamed_update [simp]: "renamed dev (dev\<lparr>nameCache := c\<rparr>)"
  unfolding renamed_def by blast

lemma fds_kept_refl [simp]: "fds_kept l l"
  by (simp add: fds_kept_def)

lemma Name_kept [os_rules]:
  assumes "\<And>e dev' l'. fds_kept l l' \<Longrightarrow> renamed dev dev' \<Longrightarrow> Q (Inl e, dev') l'"
    and "\<And>n dev' l'. fds_kept l l' \<Longrightarrow> renamed dev dev' \<Longrightarrow> Q (Inr n, dev') l'"
  shows "ensures l (Name env dev) Q"
proof (cases "nameCache dev")
  case None
  then show ?thesis unfolding Name_def by (simp, intro os_rules) (auto intro: assms)
next
  case (Some r)
  then show ?thesis unfolding Name_def by (cases r) (auto intro!: ensures_return assms)
qed

lemma getIFIndex_kept [os_rules]:
  assumes "\<And>e l'. fds_kept l l' \<Longrightarrow> Q (Inl e) l'" and "\<And>n l'. fds_kept l l' \<Longrightarrow> Q (Inr n) l'"
  shows "ensures l (getIFIndex env name) Q"
  unfolding getIFIndex_def by (intro os_rules; rule assms) (auto dest!: loggedD simp: fds_kept_def)

lemma setMTU_kept [os_rules]:
  assumes "\<And>e dev' l'. fds_kept l l' \<Longrightarrow> renamed dev dev' \<Longrightarrow> Q (Some e, dev') l'"
    and "\<And>dev' l'. fds_kept l l' \<Longrightarrow> renamed dev dev' \<Longrightarrow> Q (None, dev') l'"
  shows "ensures l (setMTU env dev n) Q"
  unfolding setMTU_def by (intro os_rules; rule assms) (auto dest!: loggedD simp: fds_kept_def)

lemma MTU_kept [os_rules]:
  assumes "\<And>e dev' l'. fds_kept l l' \<Longrightarrow> renamed dev dev' \<Longrightarrow> Q (Inl e, dev') l'"
    and "\<And>v dev' l'. fds_kept l l' \<Longrightarrow> renamed dev dev' \<Longrightarrow> Q (Inr v, dev') l'"
  shows "ensures l (MTU env dev) Q"
  unfolding MTU_def by (intro os_rules; rule assms) (auto dest!: loggedD simp: fds_kept_def)

lemma os_initFromFlags_kept [os_rules]:
  assumes "\<And>d e l'. fds_kept l l' \<Longrightarrow> Q (d, Inl e) l'" and "\<And>d l'. fds_kept l l' \<Longrightarrow> Q (d, Inr ()) l'"
  shows "ensures l (os_initFromFlags env f name tun) Q"
proof -
  have Q: "Q r l'" if "fds_kept l l'" for r l'
    by (cases r; cases "snd r") (use assms that in auto)
  show ?thesis unfolding os_initFromFlags_def by (intro os_rules; rule Q) (auto dest!: loggedD simp: fds_kept_def)
qed

text \<open>The netlink socket stays open when it cannot be bound.\<close>

definition socket_failed :: "os_log \<Rightarrow> os_log \<Rightarrow> bool" where
  "socket_failed l l' \<longleftrightarrow> length l \<le> length l' \<and> (open_fds l' = open_fds l \<or>
     (\<exists>s. (Bind s, False) \<in> set l' \<and> s \<notin> open_fds l \<and> open_fds l' = insert s (open_fds l)))"

definition opened :: "os_log \<Rightarrow> fd \<Rightarrow> os_log \<Rightarrow> bool" where
  "opened l s l' \<longleftrightarrow> length l \<le> s \<and> s < length l' \<and> open_fds l' = insert s (open_fds l)"

lemma createNetlinkSocket_fds [os_rules]:
  assumes "\<And>e l'. socket_failed l l' \<Longrightarrow> Q (Inl e) l'" and "\<And>s l'. opened l s l' \<Longrightarrow> Q (Inr s) l'"
  shows "ensures l (createNetlinkSocket env) Q"
  unfolding createNetlinkSocket_def by (intro os_rules; rule assms) (auto dest!: loggedD simp: socket_failed_def opened_def)

lemma os_NewRWCancel_fds [os_rules]:
  assumes "\<And>e l'. fds_kept l l' \<Longrightarrow> Q (Inl e) l'" and "\<And>s l'. opened l s l' \<Longrightarrow> Q (Inr s) l'"
  shows "ensures l (os_NewRWCancel env fd) Q"
  unfolding os_NewRWCancel_def by (intro os_rules; rule assms) (auto dest!: loggedD simp: fds_kept_def opened_def)

text \<open>How the constructor can end.\<close>

definition opened_monitored :: "fd \<Rightarrow> os_log \<Rightarrow> linux_dev \<Rightarrow> os_log \<Rightarrow> bool" where
  "opened_monitored file l dev l' \<longleftrightarrow> (\<exists>pipe. netlinkCancel dev = Some pipe \<and> netlinkSock dev \<noteq> pipe \<and> tunFile dev = file \<and> hasShutdown dev \<and>
     netlinkSock dev \<notin> open_fds l \<and> pipe \<notin> open_fds l \<and> open_fds l' = open_fds l \<union> {netlinkSock dev, pipe})"

definition failed_monitored :: "os_log \<Rightarrow> os_log \<Rightarrow> bool" where
  "failed_monitored l l' \<longleftrightarrow> open_fds l' = open_fds l \<or>
     (\<exists>s. (Bind s, False) \<in> set l' \<and> s \<notin> open_fds l \<and> open_fds l' = insert s (open_fds l)) \<or>
     (\<exists>pipe ok. (Spawn ''routineNetlinkListener'', ok) \<in> set l' \<and> pipe \<notin> open_fds l \<and> open_fds l' = insert pipe (open_fds l))"

lemma CreateTUNFromFile_fds [os_rules]:
  assumes "\<And>e l'. failed_monitored l l' \<Longrightarrow> Q (Inl e) l'" and "\<And>dev l'. opened_monitored file l dev l' \<Longrightarrow> Q (Inr dev) l'"
  shows "ensures l (CreateTUNFromFile env file mtu) Q"
  unfolding CreateTUNFromFile_def
  apply (intro os_rules; rule assms)
        apply (simp add: fds_kept_def failed_monitored_def)
       apply (simp add: fds_kept_def failed_monitored_def)
      apply (simp add: fds_kept_def failed_monitored_def)
     apply (auto simp: fds_kept_def failed_monitored_def socket_failed_def)[1]
    apply (auto dest!: loggedD simp: fds_kept_def failed_monitored_def opened_def)[1]
  subgoal premises p for n dev1 l1 d l2 i l3 s l4 pipe l5 l6 ok l7 ok2 e dev2 l8 l9 ok3
  proof -
    have s: "opened l s l4" "opened l4 pipe l5" using p(1,3,4,5,6) by (auto simp: fds_kept_def opened_def)
    have "s \<notin> open_fds l" "pipe \<notin> open_fds l" "s \<noteq> pipe" using s by (auto simp: opened_def)
    moreover have "open_fds l9 = insert pipe (insert s (open_fds l)) - {s}"
      using s p(7-11) by (simp add: opened_def fds_kept_def logged_fds)
    moreover have "(Spawn ''routineNetlinkListener'', ok) \<in> set l9" using p(7-11) by (auto simp: logged_set fds_kept_def)
    ultimately show ?thesis unfolding failed_monitored_def by (auto simp: insert_Diff_if)
  qed
  subgoal premises p for n dev1 l1 d l2 i l3 s l4 pipe l5 l6 ok l7 ok2 dev2 l8
  proof -
    have s: "opened l s l4" "opened l4 pipe l5" using p(1,3,4,5,6) by (auto simp: fds_kept_def opened_def)
    have "s \<notin> open_fds l" "pipe \<notin> open_fds l" "s \<noteq> pipe" using s by (auto simp: opened_def)
    moreover have "open_fds l8 = insert pipe (insert s (open_fds l))"
      using s p(7-9) by (simp add: opened_def fds_kept_def logged_fds)
    ultimately show ?thesis using p(2,10) by (auto simp: opened_monitored_def renamed_def new_dev_def)
  qed
  done

text \<open>The whole of \<open>CreateTUN\<close> opens the device file too.\<close>

lemma CreateTUN_fds:
  "ensures l (CreateTUN env name mtu) (\<lambda>r l'. case r of
     Inl e \<Rightarrow> True
   | Inr dev \<Rightarrow> tunFile dev \<notin> open_fds l \<and> hasShutdown dev \<and> (\<exists>pipe. netlinkCancel dev = Some pipe \<and> distinct [tunFile dev, netlinkSock dev, pipe] \<and>
       {netlinkSock dev, pipe} \<inter> open_fds l = {} \<and> open_fds l' = open_fds l \<union> {tunFile dev, netlinkSock dev, pipe}))"
  unfolding CreateTUN_def
  by (intro os_rules) (auto dest!: loggedD simp: opened_monitored_def)


lemma os_Cancel_kept [os_rules]:
  assumes "\<And>r l'. fds_kept l l' \<Longrightarrow> Q r l'"
  shows "ensures l (os_Cancel env pipe) Q"
  unfolding os_Cancel_def by (intro os_rules; rule assms) (auto dest!: loggedD simp: fds_kept_def)

lemma Close_fds:
  "ensures l (Close env False dev) (\<lambda>(acts, errs) l'. open_fds l' = open_fds l - {tunFile dev} \<and>
     acts = [if hasShutdown dev then CloseShutdown else CloseEventChannel])"
proof (cases "hasShutdown dev"; cases "netlinkCancel dev")
  fix pipe
  assume h: "hasShutdown dev" "netlinkCancel dev = Some pipe"
  show ?thesis unfolding Close_def Close_once_def h if_False if_True option.case
    by (intro os_rules) (auto dest!: loggedD simp: fds_kept_def)
next
  assume h: "hasShutdown dev" "netlinkCancel dev = None"
  show ?thesis unfolding Close_def Close_once_def h if_False if_True option.case by (intro os_rules) (auto dest!: loggedD)
next
  assume h: "\<not> hasShutdown dev" "netlinkCancel dev = None"
  show ?thesis unfolding Close_def Close_once_def if_not_P [OF h(1)] if_False by (intro os_rules) (auto dest!: loggedD)
next
  fix pipe
  assume h: "\<not> hasShutdown dev" "netlinkCancel dev = Some pipe"
  show ?thesis unfolding Close_def Close_once_def if_not_P [OF h(1)] if_False by (intro os_rules) (auto dest!: loggedD)
qed

lemma netlink_exit_fds:
  "netlinkCancel dev = Some pipe \<Longrightarrow> ensures l (netlink_exit_calls env dev) (\<lambda>_ l'. open_fds l' = open_fds l - {netlinkSock dev, pipe})"
  unfolding netlink_exit_calls_def by (simp, intro os_rules) (auto dest!: loggedD)

section \<open>A system for examples\<close>

text \<open>Every call succeeds, but for those in \<open>bad\<close>, which fail with \<^verbatim>\<open>EBUSY\<close>.\<close>

definition ex_env :: "(os_call \<Rightarrow> bool) \<Rightarrow> os_env" where
  "ex_env bad = \<lparr>fails = \<lambda>_ c. if bad c then Some (SysErr 16) else None, number = \<lambda>_ _. 0, text_of = \<lambda>_ _. ''tun0''\<rparr>"

lemmas linux_run = CreateTUN_def CreateTUNFromFile_def Name_def nameSlow_def getIFIndex_def setMTU_def createNetlinkSocket_def
  os_NewRWCancel_def os_initFromFlags_def new_dev_def initFromFlags_def os_run

definition ex_dev :: linux_dev where
  "ex_dev = (case run_state (CreateTUN (ex_env (\<lambda>_. False)) ''tun0'' 1420) [] of (Inr dev, _) \<Rightarrow> dev | _ \<Rightarrow> new_dev 0 False)"

lemma ex_create: "\<exists>l. run_state (CreateTUN (ex_env (\<lambda>_. False)) ''tun0'' 1420) [] = (Inr ex_dev, l)"
  by (simp add: ex_dev_def ex_env_def linux_run)

section \<open>Properties\<close>

text \<open>C13. The descriptors of a Linux device: \<open>CreateTUN\<close> that succeeds has opened three new ones, the device file, the netlink socket and the
  pipe; the first \<open>Close\<close> closes the device file alone and signals the goroutines; the netlink goroutine closes the other two at its end; then
  exactly the descriptors from before are open. Whatever the system answers to every call.\<close>

theorem linux_lifecycle_fds:
  assumes "run_state (CreateTUN env name mtu) l = (Inr dev, l1)" and "run_state (Close env False dev) l1 = ((acts, errs), l2)"
    and "run_state (netlink_exit_calls env dev) l2 = ((), l3)"
  shows "\<exists>pipe. netlinkCancel dev = Some pipe \<and> distinct [tunFile dev, netlinkSock dev, pipe] \<and>
    {tunFile dev, netlinkSock dev, pipe} \<inter> open_fds l = {} \<and> open_fds l1 = open_fds l \<union> {tunFile dev, netlinkSock dev, pipe} \<and>
    acts = [CloseShutdown] \<and> open_fds l2 = open_fds l \<union> {netlinkSock dev, pipe} \<and> open_fds l3 = open_fds l"
proof -
  from ensuresD [OF CreateTUN_fds assms(1)] obtain pipe where p: "netlinkCancel dev = Some pipe" "distinct [tunFile dev, netlinkSock dev, pipe]"
    "{tunFile dev, netlinkSock dev, pipe} \<inter> open_fds l = {}" "open_fds l1 = open_fds l \<union> {tunFile dev, netlinkSock dev, pipe}" "hasShutdown dev"
    by auto
  have c: "open_fds l2 = open_fds l1 - {tunFile dev}" "acts = [CloseShutdown]" using ensuresD [OF Close_fds assms(2)] p(5) by auto
  have "open_fds l3 = open_fds l2 - {netlinkSock dev, pipe}" using ensuresD [OF netlink_exit_fds [OF p(1)] assms(3)] by simp
  then show ?thesis using p c by (intro exI [of _ pipe]) auto
qed

theorem linux_lifecycle_fds_witness:
  "\<exists>l1 l2 l3 errs. run_state (CreateTUN (ex_env (\<lambda>_. False)) ''tun0'' 1420) [] = (Inr ex_dev, l1) \<and>
    run_state (Close (ex_env (\<lambda>_. False)) False ex_dev) l1 = (([CloseShutdown], errs), l2) \<and>
    run_state (netlink_exit_calls (ex_env (\<lambda>_. False)) ex_dev) l2 = ((), l3) \<and> open_fds l3 = {}"
proof -
  obtain l1 where l1: "run_state (CreateTUN (ex_env (\<lambda>_. False)) ''tun0'' 1420) [] = (Inr ex_dev, l1)" using ex_create by blast
  obtain r l2 where r: "run_state (Close (ex_env (\<lambda>_. False)) False ex_dev) l1 = (r, l2)" by (rule prod.exhaust)
  obtain acts errs where "r = (acts, errs)" by (rule prod.exhaust)
  with r have l2: "run_state (Close (ex_env (\<lambda>_. False)) False ex_dev) l1 = ((acts, errs), l2)" by simp
  obtain l3 where l3: "run_state (netlink_exit_calls (ex_env (\<lambda>_. False)) ex_dev) l2 = ((), l3)"
    by (cases "run_state (netlink_exit_calls (ex_env (\<lambda>_. False)) ex_dev) l2") simp
  from linux_lifecycle_fds [OF l1 l2 l3] have "acts = [CloseShutdown] \<and> open_fds l3 = open_fds []" by (elim exE conjE) (intro conjI)
  then have "run_state (Close (ex_env (\<lambda>_. False)) False ex_dev) l1 = (([CloseShutdown], errs), l2)" "open_fds l3 = {}"
    using l2 by (simp_all add: open_fds_def)
  then show ?thesis using l1 l3 by blast
qed

text \<open>\<open>CreateTUNFromFile\<close> that fails leaks nothing, unless the netlink socket could not be bound or the goroutines were started already; the
  file it was given stays open in every case.\<close>

theorem CreateTUNFromFile_error:
  assumes "run_state (CreateTUNFromFile env file mtu) l = (Inl e, l')"
  shows "open_fds l \<subseteq> open_fds l' \<and>
    (open_fds l' \<noteq> open_fds l \<longrightarrow> (\<exists>s. (Bind s, False) \<in> set l') \<or> (\<exists>ok. (Spawn ''routineNetlinkListener'', ok) \<in> set l'))"
proof -
  have "ensures l (CreateTUNFromFile env file mtu) (\<lambda>r l'. isl r \<longrightarrow> failed_monitored l l')"
    by (intro CreateTUNFromFile_fds) auto
  then have "failed_monitored l l'" using ensuresD assms by fastforce
  then show ?thesis by (auto simp: failed_monitored_def)
qed

theorem CreateTUNFromFile_error_witness:
  "\<exists>e l'. run_state (CreateTUNFromFile (ex_env (\<lambda>c. c = Socket ''AF_NETLINK SOCK_RAW'')) 0 1420) [] = (Inl e, l') \<and> open_fds [] \<subseteq> open_fds l'"
proof -
  have "\<exists>e l'. run_state (CreateTUNFromFile (ex_env (\<lambda>c. c = Socket ''AF_NETLINK SOCK_RAW'')) 0 1420) [] = (Inl e, l')"
    by (simp add: ex_env_def linux_run)
  then show ?thesis using CreateTUNFromFile_error by blast
qed

text \<open>A device file that is open when \<^verbatim>\<open>TUNSETIFF\<close> fails is never closed.\<close>

lemma linux_CreateTUN_leaks:
  "\<exists>e l. run_state (CreateTUN (ex_env (\<lambda>c. case c of Ioctl _ req _ \<Rightarrow> req = ''TUNSETIFF'' | _ \<Rightarrow> False)) ''tun0'' 1420) [] = (Inl e, l) \<and> open_fds l = {0}"
  by (simp add: ex_env_def linux_run open_fds_def)

lemma linux_setMTU_leaks_pipe:
  "\<exists>e l. run_state (CreateTUNFromFile (ex_env (\<lambda>c. case c of Ioctl _ req _ \<Rightarrow> req = ''SIOCSIFMTU'' | _ \<Rightarrow> False)) 0 1420) [] = (Inl e, l) \<and>
    (Spawn ''routineHackListener'', True) \<in> set l \<and> open_fds l \<noteq> {}"
  by (simp add: ex_env_def linux_run open_fds_def)

end
