(* ===== verification/Bsd_Tun.thy ===== *)
theory Bsd_Tun
  imports Virtio_Read Netlink
begin

text \<open>
  The FreeBSD, OpenBSD and macOS devices (\<^verbatim>\<open>tun_freebsd.go\<close>, \<^verbatim>\<open>tun_openbsd.go\<close>, \<^verbatim>\<open>tun_darwin.go\<close>): \<open>Read\<close>
  and \<open>Write\<close> with the four-byte address family in front of every packet, and the goroutines that turn
  routing messages into status events. The three files hold the same code up to the constants and the
  checks that are parameters here. What the device file, the routing socket and the interface table
  answer are parameters.
\<close>

section \<open>Constants of the platforms\<close>

definition AF_INET :: byte where "AF_INET = 2"
definition freebsd_AF_INET6 :: byte where "freebsd_AF_INET6 = 28"
definition openbsd_AF_INET6 :: byte where "openbsd_AF_INET6 = 24"
definition darwin_AF_INET6 :: byte where "darwin_AF_INET6 = 30"

text \<open>\<^verbatim>\<open>unix.EAFNOSUPPORT\<close> and \<^verbatim>\<open>unix.EINTR\<close>.\<close>

definition EAFNOSUPPORT :: go_error where "EAFNOSUPPORT = SysErr 47"
definition EINTR :: go_error where "EINTR = SysErr 4"

section \<open>Reading\<close>

text \<open>\<open>file_read len\<close> is what a read into \<open>len\<close> bytes answers: the bytes and an error. The result also has the
  queue of asynchronous errors.\<close>

definition bsd_Read ::
  "(nat \<Rightarrow> byte list \<times> go_error option) \<Rightarrow> go_error list \<Rightarrow> gslice list \<Rightarrow> int list \<Rightarrow> int
    \<Rightarrow> (go_error list \<times> gslice list \<times> int list \<times> int \<times> go_error option) option" where
  "bsd_Read file_read errs bufs sizes offset =
     (case validateReadBuffers 1 bufs sizes of
        Inl e \<Rightarrow> Some (errs, bufs, sizes, 0, Some e)
      | Inr _ \<Rightarrow>
     (case errs of
        e # rest \<Rightarrow> Some (rest, bufs, sizes, 0, Some e)
      | [] \<Rightarrow> do {
          buf0 \<leftarrow> elem bufs 0;
          buf \<leftarrow> sub_from buf0 (offset - 4);
          let (bytes, err) = file_read (slen buf);
          let n = int (length bytes);
          bufs \<leftarrow> set_elem bufs 0 (put_back buf0 (offset - 4) (buf\<lparr>sarr := splice (sarr buf) 0 bytes\<rparr>));
          if n < 4 then Some ([], bufs, sizes, 0, err)
          else do {
            sizes \<leftarrow> set_elem sizes 0 (n - 4);
            Some ([], bufs, sizes, 1, err)
          }
        }))"

definition freebsd_Read where "freebsd_Read = bsd_Read"
definition openbsd_Read where "openbsd_Read = bsd_Read"
definition darwin_Read where "darwin_Read = bsd_Read"

section \<open>Writing\<close>

text \<open>The address family of a packet, from its version nibble.\<close>

definition packet_family :: "byte \<Rightarrow> byte \<Rightarrow> byte option" where
  "packet_family af6 b = (if drop_bit 4 b = 4 then Some AF_INET else if drop_bit 4 b = 6 then Some af6 else None)"

text \<open>The loop over the buffers. \<open>chk\<close>: the length check that only FreeBSD makes. The result is the buffers with
  their headers, the count or index returned, the error, and the frames handed to the device.\<close>

fun bsd_write_loop ::
  "bool \<Rightarrow> byte \<Rightarrow> (nat \<Rightarrow> byte list \<Rightarrow> go_error option) \<Rightarrow> int \<Rightarrow> nat \<Rightarrow> gslice list
    \<Rightarrow> (gslice list \<times> int \<times> go_error option \<times> byte list list) option" where
  "bsd_write_loop chk af6 writer offset i [] = Some ([], int i, None, [])"
| "bsd_write_loop chk af6 writer offset i (buf # rest) = do {
     b \<leftarrow> sub_from buf (offset - 4);
     if chk \<and> slen b < 5 then Some (buf # rest, int i, Some ErrShortBuffer, [])
     else do {
       b \<leftarrow> wr b 0 0;
       b \<leftarrow> wr b 1 0;
       b \<leftarrow> wr b 2 0;
       v \<leftarrow> rd b 4;
       case packet_family af6 v of
         None \<Rightarrow> Some (put_back buf (offset - 4) b # rest, int i, Some EAFNOSUPPORT, [])
       | Some af \<Rightarrow> do {
           b \<leftarrow> wr b 3 af;
           let buf = put_back buf (offset - 4) b;
           case writer i (vis b) of
             Some e \<Rightarrow> Some (buf # rest, int i, Some e, [vis b])
           | None \<Rightarrow> do {
               (rest, n, err, frames) \<leftarrow> bsd_write_loop chk af6 writer offset (Suc i) rest;
               Some (buf # rest, n, err, vis b # frames)
             }
         }
     }
   }"

definition bsd_Write ::
  "bool \<Rightarrow> byte \<Rightarrow> (nat \<Rightarrow> byte list \<Rightarrow> go_error option) \<Rightarrow> gslice list \<Rightarrow> int
    \<Rightarrow> (gslice list \<times> int \<times> go_error option \<times> byte list list) option" where
  "bsd_Write chk af6 writer bufs offset =
     (if offset < 4 then Some (bufs, 0, Some ErrShortBuffer, []) else bsd_write_loop chk af6 writer offset 0 bufs)"

definition freebsd_Write where "freebsd_Write = bsd_Write True freebsd_AF_INET6"
definition openbsd_Write where "openbsd_Write = bsd_Write False openbsd_AF_INET6"
definition darwin_Write where "darwin_Write = bsd_Write False darwin_AF_INET6"

section \<open>Status events from the routing socket\<close>

text \<open>\<open>statusUp\<close> and \<open>statusMTU\<close>: what the listener remembers. A message that concerns the interface
  gives its flags and MTU.\<close>

record route_status =
  statusUp :: bool
  statusMTU :: int

definition route_start :: route_status where
  "route_start = \<lparr>statusUp = False, statusMTU = 0\<rparr>"

definition status_change :: "bool \<Rightarrow> int \<Rightarrow> route_status \<Rightarrow> Event list \<times> route_status" where
  "status_change up mtu s =
     ((if up \<noteq> statusUp s \<and> up then [EventUp] else []) @ (if up \<noteq> statusUp s \<and> \<not> up then [EventDown] else []) @
        (if mtu \<noteq> statusMTU s then [EventMTUUpdate] else []),
      \<lparr>statusUp = up, statusMTU = mtu\<rparr>)"

definition RTM_IFINFO :: "byte" where "RTM_IFINFO = 0x0e"

text \<open>Does a routing message of \<open>n\<close> bytes concern the interface: long enough, of the right type, and with the index
  at \<open>at\<close>.\<close>

definition route_match :: "endian \<Rightarrow> byte \<Rightarrow> nat \<Rightarrow> nat \<Rightarrow> int \<Rightarrow> byte list \<Rightarrow> bool" where
  "route_match en ty minLen at tunIfindex data \<longleftrightarrow> minLen \<le> length data \<and> data ! 3 = ty \<and>
     int (native_nat en (take 2 (drop at data))) = tunIfindex"

text \<open>One turn of the loop: the answer of the read, and of \<^verbatim>\<open>net.InterfaceByIndex\<close> should it be asked.\<close>

record route_turn =
  routeRead :: "go_error + byte list"
  ifaceInfo :: "go_error + bool \<times> int"      \<comment> \<open>up flag and MTU\<close>

text \<open>The actions of the goroutine: events, an error, and the deferred close of the event channel. A send waits for room in its
  channel: \<open>room\<close> is the number of sends that go through, the next one is still blocked.\<close>

definition route_error :: "nat \<Rightarrow> go_error \<Rightarrow> listener_action list" where
  "route_error room e = (if room = 0 then [] else [SendError e, CloseEvents])"

fun route_listener ::
  "(byte list \<Rightarrow> bool) \<Rightarrow> (byte list \<Rightarrow> go_error + bool \<times> int \<Rightarrow> go_error + bool \<times> int) \<Rightarrow> nat \<Rightarrow> route_status \<Rightarrow> route_turn list
    \<Rightarrow> listener_action list" where
  "route_listener match info room s [] = []"
| "route_listener match info room s (t # ts) = (case routeRead t of
     Inl e \<Rightarrow> if errors_is e EINTR then route_listener match info room s ts else route_error room e
   | Inr data \<Rightarrow>
       if \<not> match data then route_listener match info room s ts
       else (case info data (ifaceInfo t) of
         Inl e \<Rightarrow> route_error room e
       | Inr (up, mtu) \<Rightarrow>
           let (evs, s') = status_change up mtu s
           in if length evs \<le> room then map Emit evs @ route_listener match info (room - length evs) s' ts
              else map Emit (take room evs)))"

definition freebsd_routineRouteListener :: "endian \<Rightarrow> int \<Rightarrow> nat \<Rightarrow> route_turn list \<Rightarrow> listener_action list" where
  "freebsd_routineRouteListener en idx room ts = route_listener (route_match en RTM_IFINFO 14 12 idx) (\<lambda>_ i. i) room route_start ts"

text \<open>OpenBSD asks for the state once before the first message.\<close>

definition openbsd_routineRouteListener :: "endian \<Rightarrow> int \<Rightarrow> go_error + bool \<times> int \<Rightarrow> nat \<Rightarrow> route_turn list \<Rightarrow> listener_action list" where
  "openbsd_routineRouteListener en idx initial room ts = (case initial of
     Inl e \<Rightarrow> route_error room e
   | Inr (up, mtu) \<Rightarrow>
       let (evs, s) = status_change up mtu route_start
       in if length evs \<le> room then map Emit evs @ route_listener (route_match en RTM_IFINFO 8 6 idx) (\<lambda>_ i. i) (room - length evs) s ts
          else map Emit (take room evs))"

text \<open>macOS reads flags and MTU from the message itself.\<close>

definition IFF_UP :: u32 where "IFF_UP = 1"

definition darwin_info :: "endian \<Rightarrow> byte list \<Rightarrow> bool \<times> int" where
  "darwin_info en data =
     ((of_nat (native_nat en (take 4 (drop 8 data))) :: u32) AND IFF_UP \<noteq> 0, int (native_nat en (take 4 (drop 24 data))))"

definition darwin_routineRouteListener :: "endian \<Rightarrow> int \<Rightarrow> nat \<Rightarrow> route_turn list \<Rightarrow> listener_action list" where
  "darwin_routineRouteListener en idx room ts =
     route_listener (route_match en RTM_IFINFO 28 12 idx) (\<lambda>data _. Inr (darwin_info en data)) room route_start ts"

section \<open>Lemmas\<close>

text \<open>The header and the packet behind it.\<close>

definition bsd_frame :: "byte \<Rightarrow> byte list \<Rightarrow> byte list" where
  "bsd_frame af p = [0, 0, 0, af] @ p"

text \<open>One buffer of \<open>Write\<close>: the header goes into the four bytes in front of the packet.\<close>

lemma bsd_header:
  assumes wf: "wf_slice buf" and off: "4 \<le> off" "off < slen buf"
  obtains b where "sub_from buf (int off - 4) = Some b" "slen b = slen buf - (off - 4)" "wf_slice b" "vis b = drop (off - 4) (vis buf)"
    "wr b 0 0 = Some (set_vis b (splice (vis b) 0 [0]))"
    "wr (set_vis b (splice (vis b) 0 [0])) 1 0 = Some (set_vis b (splice (vis b) 0 [0, 0]))"
    "wr (set_vis b (splice (vis b) 0 [0, 0])) 2 0 = Some (set_vis b (splice (vis b) 0 [0, 0, 0]))"
    "rd (set_vis b (splice (vis b) 0 [0, 0, 0])) 4 = Some (vis buf ! off)"
    "\<And>af. wr (set_vis b (splice (vis b) 0 [0, 0, 0])) 3 af = Some (set_vis b (bsd_frame af (drop off (vis buf))))"
    "\<And>bs. length bs = slen b \<Longrightarrow> put_back buf (int off - 4) (set_vis b bs) = set_vis buf (take (off - 4) (vis buf) @ bs)"
proof -
  define o' where "o' = off - 4"
  have oo: "int off - 4 = int o'" "off = o' + 4" using off(1) by (simp_all add: o'_def)
  have "sub_from buf (int o') \<noteq> None" by (rule sub_from_total) (use wf off in \<open>auto simp: o'_def\<close>)
  then obtain b where b: "sub_from buf (int o') = Some b" by blast
  have lb: "slen b = slen buf - o'" "wf_slice b" "vis b = drop o' (vis buf)"
    using sub_from_eq [OF b] wf_sub_from [OF b wf] vis_sub_from [OF b] by auto
  have l: "length (vis b) = slen b" "5 \<le> slen b" using lb off oo(2) wf by auto
  have w: "wr b 0 0 = Some (set_vis b (splice (vis b) 0 [0]))"
    "wr (set_vis b (splice (vis b) 0 [0])) 1 0 = Some (set_vis b (splice (vis b) 0 [0, 0]))"
    "wr (set_vis b (splice (vis b) 0 [0, 0])) 2 0 = Some (set_vis b (splice (vis b) 0 [0, 0, 0]))"
    using wr_vis [OF lb(2), of 0 0] wr_vis [of "set_vis b (splice (vis b) 0 [0])" 1 0] wr_vis [of "set_vis b (splice (vis b) 0 [0, 0])" 2 0] l
    by (simp_all add: splice_def drop_Suc numeral_2_eq_2 numeral_3_eq_3)
  have r: "rd (set_vis b (splice (vis b) 0 [0, 0, 0])) 4 = Some (vis buf ! off)"
    using rd_ok [of 4 "set_vis b (splice (vis b) 0 [0, 0, 0])"] l lb oo(2) wf off by (simp add: nth_splice)
  have f: "wr (set_vis b (splice (vis b) 0 [0, 0, 0])) 3 af = Some (set_vis b (bsd_frame af (drop off (vis buf))))" for af
    using wr_vis [of "set_vis b (splice (vis b) 0 [0, 0, 0])" 3 af] l lb oo(2)
    by (simp add: bsd_frame_def) (simp add: splice_def add.commute numeral_eq_Suc)
  have pb: "put_back buf (int off - 4) (set_vis b bs) = set_vis buf (take (off - 4) (vis buf) @ bs)" if "length bs = slen b" for bs
    unfolding oo(1) using put_back_vis [OF wf _ b that] off by (simp add: o'_def)
  show thesis
    by (rule that [OF b [folded oo(1)] _ lb(2) _ w r f pb]) (use lb in \<open>simp_all add: o'_def\<close>)
qed

text \<open>What \<open>Write\<close> promises, over the packets alone.\<close>

fun bsd_sent :: "(nat \<Rightarrow> byte list \<Rightarrow> go_error option) \<Rightarrow> byte \<Rightarrow> nat \<Rightarrow> byte list list \<Rightarrow> int \<times> go_error option \<times> byte list list" where
  "bsd_sent writer af6 i [] = (int i, None, [])"
| "bsd_sent writer af6 i (p # ps) = (case packet_family af6 (hd p) of
     None \<Rightarrow> (int i, Some EAFNOSUPPORT, [])
   | Some af \<Rightarrow> (case writer i (bsd_frame af p) of
       Some e \<Rightarrow> (int i, Some e, [bsd_frame af p])
     | None \<Rightarrow> let (n, err, fs) = bsd_sent writer af6 (Suc i) ps in (n, err, bsd_frame af p # fs)))"

text \<open>Only the four bytes in front of the packets change.\<close>

definition same_packets :: "nat \<Rightarrow> gslice list \<Rightarrow> gslice list \<Rightarrow> bool" where
  "same_packets off bufs bufs' \<longleftrightarrow> list_all2 (\<lambda>b b'. slen b' = slen b \<and> wf_slice b' \<and> drop off (vis b') = drop off (vis b) \<and>
     take (off - 4) (vis b') = take (off - 4) (vis b)) bufs bufs'"

lemma same_packets_refl: "\<forall>b\<in>set bufs. wf_slice b \<Longrightarrow> same_packets off bufs bufs"
  by (simp add: same_packets_def list_all2_conv_all_nth)

lemma bsd_write_loop_eq:
  assumes "\<forall>b\<in>set bufs. wf_slice b \<and> off < slen b" and "4 \<le> off"
  shows "\<exists>bufs'. bsd_write_loop chk af6 writer (int off) i bufs
      = Some (bufs', bsd_sent writer af6 i (map (\<lambda>b. drop off (vis b)) bufs)) \<and> same_packets off bufs bufs'"
  using assms(1)
proof (induction bufs arbitrary: i)
  case (Cons buf rest)
  have wf: "wf_slice buf" "off < slen buf" using Cons.prems by auto
  obtain b where b: "sub_from buf (int off - 4) = Some b" "slen b = slen buf - (off - 4)" "wf_slice b" "vis b = drop (off - 4) (vis buf)"
    "wr b 0 0 = Some (set_vis b (splice (vis b) 0 [0]))"
    "wr (set_vis b (splice (vis b) 0 [0])) 1 0 = Some (set_vis b (splice (vis b) 0 [0, 0]))"
    "wr (set_vis b (splice (vis b) 0 [0, 0])) 2 0 = Some (set_vis b (splice (vis b) 0 [0, 0, 0]))"
    "rd (set_vis b (splice (vis b) 0 [0, 0, 0])) 4 = Some (vis buf ! off)"
    "\<And>af. wr (set_vis b (splice (vis b) 0 [0, 0, 0])) 3 af = Some (set_vis b (bsd_frame af (drop off (vis buf))))"
    "\<And>bs. length bs = slen b \<Longrightarrow> put_back buf (int off - 4) (set_vis b bs) = set_vis buf (take (off - 4) (vis buf) @ bs)"
    by (rule bsd_header [OF wf(1) assms(2) wf(2)]) (rule that)
  define P where "P = drop off (vis buf)"
  have P: "hd P = vis buf ! off" "length P = slen buf - off" using wf by (simp_all add: P_def hd_drop_conv_nth)
  have lf: "length (bsd_frame af P) = slen b" for af using P(2) b(2) wf(2) assms(2) by (simp add: bsd_frame_def)
  have chk: "\<not> (chk \<and> slen b < 5)" using b(2) wf(2) assms(2) by auto
  have vf: "vis (set_vis b (bsd_frame af P)) = bsd_frame af P" for af using lf by simp
  define g where "g af = set_vis buf (take (off - 4) (vis buf) @ bsd_frame af P)" for af
  define g0 where "g0 = set_vis buf (take (off - 4) (vis buf) @ splice (vis b) 0 [0, 0, 0])"
  have lb: "length (vis b) = slen b" "5 \<le> slen b" using b(2,3) wf(2) assms(2) by simp_all
  have len: "length (take (off - 4) (vis buf)) = off - 4" using wf by simp
  have g: "slen (g af) = slen buf \<and> wf_slice (g af) \<and> drop off (vis (g af)) = P \<and> take (off - 4) (vis (g af)) = take (off - 4) (vis buf)" for af
    using lf [of af] b(2) len wf assms(2) by (simp add: g_def bsd_frame_def)
  have g0: "slen g0 = slen buf \<and> wf_slice g0 \<and> drop off (vis g0) = P \<and> take (off - 4) (vis g0) = take (off - 4) (vis buf)"
    using lb b(2,4) len wf assms(2) by (simp add: g0_def P_def)
  have step: "bsd_write_loop chk af6 writer (int off) i (buf # rest) = (case packet_family af6 (hd P) of
      None \<Rightarrow> Some (g0 # rest, int i, Some EAFNOSUPPORT, [])
    | Some af \<Rightarrow> (case writer i (bsd_frame af P) of
        Some e \<Rightarrow> Some (g af # rest, int i, Some e, [bsd_frame af P])
      | None \<Rightarrow> do { (rest, n, err, frames) \<leftarrow> bsd_write_loop chk af6 writer (int off) (Suc i) rest;
                Some (g af # rest, n, err, bsd_frame af P # frames) }))"
    unfolding bsd_write_loop.simps b(1) Option.bind.simps if_not_P [OF chk] b(5-8) P(1)
    using lf lb by (simp add: b(9) [folded P_def] vf b(10) g_def g0_def Let_def cong: option.case_cong)
  obtain rest' where r: "bsd_write_loop chk af6 writer (int off) (Suc i) rest
      = Some (rest', bsd_sent writer af6 (Suc i) (map (\<lambda>b. drop off (vis b)) rest))" "same_packets off rest rest'"
    using Cons.IH [of "Suc i"] Cons.prems by auto
  have rr: "same_packets off rest rest" using Cons.prems by (intro same_packets_refl) auto
  show ?case
  proof (cases "packet_family af6 (hd P)")
    case None
    then show ?thesis using step g0 rr by (simp add: same_packets_def P_def [symmetric])
  next
    case (Some af)
    then show ?thesis using step g rr r
      by (cases "writer i (bsd_frame af P)") (auto simp: same_packets_def P_def [symmetric] split: prod.splits)
  qed
qed (simp add: same_packets_def)

lemma bsd_sent_facts:
  assumes "bsd_sent writer af6 i ps = (n, err, fs)"
  shows "int i \<le> n \<and> n \<le> int (i + length ps) \<and> (err = None \<longleftrightarrow> n = int (i + length ps)) \<and>
    length fs \<in> {nat n - i, Suc (nat n - i)} \<and> length fs \<le> length ps \<and>
    (\<forall>j < length fs. \<exists>af. packet_family af6 (hd (ps ! j)) = Some af \<and> fs ! j = bsd_frame af (ps ! j)) \<and>
    (\<forall>j < nat n - i. writer (i + j) (fs ! j) = None) \<and>
    (nat n < i + length ps \<longrightarrow> (let p = ps ! (nat n - i) in case packet_family af6 (hd p) of
       None \<Rightarrow> err = Some EAFNOSUPPORT \<and> length fs = nat n - i
     | Some af \<Rightarrow> err \<noteq> None \<and> err = writer (nat n) (bsd_frame af p) \<and> length fs = Suc (nat n - i)))"
  using assms
proof (induction ps arbitrary: i n err fs)
  case (Cons p ps)
  show ?case
  proof (cases "packet_family af6 (hd p)")
    case None
    then show ?thesis using Cons.prems by auto
  next
    case (Some af)
    show ?thesis
    proof (cases "writer i (bsd_frame af p)")
      case None
      then obtain n' err' fs' where r: "bsd_sent writer af6 (Suc i) ps = (n', err', fs')" "n = n'" "err = err'" "fs = bsd_frame af p # fs'"
        using Cons.prems Some by (auto split: prod.splits)
      note IH = Cons.IH [OF r(1)]
      have n: "nat n - i = Suc (nat n' - Suc i)" using IH r(2) by linarith
      show ?thesis using IH None Some r(2-4) n by (auto simp: nth_Cons Let_def split: nat.splits option.splits)
    next
      case (Some e)
      then have "n = int i" "err = Some e" "fs = [bsd_frame af p]"
        using Cons.prems \<open>packet_family af6 (hd p) = Some af\<close> by simp_all
      then show ?thesis using \<open>packet_family af6 (hd p) = Some af\<close> Some by simp
    qed
  qed
qed auto

lemma bsd_sent_all:
  assumes "\<forall>p\<in>set ps. packet_family af6 (hd p) \<noteq> None" and "\<forall>i b. writer i b = None"
  shows "bsd_sent writer af6 i ps = (int (i + length ps), None, map (\<lambda>p. bsd_frame (the (packet_family af6 (hd p))) p) ps)"
  using assms(1) by (induction ps arbitrary: i) (auto simp: assms(2))

lemma bsd_Read_eq:
  assumes wf: "wf_slice buf" and off: "4 \<le> off" "off + length p \<le> slen buf" and sz: "length bufs \<le> length sizes" and h: "length hdr = 4"
  shows "\<exists>bufs'. bsd_Read (\<lambda>_. (hdr @ p, err)) [] (buf # bufs) (s # sizes) (int off)
      = Some ([], bufs' # bufs, int (length p) # sizes, 1, err) \<and>
    slen bufs' = slen buf \<and> take (length p) (drop off (vis bufs')) = p \<and> take (off - 4) (vis bufs') = take (off - 4) (vis buf)"
proof -
  define o' where "o' = off - 4"
  have oo: "int off - 4 = int o'" "off = o' + 4" using off(1) by (simp_all add: o'_def)
  obtain b where b: "sub_from buf (int o') = Some b" using sub_from_total [of o' buf] wf off oo(2) by auto
  have lb: "slen b = slen buf - o'" "wf_slice b" "vis b = drop o' (vis buf)"
    using sub_from_eq [OF b] wf_sub_from [OF b wf] vis_sub_from [OF b] by auto
  define c where "c = set_vis b (splice (vis b) 0 (hdr @ p))"
  have c: "b\<lparr>sarr := splice (sarr b) 0 (hdr @ p)\<rparr> = c"
    unfolding c_def by (rule splice_set_vis [OF lb(2)]) (use lb off oo(2) h in simp)
  have lc: "length (splice (vis b) 0 (hdr @ p)) = slen b" using lb off oo(2) h wf by simp
  define d where "d = put_back buf (int o') c"
  have d: "d = set_vis buf (take o' (vis buf) @ splice (vis b) 0 (hdr @ p))"
    unfolding d_def c_def by (rule put_back_vis [OF wf _ b lc]) (use off oo(2) in simp)
  have ld: "length (take o' (vis buf) @ splice (vis b) 0 (hdr @ p)) = slen buf" using lc lb wf off oo(2) by simp
  have len: "length (take o' (vis buf)) = o'" using wf off oo(2) by simp
  have v: "vis d = take o' (vis buf) @ hdr @ p @ drop (4 + length p) (vis b)" "slen d = slen buf"
    using ld h by (simp_all add: d) (simp_all add: splice_def)
  have "take (length p) (drop off (vis d)) = p" using len h by (simp add: v(1) oo(2))
  moreover have "take (off - 4) (vis d) = take (off - 4) (vis buf)" using len by (simp add: v(1) oo(2))
  moreover have "validateReadBuffers 1 (buf # bufs) (s # sizes) = Inr ()" using sz by (simp add: validateReadBuffers_def)
  ultimately show ?thesis using h b v(2)
    by (intro exI [of _ d]) (simp add: bsd_Read_def elem_def set_elem_def oo(1) c d_def [symmetric] Let_def)
qed

text \<open>With its length check, the loop stops at a buffer without a packet.\<close>

lemma bsd_write_loop_total:
  assumes "\<forall>b\<in>set bufs. wf_slice b \<and> off \<le> slen b" and "4 \<le> off"
  shows "bsd_write_loop True af6 writer (int off) i bufs \<noteq> None"
  using assms(1)
proof (induction bufs arbitrary: i)
  case (Cons buf rest)
  show ?case
  proof (cases "off < slen buf")
    case True
    have wf: "wf_slice buf" using Cons.prems by simp
    have "\<exists>b. sub_from buf (int off - 4) = Some b \<and> wr b 0 0 = Some (set_vis b (splice (vis b) 0 [0])) \<and>
        wr (set_vis b (splice (vis b) 0 [0])) 1 0 = Some (set_vis b (splice (vis b) 0 [0, 0])) \<and>
        wr (set_vis b (splice (vis b) 0 [0, 0])) 2 0 = Some (set_vis b (splice (vis b) 0 [0, 0, 0])) \<and>
        rd (set_vis b (splice (vis b) 0 [0, 0, 0])) 4 \<noteq> None \<and>
        (\<forall>af. wr (set_vis b (splice (vis b) 0 [0, 0, 0])) 3 af \<noteq> None)"
      by (rule bsd_header [OF wf assms(2) True]) auto
    then obtain b v where b: "sub_from buf (int off - 4) = Some b" "wr b 0 0 = Some (set_vis b (splice (vis b) 0 [0]))"
        "wr (set_vis b (splice (vis b) 0 [0])) 1 0 = Some (set_vis b (splice (vis b) 0 [0, 0]))"
        "wr (set_vis b (splice (vis b) 0 [0, 0])) 2 0 = Some (set_vis b (splice (vis b) 0 [0, 0, 0]))"
        "rd (set_vis b (splice (vis b) 0 [0, 0, 0])) 4 = Some v"
        "\<And>af. \<exists>b'. wr (set_vis b (splice (vis b) 0 [0, 0, 0])) 3 af = Some b'" by auto
    have ih: "\<exists>r n err fs. bsd_write_loop True af6 writer (int off) (Suc i) rest = Some (r, n, err, fs)"
      using Cons.IH [of "Suc i"] Cons.prems by simp
    show ?thesis
    proof (cases "packet_family af6 v")
      case (Some af)
      obtain b' where "wr (set_vis b (splice (vis b) 0 [0, 0, 0])) 3 af = Some b'" using b(6) by blast
      then show ?thesis using b ih Some by (cases "writer i (vis b')") (auto simp: Let_def)
    qed (use b in simp)
  next
    case False
    then have sl: "slen buf = off" "wf_slice buf" using Cons.prems by auto
    obtain o' where o': "off = o' + 4" using assms(2) le_Suc_ex [of 4 off] by auto
    have "sub_from buf (int o') \<noteq> None" by (rule sub_from_total) (use sl o' in auto)
    then obtain b where b: "sub_from buf (int off - 4) = Some b" by (auto simp: o')
    then have "slen b < 5" using sub_from_eq [OF b] sl o' by auto
    then show ?thesis by (simp add: b)
  qed
qed simp

text \<open>The events of the routing listeners.\<close>

definition updown :: "listener_action list \<Rightarrow> Event list" where
  "updown acts = concat (map (\<lambda>a. case a of Emit e \<Rightarrow> if e = EventMTUUpdate then [] else [e] | _ \<Rightarrow> []) acts)"

lemma updown_simps [simp]: "updown [] = []" "updown (xs @ ys) = updown xs @ updown ys"
  "updown (SendError e # xs) = updown xs" "updown (CloseEvents # xs) = updown xs"
  by (simp_all add: updown_def)

lemma status_change_updown:
  "status_change up mtu s = (evs, s') \<Longrightarrow>
   statusUp s' = up \<and> updown (map Emit evs) = (if up = statusUp s then [] else [if up then EventUp else EventDown])"
  by (auto simp: status_change_def updown_def)

lemma status_change_take:
  "status_change up mtu s = (evs, s') \<Longrightarrow>
   updown (map Emit (take k evs)) \<in> {[], if up = statusUp s then [] else [if up then EventUp else EventDown]}"
  by (cases k; cases "k - 1") (auto simp: status_change_def updown_def split: if_splits)

lemma updown_error [simp]: "updown (route_error room e) = []"
  by (simp add: route_error_def)

lemma route_listener_alternates:
  "alternating (Some (statusUp s)) (updown (route_listener match info room s ts))"
proof (induction ts arbitrary: room s)
  case (Cons t ts)
  show ?case
  proof (cases "routeRead t")
    case (Inr data)
    show ?thesis
    proof (cases "info data (ifaceInfo t)")
      case r: (Inr q)
      obtain up mtu where q: "q = (up, mtu)" by (cases q)
      obtain evs s' where c: "status_change up mtu s = (evs, s')" by (cases "status_change up mtu s")
      note u = status_change_updown [OF c]
      show ?thesis using Cons.IH [of s] Cons.IH [of s' "room - length evs"] Inr r q c u status_change_take [OF c, of room] by (cases up) auto
    qed (use Inr Cons in simp)
  qed (use Cons in simp)
qed (simp add: updown_def)

lemma route_error_shape: "\<exists>es tl. route_error room e = map Emit es @ tl \<and> tl \<in> {[]} \<union> {[SendError e, CloseEvents] | e. True}"
  by (auto simp: route_error_def intro: exI [of _ "[]"])

lemma route_listener_closes: "\<exists>es tl. route_listener match info room s ts = map Emit es @ tl \<and>
    tl \<in> {[]} \<union> {[SendError e, CloseEvents] | e. True}"
proof (induction ts arbitrary: room s)
  case (Cons t ts)
  show ?case
  proof (cases "routeRead t")
    case (Inr data)
    show ?thesis
    proof (cases "info data (ifaceInfo t)")
      case r: (Inr q)
      obtain up mtu where q: "q = (up, mtu)" by (cases q)
      obtain evs s' where c: "status_change up mtu s = (evs, s')" by (cases "status_change up mtu s")
      show ?thesis
      proof (cases "match data")
        case True
        obtain es tl where e: "route_listener match info (room - length evs) s' ts = map Emit es @ tl" "tl \<in> {[]} \<union> {[SendError e, CloseEvents] | e. True}"
          using Cons.IH [of _ s'] by blast
        have "route_listener match info room s (t # ts) = (if length evs \<le> room then map Emit (evs @ es) @ tl else map Emit (take room evs) @ [])"
          using Inr r q c e True by simp
        then show ?thesis using e(2) by (cases "length evs \<le> room") (metis UnI1 singletonI)+
      next
        case False
        then have "route_listener match info room s (t # ts) = route_listener match info room s ts" using Inr by simp
        then show ?thesis using Cons.IH [of room s] by simp
      qed
    qed (use Inr Cons route_error_shape in auto)
  qed (use Cons route_error_shape in auto)
qed auto

section \<open>Properties\<close>

text \<open>C22. \<open>Write\<close> on FreeBSD, OpenBSD and macOS, for packets of at least one byte behind an offset of at least four: it
  never panics; the packets are written one by one, each behind zeros and its address family, until the
  first packet that is neither IPv4 nor IPv6 or that the device refuses; the result is the number of packets written, without an error
  exactly when it is all of them, and otherwise with \<^verbatim>\<open>EAFNOSUPPORT\<close> or the error of the device for the packet at that index; only the four bytes in front of the packets change.\<close>

theorem bsd_Write_sends:
  assumes "\<forall>b\<in>set bufs. wf_slice b \<and> off < slen b" and "4 \<le> off"
    and "(W, af6) \<in> {(freebsd_Write, 28), (openbsd_Write, 24), (darwin_Write, 30)}"
  shows "\<exists>bufs' n err fs. W writer bufs (int off) = Some (bufs', int n, err, fs) \<and>
    n \<le> length bufs \<and> (err = None \<longleftrightarrow> n = length bufs) \<and> length fs \<in> {n, Suc n} \<and> length fs \<le> length bufs \<and>
    (\<forall>j < n. writer j (fs ! j) = None) \<and>
    (\<forall>j < length fs. let p = drop off (vis (bufs ! j)) in
       fs ! j = [0, 0, 0, if drop_bit 4 (hd p) = 4 then 2 else af6] @ p \<and> drop_bit 4 (hd p) \<in> {4, 6}) \<and>
    (n < length bufs \<longrightarrow> (let p = drop off (vis (bufs ! n)) in
       if drop_bit 4 (hd p) \<in> {4, 6} then length fs = Suc n \<and> err = writer n (fs ! n) \<and> err \<noteq> None
       else length fs = n \<and> err = Some (SysErr 47))) \<and>
    length bufs' = length bufs \<and> (\<forall>j < length bufs. slen (bufs' ! j) = slen (bufs ! j) \<and>
       drop off (vis (bufs' ! j)) = drop off (vis (bufs ! j)) \<and> take (off - 4) (vis (bufs' ! j)) = take (off - 4) (vis (bufs ! j)))"
proof -
  obtain chk where W: "W writer bufs (int off) = bsd_write_loop chk af6 writer (int off) 0 bufs"
    using assms(2,3) by (auto simp: freebsd_Write_def openbsd_Write_def darwin_Write_def bsd_Write_def
        freebsd_AF_INET6_def openbsd_AF_INET6_def darwin_AF_INET6_def)
  define ps where "ps = map (\<lambda>b. drop off (vis b)) bufs"
  obtain bufs' n err fs where r: "W writer bufs (int off) = Some (bufs', n, err, fs)" "bsd_sent writer af6 0 ps = (n, err, fs)"
    "same_packets off bufs bufs'"
    using bsd_write_loop_eq [OF assms(1,2), of chk af6 writer 0] unfolding W ps_def by (metis prod_cases3)
  note f = bsd_sent_facts [OF r(2)]
  have pf: "packet_family af6 b = Some af \<Longrightarrow> af = (if drop_bit 4 b = 4 then 2 else af6) \<and> drop_bit 4 b \<in> {4, 6}" for b af
    by (auto simp: packet_family_def AF_INET_def split: if_splits)
  have "\<forall>j < length fs. let p = drop off (vis (bufs ! j)) in
       fs ! j = [0, 0, 0, if drop_bit 4 (hd p) = 4 then 2 else af6] @ p \<and> drop_bit 4 (hd p) \<in> {4, 6}"
  proof (intro allI impI)
    fix j assume j: "j < length fs"
    then have j': "j < length bufs" using f by (simp add: ps_def)
    then have e: "ps ! j = drop off (vis (bufs ! j))" by (simp add: ps_def)
    obtain af where "packet_family af6 (hd (ps ! j)) = Some af" "fs ! j = bsd_frame af (ps ! j)" using f j by blast
    then show "let p = drop off (vis (bufs ! j)) in
       fs ! j = [0, 0, 0, if drop_bit 4 (hd p) = 4 then 2 else af6] @ p \<and> drop_bit 4 (hd p) \<in> {4, 6}"
      using pf unfolding Let_def e bsd_frame_def by blast
  qed
  moreover have "let p = drop off (vis (bufs ! nat n)) in
       if drop_bit 4 (hd p) \<in> {4, 6} then length fs = Suc (nat n) \<and> err = writer (nat n) (fs ! nat n) \<and> err \<noteq> None
       else length fs = nat n \<and> err = Some (SysErr 47)" if "nat n < length bufs"
  proof -
    have e: "ps ! nat n = drop off (vis (bufs ! nat n))" and lp: "length ps = length bufs" using that by (simp_all add: ps_def)
    have s: "case packet_family af6 (hd (ps ! nat n)) of None \<Rightarrow> err = Some EAFNOSUPPORT \<and> length fs = nat n
      | Some af \<Rightarrow> err \<noteq> None \<and> err = writer (nat n) (bsd_frame af (ps ! nat n)) \<and> length fs = Suc (nat n)"
      using f that lp unfolding Let_def minus_nat.diff_0 add_0 by simp
    show ?thesis
    proof (cases "packet_family af6 (hd (ps ! nat n))")
      case None
      then have "drop_bit 4 (hd (ps ! nat n)) \<notin> {4, 6}" by (auto simp: packet_family_def split: if_splits)
      then show ?thesis using s None by (simp add: e EAFNOSUPPORT_def)
    next
      case (Some af)
      then have l: "length fs = Suc (nat n)" using s by simp
      then obtain af' where "packet_family af6 (hd (ps ! nat n)) = Some af'" "fs ! nat n = bsd_frame af' (ps ! nat n)" using f by auto
      then show ?thesis using s Some l pf [OF Some] unfolding e [symmetric] by auto
    qed
  qed
  ultimately show ?thesis
    using r f by (intro exI [of _ bufs'] exI [of _ "nat n"] exI [of _ err] exI [of _ fs])
      (auto simp: ps_def same_packets_def list_all2_conv_all_nth)
qed

theorem bsd_Write_sends_witness:
  "\<exists>bufs' n err fs. darwin_Write (\<lambda>_ _. None) [of_bytes [9, 9, 9, 9, 0x45, 1], of_bytes [9, 9, 9, 9, 0x60], of_bytes [9, 9, 9, 9, 0]] (int 4)
      = Some (bufs', int n, err, fs) \<and> n \<le> 3 \<and> (err = None \<longleftrightarrow> n = 3)"
proof -
  define bs where "bs = [of_bytes [9, 9, 9, 9, 0x45, 1], of_bytes [9, 9, 9, 9, 0x60], of_bytes [9, 9, 9, 9, 0 :: byte]]"
  have "\<forall>b\<in>set bs. wf_slice b \<and> 4 < slen b" "length bs = 3" by (simp_all add: bs_def)
  with bsd_Write_sends [OF this(1), of darwin_Write 30 "\<lambda>_ _. None"] show ?thesis unfolding bs_def [symmetric] by auto
qed

text \<open>C23. \<open>Read\<close> gives back what \<open>Write\<close> sent: an IPv4 or IPv6 packet that \<open>Write\<close> hands to the device arrives, read into any
  buffer with room for it, as the same bytes at the caller's offset, with its length as the size and the bytes
  in front of the header untouched.\<close>

theorem bsd_write_read_roundtrip:
  assumes "wf_slice buf" and "4 \<le> off" and "off < slen buf" and "drop_bit 4 (vis buf ! off) \<in> {4, 6 :: byte}"
    and "wf_slice buf2" and "4 \<le> off2" and "off2 + (slen buf - off) \<le> slen buf2"
    and "(W, R) \<in> {(freebsd_Write, freebsd_Read), (openbsd_Write, openbsd_Read), (darwin_Write, darwin_Read)}"
  shows "\<exists>bufs' frame buf2'. W (\<lambda>_ _. None) [buf] (int off) = Some (bufs', 1, None, [frame]) \<and>
    R (\<lambda>_. (frame, None)) [] [buf2] [0] (int off2) = Some ([], [buf2'], [int (slen buf - off)], 1, None) \<and>
    take (slen buf - off) (drop off2 (vis buf2')) = drop off (vis buf) \<and> take (off2 - 4) (vis buf2') = take (off2 - 4) (vis buf2)"
proof -
  obtain chk af6 where W: "W = bsd_Write chk af6" and R: "R = bsd_Read"
    using assms(8) by (auto simp: freebsd_Write_def openbsd_Write_def darwin_Write_def
        freebsd_Read_def openbsd_Read_def darwin_Read_def)
  define p where "p = drop off (vis buf)"
  have p: "hd p = vis buf ! off" "length p = slen buf - off" using assms(1,3) by (simp_all add: p_def hd_drop_conv_nth)
  have b: "\<forall>b\<in>set [buf]. wf_slice b \<and> off < slen b" using assms by simp
  obtain bufs' where r: "W (\<lambda>_ _. None) [buf] (int off) = Some (bufs', bsd_sent (\<lambda>_ _. None) af6 0 [p])"
    using bsd_write_loop_eq [OF b assms(2), of chk af6 "\<lambda>_ _. None" 0] assms(2)
    by (auto simp: W bsd_Write_def p_def simp del: bsd_write_loop.simps)
  obtain af where af: "packet_family af6 (hd p) = Some af" using assms(4) p(1) by (auto simp: packet_family_def)
  have "length [0, 0, 0, af] = 4" "off2 + length p \<le> slen buf2" using assms(7) p(2) by simp_all
  from bsd_Read_eq [OF assms(5,6) this(2) _ this(1), of "[]" "[]" None 0]
  obtain buf2' where "bsd_Read (\<lambda>_. (bsd_frame af p, None)) [] [buf2] [0] (int off2) = Some ([], [buf2'], [int (length p)], 1, None)"
    "take (length p) (drop off2 (vis buf2')) = p" "take (off2 - 4) (vis buf2') = take (off2 - 4) (vis buf2)"
    by (auto simp: bsd_frame_def)
  then show ?thesis using r af p by (auto simp: R p_def)
qed

theorem bsd_write_read_roundtrip_witness:
  "\<exists>bufs' frame buf2'. openbsd_Write (\<lambda>_ _. None) [of_bytes [9, 9, 9, 9, 0x45, 1, 2]] (int 4) = Some (bufs', 1, None, [frame]) \<and>
    openbsd_Read (\<lambda>_. (frame, None)) [] [of_bytes (replicate 20 7)] [0] (int 16) = Some ([], [buf2'], [3], 1, None) \<and>
    take 3 (drop 16 (vis buf2')) = [0x45, 1, 2]"
proof -
  have "drop_bit 4 (vis (of_bytes [9, 9, 9, 9, 0x45, 1, 2]) ! 4) \<in> {4, 6 :: byte}"
    by simp
  from bsd_write_read_roundtrip [of "of_bytes [9, 9, 9, 9, 0x45, 1, 2]" 4 "of_bytes (replicate 20 7)" 16 openbsd_Write openbsd_Read, OF _ _ _ this]
  show ?thesis by (simp add: numeral_3_eq_3) blast
qed

text \<open>On FreeBSD no buffer can make \<open>Write\<close> panic as long as the offset lies in it: a buffer with nothing behind the
  offset is an error.\<close>

theorem freebsd_Write_total:
  assumes "\<forall>b\<in>set bufs. wf_slice b \<and> offset \<le> int (slen b)"
  shows "\<exists>bufs' n err fs. freebsd_Write writer bufs offset = Some (bufs', n, err, fs)"
proof (cases "offset < 4")
  case False
  then obtain off where "offset = int off" "4 \<le> off" by (cases offset) auto
  then show ?thesis using bsd_write_loop_total [of bufs off freebsd_AF_INET6 writer 0] assms
    by (auto simp: freebsd_Write_def bsd_Write_def)
qed (simp add: freebsd_Write_def bsd_Write_def)

theorem freebsd_Write_total_witness:
  "\<exists>bufs' n err fs. freebsd_Write (\<lambda>_ _. None) [of_bytes [1, 2, 3, 4]] 4 = Some (bufs', n, err, fs)"
  by (rule freebsd_Write_total) simp

text \<open>The same buffer panics on OpenBSD and macOS.\<close>

lemma openbsd_darwin_Write_panics:
  "openbsd_Write writer [of_bytes [1, 2, 3, 4]] 4 = None \<and> darwin_Write writer [of_bytes [1, 2, 3, 4]] 4 = None"
  by (simp add: openbsd_Write_def darwin_Write_def bsd_Write_def sub_from_def sub_def of_bytes_def wr_def rd_def splice_def)

text \<open>C33. The listeners of the three systems report up and down in turn, beginning with up, and close the event channel only
  after an error, as their last action, whatever the system answers and wherever a full channel stops them.\<close>

theorem route_listeners_alternate:
  assumes "acts \<in> {freebsd_routineRouteListener en idx room ts, openbsd_routineRouteListener en idx initial room ts, darwin_routineRouteListener en idx room ts}"
  shows "(let es = updown acts in (\<forall>i < length es. es ! i = (if even i then EventUp else EventDown))) \<and>
    (\<exists>es e. acts = map Emit es \<or> acts = map Emit es @ [SendError e, CloseEvents])"
proof -
  have turn: "alternating (Some b) es \<Longrightarrow> \<forall>i < length es. es ! i = (if even i \<noteq> b then EventUp else EventDown)" for b es
  proof (induction es arbitrary: b)
    case (Cons e es)
    then have "alternating (Some (\<not> b)) es" "e = (if b then EventDown else EventUp)" by auto
    with Cons.IH [of "\<not> b"] show ?case by (auto simp: nth_Cons split: nat.splits)
  qed simp
  consider match info where "acts = route_listener match info room route_start ts"
    | e where "acts = route_error room e"
    | match info up mtu evs s where "status_change up mtu route_start = (evs, s)"
        "acts = (if length evs \<le> room then map Emit evs @ route_listener match info (room - length evs) s ts else map Emit (take room evs))"
    using assms by (auto simp: freebsd_routineRouteListener_def openbsd_routineRouteListener_def darwin_routineRouteListener_def split: sum.splits prod.splits)
  then have "alternating (Some False) (updown acts) \<and> (\<exists>es tl. acts = map Emit es @ tl \<and> tl \<in> {[]} \<union> {[SendError e, CloseEvents] | e. True})"
  proof cases
    case 1
    then show ?thesis using route_listener_closes route_listener_alternates [of route_start] by (simp add: route_start_def)
  next
    case 2
    then show ?thesis using route_error_shape by auto
  next
    case 3
    note u = status_change_updown [OF 3(1)]
    obtain es tl where e: "route_listener match info (room - length evs) s ts = map Emit es @ tl" "tl \<in> {[]} \<union> {[SendError e, CloseEvents] | e. True}"
      using route_listener_closes [of match info "room - length evs" s ts] by blast
    have "alternating (Some False) (updown acts)"
      using 3(2) u status_change_take [OF 3(1), of room] route_listener_alternates [of s match info "room - length evs" ts] by (cases up) (auto simp: route_start_def)
    moreover have "acts = (if length evs \<le> room then map Emit (evs @ es) @ tl else map Emit (take room evs) @ [])" using 3(2) e(1) by simp
    ultimately show ?thesis using e(2) by (cases "length evs \<le> room") (metis UnI1 singletonI)+
  qed
  then show ?thesis using turn [of False "updown acts"] by (auto simp: Let_def)
qed

definition ex_route :: "route_turn list" where
  "ex_route = [\<lparr>routeRead = Inr [0, 0, 0, 0x0e, 0, 0, 0, 0, 0, 0, 0, 0, 3, 0], ifaceInfo = Inr (True, 1420)\<rparr>]"

theorem route_listeners_alternate_witness:
  "0 < length (updown (freebsd_routineRouteListener LittleEndian 3 10 ex_route)) \<and>
   updown (freebsd_routineRouteListener LittleEndian 3 10 ex_route) ! 0 = EventUp"
proof -
  have "freebsd_routineRouteListener LittleEndian 3 10 ex_route = [Emit EventUp, Emit EventMTUUpdate]"
    by (simp add: freebsd_routineRouteListener_def ex_route_def route_match_def RTM_IFINFO_def native_nat_def status_change_def route_start_def)
  then have l: "0 < length (updown (freebsd_routineRouteListener LittleEndian 3 10 ex_route))" by (simp add: updown_def)
  have "freebsd_routineRouteListener LittleEndian 3 10 ex_route \<in> {freebsd_routineRouteListener LittleEndian 3 10 ex_route,
      openbsd_routineRouteListener LittleEndian 3 (Inr (True, 0)) 10 ex_route, darwin_routineRouteListener LittleEndian 3 10 ex_route}" by simp
  from route_listeners_alternate [OF this] l show ?thesis by (simp add: Let_def)
qed

end
