(* ===== verification/Bsd_Setup.thy ===== *)
theory Bsd_Setup
  imports Os_Calls Bsd_Tun
begin

text \<open>
  Creation, configuration and closing of the FreeBSD, OpenBSD and macOS devices (\<^verbatim>\<open>tun_freebsd.go\<close>,
  \<^verbatim>\<open>tun_openbsd.go\<close>, \<^verbatim>\<open>tun_darwin.go\<close>, \<^verbatim>\<open>operateonfd.go\<close>), as programs of system calls with every early return and
  every deferred close. The lemmas say which descriptors each program leaves open.
\<close>

section \<open>The device and its descriptor\<close>

record bsd_dev =
  devFile :: fd
  devName :: string
  routeSocket :: fd

text \<open>\<open>operateOnFd\<close> runs a function on the descriptor, or sends an error to the channel of the device. \<open>room\<close>: how many more errors
  the channel can take; a channel that is nil or full blocks for ever.\<close>

datatype 'a on_fd = Blocked | Skipped | Ran 'a

definition operateOnFd :: "os_env \<Rightarrow> fd \<Rightarrow> nat \<Rightarrow> (os_log, 'a) state \<Rightarrow> (os_log, 'a on_fd) state" where
  "operateOnFd env file room act = do {
     e \<leftarrow> os_do env (SyscallConn file);
     case e of
       Some e \<Rightarrow> ret (if room = 0 then Blocked else Skipped)
     | None \<Rightarrow> do {
     e \<leftarrow> os_do env (Control file);
     case e of
       Some e \<Rightarrow> ret (if room = 0 then Blocked else Skipped)
     | None \<Rightarrow> do { r \<leftarrow> act; ret (Ran r) }
     }}"

text \<open>A constructor: blocked for ever, an error, or a device.\<close>

type_synonym created = "(go_error + bsd_dev) option"

section \<open>FreeBSD\<close>

definition tunName :: "os_env \<Rightarrow> fd \<Rightarrow> (os_log, go_error + string) state" where
  "tunName env file = os_text env (Ioctl file ''TUNGIFNAME'' NoArg)"

definition tunDestroy :: "os_env \<Rightarrow> string \<Rightarrow> (os_log, go_error option) state" where
  "tunDestroy env name = do {
     r \<leftarrow> os_open env (Socket ''AF_INET SOCK_DGRAM'');
     case r of
       Inl e \<Rightarrow> ret (Some e)
     | Inr fd \<Rightarrow> do {
     e \<leftarrow> os_do env (Ioctl fd ''SIOCIFDESTROY'' (IfName name));
     os_ignore env (CloseFd fd);
     case e of
       Some errno \<Rightarrow> ret (Some (ErrWrap (''failed to destroy interface '' @ name) errno))
     | None \<Rightarrow> ret None
     }}"

definition freebsd_setMTU :: "os_env \<Rightarrow> string \<Rightarrow> int \<Rightarrow> (os_log, go_error option) state" where
  "freebsd_setMTU env name n = do {
     r \<leftarrow> os_open env (Socket ''AF_INET SOCK_DGRAM'');
     case r of
       Inl e \<Rightarrow> ret (Some e)
     | Inr fd \<Rightarrow> do {
     e \<leftarrow> os_do env (Ioctl fd ''SIOCSIFMTU'' (IfMTU name (of_int n)));
     os_ignore env (CloseFd fd);
     case e of
       Some errno \<Rightarrow> ret (Some (ErrWrap (''failed to set MTU on '' @ name) errno))
     | None \<Rightarrow> ret None
     }}"

definition freebsd_MTU :: "os_env \<Rightarrow> string \<Rightarrow> (os_log, go_error + int) state" where
  "freebsd_MTU env name = do {
     r \<leftarrow> os_open env (Socket ''AF_INET SOCK_DGRAM'');
     case r of
       Inl e \<Rightarrow> ret (Inl e)
     | Inr fd \<Rightarrow> do {
     r \<leftarrow> os_number env (Ioctl fd ''SIOCGIFMTU'' (IfName name));
     os_ignore env (CloseFd fd);
     case r of
       Inl errno \<Rightarrow> ret (Inl (ErrWrap (''failed to get MTU on '' @ name) errno))
     | Inr v \<Rightarrow> ret (Inr (sint (of_int v :: 32 word)))
     }}"

text \<open>The body of the first \<open>Close\<close> of a device with a routing socket; the first error of the three is returned.\<close>

definition freebsd_Close :: "os_env \<Rightarrow> bsd_dev \<Rightarrow> (os_log, go_error option) state" where
  "freebsd_Close env dev = do {
     err1 \<leftarrow> os_do env (CloseFd (devFile dev));
     err2 \<leftarrow> tunDestroy env (devName dev);
     os_ignore env (Shutdown (routeSocket dev));
     err3 \<leftarrow> os_do env (CloseFd (routeSocket dev));
     ret (if err1 \<noteq> None then err1 else if err2 \<noteq> None then err2 else err3)
   }"

text \<open>Behind the name of the interface; also the rest of the constructors of OpenBSD and macOS, which differ in \<open>mtu_setup\<close>, the first
  configuration of the MTU, and in \<open>close\<close>.\<close>

definition bsd_with_name ::
  "os_env \<Rightarrow> fd \<Rightarrow> string \<Rightarrow> string \<Rightarrow> (os_log, go_error option) state \<Rightarrow> (bsd_dev \<Rightarrow> (os_log, go_error option) state) \<Rightarrow> (os_log, created) state" where
  "bsd_with_name env file name route mtu_setup close = do {
     e \<leftarrow> os_do env (InterfaceByName name);
     case e of
       Some e \<Rightarrow> do { os_ignore env (CloseFd file); ret (Some (Inl e)) }
     | None \<Rightarrow> do {
     r \<leftarrow> os_open env (Socket route);
     case r of
       Inl e \<Rightarrow> do { os_ignore env (CloseFd file); ret (Some (Inl e)) }
     | Inr sock \<Rightarrow> do {
     os_ignore env (Spawn ''routineRouteListener'');
     let dev = \<lparr>devFile = file, devName = name, routeSocket = sock\<rparr>;
     e \<leftarrow> mtu_setup;
     case e of
       Some e \<Rightarrow> do { _ \<leftarrow> close dev; ret (Some (Inl e)) }
     | None \<Rightarrow> ret (Some (Inr dev))
     }}}"

text \<open>The name of the interface, with \<open>room\<close> in the error channel: blocked for ever, an error, or the name, which is empty when
  the descriptor cannot be used.\<close>

definition freebsd_Name :: "os_env \<Rightarrow> fd \<Rightarrow> nat \<Rightarrow> (os_log, (go_error + string) option) state" where
  "freebsd_Name env file room = do {
     r \<leftarrow> operateOnFd env file room (tunName env file);
     case r of
       Blocked \<Rightarrow> ret None
     | Skipped \<Rightarrow> ret (Some (Inr []))
     | Ran r \<Rightarrow> ret (Some r)
     }"

text \<open>The error channel of a FreeBSD device has room for one error.\<close>

definition freebsd_named :: "os_env \<Rightarrow> fd \<Rightarrow> int \<Rightarrow> string \<Rightarrow> (os_log, created) state" where
  "freebsd_named env file mtu name = bsd_with_name env file name ''AF_ROUTE SOCK_RAW'' (freebsd_setMTU env name mtu) (freebsd_Close env)"

definition freebsd_CreateTUNFromFile :: "os_env \<Rightarrow> fd \<Rightarrow> int \<Rightarrow> (os_log, created) state" where
  "freebsd_CreateTUNFromFile env file mtu = do {
     r \<leftarrow> operateOnFd env file 1 (os_do env (Ioctl file ''TUNSIFPID'' NoArg));
     case r of
       Ran (Some errno) \<Rightarrow> do { os_ignore env (CloseFd file); ret (Some (Inl (ErrWrap ''unable to become controlling TUN process'' errno))) }
     | Blocked \<Rightarrow> ret None
     | _ \<Rightarrow> do {
     n \<leftarrow> freebsd_Name env file (if r = Skipped then 0 else 1);
     case n of
       None \<Rightarrow> ret None
     | Some (Inl e) \<Rightarrow> do { os_ignore env (CloseFd file); ret (Some (Inl e)) }
     | Some (Inr name) \<Rightarrow> freebsd_named env file mtu name
     }}"

text \<open>Giving up after the interface exists.\<close>

definition freebsd_undo :: "os_env \<Rightarrow> fd \<Rightarrow> string \<Rightarrow> go_error \<Rightarrow> (os_log, created) state" where
  "freebsd_undo env file name e = do {
     os_ignore env (CloseFd file);
     _ \<leftarrow> tunDestroy env name;
     ret (Some (Inl e))
   }"

text \<open>An \<^verbatim>\<open>ioctl\<close> on the new device, whose error channel is nil.\<close>

definition freebsd_mode ::
  "os_env \<Rightarrow> fd \<Rightarrow> string \<Rightarrow> string \<Rightarrow> int \<Rightarrow> string \<Rightarrow> (os_log, created) state \<Rightarrow> (os_log, created) state" where
  "freebsd_mode env file assigned req arg msg rest = do {
     r \<leftarrow> operateOnFd env file 0 (os_do env (Ioctl file req (IntArg arg)));
     case r of
       Ran (Some errno) \<Rightarrow> freebsd_undo env file assigned (ErrWrap msg errno)
     | Ran None \<Rightarrow> rest
     | _ \<Rightarrow> ret None
     }"

text \<open>\<^verbatim>\<open>defer unix.Close(fd)\<close>, which a call that is blocked for ever does not reach.\<close>

definition deferred_close :: "os_env \<Rightarrow> fd \<Rightarrow> created \<Rightarrow> (os_log, created) state" where
  "deferred_close env fd r = (if r = None then ret None else do { os_ignore env (CloseFd fd); ret r })"

text \<open>Disabling IPv6 link-local addresses on the open socket \<open>confd6\<close>; \<open>ndflags\<close> are the flags read.\<close>

definition freebsd_nd6 :: "os_env \<Rightarrow> fd \<Rightarrow> fd \<Rightarrow> string \<Rightarrow> (os_log, created) state \<Rightarrow> (os_log, created) state" where
  "freebsd_nd6 env file confd6 assigned rest = do {
     r \<leftarrow> os_number env (Ioctl confd6 ''SIOCGIFINFO_IN6'' (IfName assigned));
     case r of
       Inl errno \<Rightarrow> freebsd_undo env file assigned (ErrWrap (''unable to get nd6 flags for '' @ assigned) errno)
     | Inr ndflags \<Rightarrow> do {
     let f = (of_int ndflags :: u32);
     let f = (f AND NOT 0x20) OR 0x100;
     e \<leftarrow> os_do env (Ioctl confd6 ''SIOCSIFINFO_IN6'' (IfFlags assigned f));
     case e of
       Some errno \<Rightarrow> freebsd_undo env file assigned (ErrWrap (''unable to set nd6 flags for '' @ assigned) errno)
     | None \<Rightarrow> rest
     }}"

definition freebsd_rename :: "os_env \<Rightarrow> fd \<Rightarrow> string \<Rightarrow> string \<Rightarrow> (os_log, created) state \<Rightarrow> (os_log, created) state" where
  "freebsd_rename env file assigned name rest = (if name = [] then rest else do {
     r \<leftarrow> os_open env (Socket ''AF_INET SOCK_DGRAM'');
     case r of
       Inl e \<Rightarrow> freebsd_undo env file assigned e
     | Inr confd \<Rightarrow> do {
     e \<leftarrow> os_do env (Ioctl confd ''SIOCSIFNAME'' (IfRename assigned name));
     r \<leftarrow> (case e of
         Some errno \<Rightarrow> freebsd_undo env file assigned (ErrWrap (''Failed to rename '' @ assigned @ '' to '' @ name) errno)
       | None \<Rightarrow> rest);
     deferred_close env confd r
     }})"

text \<open>\<^verbatim>\<open>IFF_BROADCAST | IFF_MULTICAST\<close>; \<^verbatim>\<open>IFNAMSIZ\<close> is 16.\<close>

definition freebsd_CreateTUN :: "os_env \<Rightarrow> string \<Rightarrow> int \<Rightarrow> (os_log, created) state" where
  "freebsd_CreateTUN env name mtu = (if length name > 15 then ret (Some (Inl (ErrMsg ''interface name too long''))) else do {
     e \<leftarrow> os_do env (InterfaceByName name);
     case e of
       None \<Rightarrow> ret (Some (Inl (ErrMsg (''interface '' @ name @ '' already exists''))))
     | Some _ \<Rightarrow> do {
     r \<leftarrow> os_open env (OpenFile ''/dev/tun'');
     case r of
       Inl e \<Rightarrow> ret (Some (Inl e))
     | Inr file \<Rightarrow> do {
     r \<leftarrow> operateOnFd env file 0 (tunName env file);
     case r of
       Ran (Inl e) \<Rightarrow> do { os_ignore env (CloseFd file); ret (Some (Inl e)) }
     | Ran (Inr assigned) \<Rightarrow>
         freebsd_mode env file assigned ''TUNSIFHEAD'' 1 ''unable to put into IFHEAD mode''
         (freebsd_mode env file assigned ''TUNSIFMODE'' 0x8002 ''unable to put into IFF_BROADCAST mode'' (do {
            r \<leftarrow> os_open env (Socket ''AF_INET6 SOCK_DGRAM'');
            case r of
              Inl e \<Rightarrow> freebsd_undo env file assigned e
            | Inr confd6 \<Rightarrow> do {
                r \<leftarrow> freebsd_nd6 env file confd6 assigned (freebsd_rename env file assigned name (freebsd_CreateTUNFromFile env file mtu));
                deferred_close env confd6 r
              }
          }))
     | _ \<Rightarrow> ret None
     }}})"

section \<open>Interface names with a number\<close>

text \<open>Decimal numerals, as \<^verbatim>\<open>fmt\<close> prints them.\<close>

fun decimal :: "nat \<Rightarrow> string" where
  "decimal n = (if n < 10 then [char_of (48 + n)] else decimal (n div 10) @ [char_of (48 + n mod 10)])"

declare decimal.simps [simp del]

definition is_digit :: "char \<Rightarrow> bool" where
  "is_digit c \<longleftrightarrow> 48 \<le> (of_char c :: nat) \<and> (of_char c :: nat) \<le> 57"

definition digits_value :: "string \<Rightarrow> nat" where
  "digits_value ds = foldl (\<lambda>v c. 10 * v + (of_char c - 48)) 0 ds"

text \<open>The length in bytes of the space at the front of a text, 0 when there is none: the runes of \<^verbatim>\<open>isSpace\<close> in package \<^verbatim>\<open>fmt\<close>, in UTF-8, but the
  newline, which ends the scan with an error.\<close>

definition space_length :: "string \<Rightarrow> nat" where
  "space_length s = (let b = map of_char s :: nat list in
     if take 1 b \<in> {[0x09], [0x0B], [0x0C], [0x0D], [0x20]} then 1
     else if take 2 b \<in> {[0xC2, 0x85], [0xC2, 0xA0]} then 2
     else if take 3 b \<in> {[0xE1, 0x9A, 0x80], [0xE2, 0x80, 0xA8], [0xE2, 0x80, 0xA9], [0xE2, 0x80, 0xAF], [0xE2, 0x81, 0x9F], [0xE3, 0x80, 0x80]} then 3
     else if take 2 b = [0xE2, 0x80] \<and> (\<exists>k\<in>set (take 1 (drop 2 b)). 0x80 \<le> k \<and> k \<le> 0x8A) then 3
     else 0)"

lemma space_length_Nil [simp]: "space_length [] = 0"
  by (simp add: space_length_def)

function skip_space :: "string \<Rightarrow> string" where
  "skip_space s = (if space_length s = 0 then s else skip_space (drop (space_length s) s))"
  by auto
termination
proof (relation "measure length", simp)
  fix s assume "space_length s \<noteq> 0"
  then have "s \<noteq> []" by auto
  with \<open>space_length s \<noteq> 0\<close> show "(drop (space_length s) s, s) \<in> measure length" by simp
qed

declare skip_space.simps [simp del]

text \<open>\<^verbatim>\<open>fmt.Sscanf(name, prefix + "%d", &i)\<close>: the prefix, spaces, a sign, at least one digit; what comes behind the digits is not
  looked at. A number outside 64 bits is an error.\<close>

definition sscanf_index :: "string \<Rightarrow> string \<Rightarrow> int option" where
  "sscanf_index prefix name =
     (if take (length prefix) name \<noteq> prefix then None
      else let rest = skip_space (drop (length prefix) name);
               neg = (rest \<noteq> [] \<and> hd rest = CHR ''-'');
               rest = (if rest \<noteq> [] \<and> hd rest \<in> {CHR ''-'', CHR ''+''} then tl rest else rest);
               ds = takeWhile is_digit rest;
               v = (if neg then - int (digits_value ds) else int (digits_value ds))
           in if ds = [] \<or> v < - (2 ^ 63) \<or> 2 ^ 63 \<le> v then None else Some v)"

section \<open>OpenBSD\<close>

text \<open>\<open>Name\<close> reads the minor number of the device file; an error leaves the name empty.\<close>

definition openbsd_Name :: "os_env \<Rightarrow> fd \<Rightarrow> (os_log, go_error + string) state" where
  "openbsd_Name env file = do {
     r \<leftarrow> os_number env (Stat file);
     case r of
       Inl e \<Rightarrow> ret (Inl e)
     | Inr rdev \<Rightarrow> ret (Inr (''tun'' @ decimal (nat (rdev mod 256))))
     }"

text \<open>As on FreeBSD, but the errno is not wrapped.\<close>

definition openbsd_setMTU :: "os_env \<Rightarrow> string \<Rightarrow> int \<Rightarrow> (os_log, go_error option) state" where
  "openbsd_setMTU env name n = do {
     r \<leftarrow> os_open env (Socket ''AF_INET SOCK_DGRAM'');
     case r of
       Inl e \<Rightarrow> ret (Some e)
     | Inr fd \<Rightarrow> do {
     e \<leftarrow> os_do env (Ioctl fd ''SIOCSIFMTU'' (IfMTU name (of_int n)));
     os_ignore env (CloseFd fd);
     case e of
       Some errno \<Rightarrow> ret (Some (ErrMsg (''failed to set MTU on '' @ name)))
     | None \<Rightarrow> ret None
     }}"

definition openbsd_MTU :: "os_env \<Rightarrow> string \<Rightarrow> (os_log, go_error + int) state" where
  "openbsd_MTU env name = do {
     r \<leftarrow> os_open env (Socket ''AF_INET SOCK_DGRAM'');
     case r of
       Inl e \<Rightarrow> ret (Inl e)
     | Inr fd \<Rightarrow> do {
     r \<leftarrow> os_number env (Ioctl fd ''SIOCGIFMTU'' (IfName name));
     os_ignore env (CloseFd fd);
     case r of
       Inl errno \<Rightarrow> ret (Inl (ErrMsg (''failed to get MTU on '' @ name)))
     | Inr v \<Rightarrow> ret (Inr (sint (of_int v :: 32 word)))
     }}"

text \<open>OpenBSD and macOS close alike; the interface goes away with the file.\<close>

definition openbsd_Close :: "os_env \<Rightarrow> bsd_dev \<Rightarrow> (os_log, go_error option) state" where
  "openbsd_Close env dev = do {
     err1 \<leftarrow> os_do env (CloseFd (devFile dev));
     os_ignore env (Shutdown (routeSocket dev));
     err2 \<leftarrow> os_do env (CloseFd (routeSocket dev));
     ret (if err1 \<noteq> None then err1 else err2)
   }"

text \<open>The MTU is set when it cannot be read or differs.\<close>

definition openbsd_setup :: "os_env \<Rightarrow> string \<Rightarrow> int \<Rightarrow> (os_log, go_error option) state" where
  "openbsd_setup env name mtu = do {
     r \<leftarrow> openbsd_MTU env name;
     if r = Inr mtu then ret None else openbsd_setMTU env name mtu
   }"

definition openbsd_CreateTUNFromFile :: "os_env \<Rightarrow> fd \<Rightarrow> int \<Rightarrow> (os_log, created) state" where
  "openbsd_CreateTUNFromFile env file mtu = do {
     r \<leftarrow> openbsd_Name env file;
     case r of
       Inl e \<Rightarrow> do { os_ignore env (CloseFd file); ret (Some (Inl e)) }
     | Inr name \<Rightarrow> bsd_with_name env file name ''AF_ROUTE SOCK_RAW'' (openbsd_setup env name mtu) (openbsd_Close env)
     }"

text \<open>\<^verbatim>\<open>errors.Is(err, syscall.EBUSY)\<close>.\<close>

definition is_busy :: "go_error \<Rightarrow> bool" where
  "is_busy e \<longleftrightarrow> errors_is e (SysErr 16)"

text \<open>The device files from number \<open>i\<close> on, \<open>k\<close> of them, as long as they are busy.\<close>

fun openbsd_open_free :: "os_env \<Rightarrow> nat \<Rightarrow> nat \<Rightarrow> go_error \<Rightarrow> (os_log, go_error + fd) state" where
  "openbsd_open_free env 0 i err = ret (Inl err)"
| "openbsd_open_free env (Suc k) i err = do {
     r \<leftarrow> os_open env (OpenFile (''/dev/tun'' @ decimal i));
     case r of
       Inr fd \<Rightarrow> ret (Inr fd)
     | Inl e \<Rightarrow> if is_busy e then openbsd_open_free env k (Suc i) e else ret (Inl e)
   }"

text \<open>\<^verbatim>\<open>WG_TUN_NAME_FILE\<close>: the chosen name is written to the file it names.\<close>

definition write_name_file :: "os_env \<Rightarrow> bool \<Rightarrow> created \<Rightarrow> (os_log, created) state" where
  "write_name_file env auto r = (case r of
     Some (Inr dev) \<Rightarrow> if auto then do {
         v \<leftarrow> os_text env (Getenv ''WG_TUN_NAME_FILE'');
         case v of
           Inl e \<Rightarrow> ret r
         | Inr fname \<Rightarrow> if fname = [] then ret r else do { os_ignore env (WriteFile fname (devName dev @ [CHR 0x0A])); ret r }
       } else ret r
   | _ \<Rightarrow> ret r)"

definition openbsd_CreateTUN :: "os_env \<Rightarrow> string \<Rightarrow> int \<Rightarrow> (os_log, created) state" where
  "openbsd_CreateTUN env name mtu =
     (let auto = (name = ''tun''); ifIndex = sscanf_index ''tun'' name in
      if \<not> auto \<and> (ifIndex = None \<or> the ifIndex < 0) then ret (Some (Inl (ErrMsg ''Interface name must be tun[0-9]*'')))
      else do {
        r \<leftarrow> (if auto then openbsd_open_free env 256 0 (SysErr 16)
              else os_open env (OpenFile (''/dev/tun'' @ decimal (nat (the ifIndex)))));
        case r of
          Inl e \<Rightarrow> ret (Some (Inl e))
        | Inr file \<Rightarrow> do {
            r \<leftarrow> openbsd_CreateTUNFromFile env file mtu;
            write_name_file env auto r
          }
      })"

section \<open>macOS\<close>

text \<open>The error channel has room for five errors.\<close>

definition darwin_Name :: "os_env \<Rightarrow> fd \<Rightarrow> (os_log, (go_error + string) option) state" where
  "darwin_Name env file = do {
     r \<leftarrow> operateOnFd env file 5 (os_text env (Getsockopt file));
     case r of
       Blocked \<Rightarrow> ret None
     | Skipped \<Rightarrow> ret (Some (Inr []))
     | Ran (Inl e) \<Rightarrow> ret (Some (Inl (ErrWrap ''GetSockoptString'' e)))
     | Ran (Inr name) \<Rightarrow> ret (Some (Inr name))
     }"

definition darwin_setMTU :: "os_env \<Rightarrow> string \<Rightarrow> int \<Rightarrow> (os_log, go_error option) state" where
  "darwin_setMTU = freebsd_setMTU"

definition darwin_MTU :: "os_env \<Rightarrow> string \<Rightarrow> (os_log, go_error + int) state" where
  "darwin_MTU = freebsd_MTU"

definition darwin_Close :: "os_env \<Rightarrow> bsd_dev \<Rightarrow> (os_log, go_error option) state" where
  "darwin_Close = openbsd_Close"

text \<open>The MTU is set when one is given.\<close>

definition darwin_setup :: "os_env \<Rightarrow> string \<Rightarrow> int \<Rightarrow> (os_log, go_error option) state" where
  "darwin_setup env name mtu = (if 0 < mtu then darwin_setMTU env name mtu else ret None)"

definition darwin_CreateTUNFromFile :: "os_env \<Rightarrow> fd \<Rightarrow> int \<Rightarrow> (os_log, created) state" where
  "darwin_CreateTUNFromFile env file mtu = do {
     r \<leftarrow> darwin_Name env file;
     case r of
       None \<Rightarrow> ret None
     | Some (Inl e) \<Rightarrow> do { os_ignore env (CloseFd file); ret (Some (Inl e)) }
     | Some (Inr name) \<Rightarrow> bsd_with_name env file name ''AF_ROUTE SOCK_RAW'' (darwin_setup env name mtu) (darwin_Close env)
     }"

text \<open>The unit of the control socket is the index plus one, zero for any.\<close>

definition darwin_CreateTUN :: "os_env \<Rightarrow> string \<Rightarrow> int \<Rightarrow> (os_log, created) state" where
  "darwin_CreateTUN env name mtu =
     (let auto = (name = ''utun''); ifIndex = sscanf_index ''utun'' name in
      if \<not> auto \<and> (ifIndex = None \<or> the ifIndex < 0) then ret (Some (Inl (ErrMsg ''Interface name must be utun[0-9]*'')))
      else do {
        r \<leftarrow> os_open env (Socket ''AF_SYSTEM SOCK_DGRAM'');
        case r of
          Inl e \<Rightarrow> ret (Some (Inl e))
        | Inr fd \<Rightarrow> do {
        e \<leftarrow> os_do env (Ioctl fd ''CTLIOCGINFO'' (IfName ''com.apple.net.utun_control''));
        case e of
          Some e \<Rightarrow> do { os_ignore env (CloseFd fd); ret (Some (Inl (ErrWrap ''IoctlGetCtlInfo'' e))) }
        | None \<Rightarrow> do {
        e \<leftarrow> os_do env (Connect fd (of_int (if auto then -1 else the ifIndex) + 1));
        case e of
          Some e \<Rightarrow> do { os_ignore env (CloseFd fd); ret (Some (Inl e)) }
        | None \<Rightarrow> do {
        e \<leftarrow> os_do env (SetNonblock fd);
        case e of
          Some e \<Rightarrow> do { os_ignore env (CloseFd fd); ret (Some (Inl e)) }
        | None \<Rightarrow> do {
        r \<leftarrow> darwin_CreateTUNFromFile env fd mtu;
        write_name_file env auto r
        }}}}})"

section \<open>Descriptors\<close>

lemma operateOnFd_rule [os_rules]:
  assumes "\<And>l'. fds_kept l l' \<Longrightarrow> room = 0 \<Longrightarrow> Q Blocked l'" and "\<And>l'. fds_kept l l' \<Longrightarrow> room \<noteq> 0 \<Longrightarrow> Q Skipped l'"
    and "\<And>l'. fds_kept l l' \<Longrightarrow> ensures l' act (\<lambda>r l''. Q (Ran r) l'')"
  shows "ensures l (operateOnFd env file room act) Q"
proof -
  have b: "Q (if room = 0 then Blocked else Skipped) l'" if "fds_kept l l'" for l' using assms(1,2) that by simp
  have a: "ensures l' act (\<lambda>r l''. ensures l'' (ret (Ran r)) Q)" if "fds_kept l l'" for l'
    by (rule ensures_mono [OF assms(3) [OF that]]) (rule ensures_return)
  show ?thesis unfolding operateOnFd_def by (intro os_rules; (rule b | rule a)) (auto dest!: loggedD simp: fds_kept_def)
qed

lemma ensures_on_fd [os_rules]:
  "ensures l p Q \<Longrightarrow> ensures l (case Blocked of Blocked \<Rightarrow> p | Skipped \<Rightarrow> q | Ran r \<Rightarrow> f r) Q"
  "ensures l q Q \<Longrightarrow> ensures l (case Skipped of Blocked \<Rightarrow> p | Skipped \<Rightarrow> q | Ran r \<Rightarrow> f r) Q"
  "ensures l (f v) Q \<Longrightarrow> ensures l (case Ran v of Blocked \<Rightarrow> p | Skipped \<Rightarrow> q | Ran r \<Rightarrow> f r) Q"
  by simp_all

lemma tunDestroy_kept [os_rules]:
  assumes "\<And>r l'. fds_kept l l' \<Longrightarrow> Q r l'"
  shows "ensures l (tunDestroy env name) Q"
  unfolding tunDestroy_def by (intro os_rules; rule assms) (auto dest!: loggedD simp: fds_kept_def)

lemma bsd_setMTU_kept [os_rules]:
  assumes "\<And>e l'. fds_kept l l' \<Longrightarrow> Q (Some e) l'" and "\<And>l'. fds_kept l l' \<Longrightarrow> Q None l'"
  shows "ensures l (freebsd_setMTU env name n) Q" and "ensures l (openbsd_setMTU env name n) Q"
  unfolding freebsd_setMTU_def openbsd_setMTU_def by (intro os_rules; rule assms; auto dest!: loggedD simp: fds_kept_def)+

lemma bsd_MTU_kept [os_rules]:
  assumes "\<And>r l'. fds_kept l l' \<Longrightarrow> Q r l'"
  shows "ensures l (freebsd_MTU env name) Q" and "ensures l (openbsd_MTU env name) Q"
  unfolding freebsd_MTU_def openbsd_MTU_def by (intro os_rules; rule assms; auto dest!: loggedD simp: fds_kept_def)+

lemma openbsd_setup_kept [os_rules]:
  assumes "\<And>e l'. fds_kept l l' \<Longrightarrow> Q (Some e) l'" and "\<And>l'. fds_kept l l' \<Longrightarrow> Q None l'"
  shows "ensures l (openbsd_setup env name n) Q"
  unfolding openbsd_setup_def by (intro os_rules; rule assms) (auto simp: fds_kept_def)

lemma fds_kept_refl' [simp]: "fds_kept l l"
  by (simp add: fds_kept_def)

lemma fds_kept_trans: "fds_kept l l' \<Longrightarrow> fds_kept l' l'' \<Longrightarrow> fds_kept l l''"
  by (auto simp: fds_kept_def)

text \<open>\<open>Close\<close> closes both descriptors of a device.\<close>

definition both_closed :: "bsd_dev \<Rightarrow> os_log \<Rightarrow> os_log \<Rightarrow> bool" where
  "both_closed dev l l' \<longleftrightarrow> length l \<le> length l' \<and> open_fds l' = open_fds l - {devFile dev, routeSocket dev}"

lemma bsd_Close_fds [os_rules]:
  assumes "\<And>r l'. both_closed dev l l' \<Longrightarrow> Q r l'"
  shows "ensures l (freebsd_Close env dev) Q" and "ensures l (openbsd_Close env dev) Q"
  unfolding freebsd_Close_def openbsd_Close_def
  by (intro os_rules; rule assms; auto dest!: loggedD simp: fds_kept_def both_closed_def)+

text \<open>What a constructor that is given an open file leaves: on an error the file is closed too, and a device has one more descriptor.\<close>

definition from_file :: "fd \<Rightarrow> os_log \<Rightarrow> created \<Rightarrow> os_log \<Rightarrow> bool" where
  "from_file file l r l' \<longleftrightarrow> length l \<le> length l' \<and> (case r of
     None \<Rightarrow> True
   | Some (Inl e) \<Rightarrow> open_fds l' = open_fds l - {file}
   | Some (Inr dev) \<Rightarrow> devFile dev = file \<and> length l \<le> routeSocket dev \<and> routeSocket dev < length l' \<and>
       open_fds l' = insert (routeSocket dev) (open_fds l))"

lemma from_file_kept: "fds_kept l l1 \<Longrightarrow> from_file file l1 r l' \<Longrightarrow> from_file file l r l'"
  by (auto simp: from_file_def fds_kept_def split: option.splits sum.splits)

lemma fds_kept_ioctl: "logged l (Ioctl fd req arg) ok l' \<Longrightarrow> fds_kept l l'"
  by (auto dest!: loggedD simp: fds_kept_def)

lemma from_file_blocked: "fds_kept l l' \<Longrightarrow> from_file file l None l'"
  by (simp add: from_file_def fds_kept_def)

lemma from_file_closed: "fds_kept l l1 \<Longrightarrow> logged l1 (CloseFd file) ok l' \<Longrightarrow> from_file file l (Some (Inl e)) l'"
  by (auto dest!: loggedD simp: from_file_def fds_kept_def)

lemma bsd_with_name_fds:
  assumes close: "\<And>dev l Q. (\<And>r l'. both_closed dev l l' \<Longrightarrow> Q r l') \<Longrightarrow> ensures l (close dev) Q"
    and mtu_setup: "\<And>l Q. (\<And>e l'. fds_kept l l' \<Longrightarrow> Q (Some e) l') \<Longrightarrow> (\<And>l'. fds_kept l l' \<Longrightarrow> Q None l') \<Longrightarrow> ensures l mtu_setup Q"
    and lt: "file < length l"
  shows "ensures l (bsd_with_name env file name route mtu_setup close) (from_file file l)"
  unfolding bsd_with_name_def Let_def
  by (intro os_rules close mtu_setup) (use lt in \<open>auto dest!: loggedD simp: from_file_def fds_kept_def both_closed_def\<close>)

lemma freebsd_named_fds: "file < length l \<Longrightarrow> ensures l (freebsd_named env file mtu name) (from_file file l)"
  unfolding freebsd_named_def by (rule bsd_with_name_fds) (auto intro: bsd_Close_fds bsd_setMTU_kept)

end
