(* ===== verification/Bsd_Lifecycle.thy ===== *)
theory Bsd_Lifecycle
  imports Bsd_Setup Linux_Lifecycle
begin

text \<open>
  The descriptors that the constructors of the FreeBSD, OpenBSD and macOS devices leave open, on every path: none after
  an error, and two after a success, which \<open>Close\<close> closes. Then the numbers in interface names, and the MTU that is
  set and read, on Linux too.
\<close>

section \<open>From an open file\<close>

lemma logged_fdsD: "logged l c ok l' \<Longrightarrow> open_fds l' = fd_step (length l) (c, ok) (open_fds l) \<and> length l' = Suc (length l)"
  by (simp add: logged_fds logged_length)

lemma freebsd_CreateTUNFromFile_fds:
  assumes "file < length l"
  shows "ensures l (freebsd_CreateTUNFromFile env file mtu) (from_file file l)"
proof -
  have n: "ensures l1 (freebsd_named env file mtu name) (from_file file l)" if "open_fds l1 = open_fds l" "length l \<le> length l1" for l1 name
    by (rule ensures_mono [OF freebsd_named_fds]) (use that assms in \<open>auto simp: from_file_def split: option.splits sum.splits\<close>)
  show ?thesis unfolding freebsd_CreateTUNFromFile_def freebsd_Name_def tunName_def
    by (intro os_rules n; (simp split del: if_split)?) (auto dest!: logged_fdsD simp: from_file_def fds_kept_def)
qed

lemma openbsd_Name_kept [os_rules]:
  assumes "\<And>e l'. fds_kept l l' \<Longrightarrow> Q (Inl e) l'" and "\<And>n l'. fds_kept l l' \<Longrightarrow> Q (Inr n) l'"
  shows "ensures l (openbsd_Name env file) Q"
  unfolding openbsd_Name_def by (intro os_rules; rule assms) (auto dest!: loggedD simp: fds_kept_def)

lemma openbsd_CreateTUNFromFile_fds:
  assumes "file < length l"
  shows "ensures l (openbsd_CreateTUNFromFile env file mtu) (from_file file l)"
proof -
  have n: "ensures l1 (bsd_with_name env file name ''AF_ROUTE SOCK_RAW'' (openbsd_setup env name mtu) (openbsd_Close env)) (from_file file l)"
    if k: "fds_kept l l1" for l1 name
  proof (rule ensures_mono [OF bsd_with_name_fds])
    show "file < length l1" using k assms by (simp add: fds_kept_def)
  qed (use k from_file_kept in \<open>auto intro: bsd_Close_fds openbsd_setup_kept\<close>)
  show ?thesis unfolding openbsd_CreateTUNFromFile_def
    by (intro os_rules n) (auto dest!: loggedD simp: from_file_def fds_kept_def)
qed

lemma darwin_Name_kept [os_rules]:
  assumes "\<And>e l'. fds_kept l l' \<Longrightarrow> Q (Some (Inl e)) l'" and "\<And>n l'. fds_kept l l' \<Longrightarrow> Q (Some (Inr n)) l'"
  shows "ensures l (darwin_Name env file) Q"
  unfolding darwin_Name_def by (intro os_rules; (rule assms)?) (auto dest!: loggedD simp: fds_kept_def)

lemma darwin_setup_kept:
  assumes "\<And>e l'. fds_kept l l' \<Longrightarrow> Q (Some e) l'" and "\<And>l'. fds_kept l l' \<Longrightarrow> Q None l'"
  shows "ensures l (darwin_setup env name mtu) Q"
  unfolding darwin_setup_def darwin_setMTU_def by (intro os_rules; rule assms) (auto simp: fds_kept_def)

lemma darwin_CreateTUNFromFile_fds:
  assumes "file < length l"
  shows "ensures l (darwin_CreateTUNFromFile env file mtu) (from_file file l)"
proof -
  have n: "ensures l1 (bsd_with_name env file name ''AF_ROUTE SOCK_RAW'' (darwin_setup env name mtu) (darwin_Close env)) (from_file file l)"
    if k: "fds_kept l l1" for l1 name
  proof (rule ensures_mono [OF bsd_with_name_fds])
    show "file < length l1" using k assms by (simp add: fds_kept_def)
  qed (use k from_file_kept in \<open>auto intro: bsd_Close_fds darwin_setup_kept simp: darwin_Close_def\<close>)
  show ?thesis unfolding darwin_CreateTUNFromFile_def
    by (intro os_rules n) (auto dest!: loggedD simp: from_file_def fds_kept_def)
qed

text \<open>The steps of the FreeBSD constructor keep the contract of what follows them.\<close>

definition keeps_file :: "fd \<Rightarrow> nat \<Rightarrow> (os_log, created) state \<Rightarrow> bool" where
  "keeps_file file n p \<longleftrightarrow> (\<forall>l. n \<le> length l \<longrightarrow> ensures l p (from_file file l))"

lemma keeps_fileD: "keeps_file file n p \<Longrightarrow> fds_kept l l1 \<Longrightarrow> n \<le> length l \<Longrightarrow> ensures l1 p (from_file file l)"
  by (rule ensures_mono [of l1 p "from_file file l1"]) (auto simp: keeps_file_def fds_kept_def intro: from_file_kept)

lemma freebsd_undo_fds [os_rules]:
  assumes "\<And>l'. length l \<le> length l' \<Longrightarrow> open_fds l' = open_fds l - {file} \<Longrightarrow> Q (Some (Inl e)) l'"
  shows "ensures l (freebsd_undo env file name e) Q"
  unfolding freebsd_undo_def by (intro os_rules; rule assms) (auto dest!: loggedD simp: fds_kept_def)

lemma freebsd_mode_fds: "keeps_file file n rest \<Longrightarrow> keeps_file file n (freebsd_mode env file assigned req arg msg rest)"
  unfolding keeps_file_def [of _ _ "freebsd_mode _ _ _ _ _ _ _"] unfolding freebsd_mode_def
  by (intro allI impI os_rules; (erule keeps_fileD)?) (auto dest!: loggedD simp: from_file_def fds_kept_def)

lemma freebsd_nd6_fds: "keeps_file file n rest \<Longrightarrow> keeps_file file n (freebsd_nd6 env file confd6 assigned rest)"
  unfolding keeps_file_def [of _ _ "freebsd_nd6 _ _ _ _ _"] unfolding freebsd_nd6_def Let_def
  by (intro allI impI os_rules; (erule keeps_fileD)?) (auto dest!: loggedD simp: from_file_def fds_kept_def)

text \<open>A socket that is opened in front of the rest and closed behind it.\<close>

lemma deferred_fds:
  assumes "from_file file l1 r l2" and "logged l (Socket k) True l1" and "file < length l"
  shows "ensures l2 (deferred_close env (length l) r) (from_file file l)"
  unfolding deferred_close_def
  by (intro os_rules) (use assms in \<open>auto dest!: loggedD simp: from_file_def split: option.splits sum.splits\<close>)

lemma with_socket_fds:
  assumes "ensures l2 p (from_file file l1)" and "logged l (Socket k) True l1" and "file < length l"
  shows "ensures l2 (State_Monad.bind p (deferred_close env (length l))) (from_file file l)"
  by (rule ensures_bind) (rule ensures_mono [OF assms(1)], rule deferred_fds [OF _ assms(2,3)])

lemma socket_fds:
  assumes body: "\<And>fd. keeps_file file n (body fd)" and "file < n"
  shows "keeps_file file n (do {
     r \<leftarrow> os_open env (Socket k);
     case r of
       Inl e \<Rightarrow> freebsd_undo env file assigned e
     | Inr fd \<Rightarrow> do { r \<leftarrow> body fd; deferred_close env fd r } })"
  unfolding keeps_file_def
proof (intro allI impI)
  fix l :: os_log assume l: "n \<le> length l"
  have b: "ensures l1 (do { r \<leftarrow> body (length l); deferred_close env (length l) r }) (from_file file l)" if "logged l (Socket k) True l1" for l1
    by (rule with_socket_fds [OF _ that]) (use loggedD [OF that] l body \<open>file < n\<close> in \<open>auto simp: keeps_file_def\<close>)
  show "ensures l (do {
     r \<leftarrow> os_open env (Socket k);
     case r of
       Inl e \<Rightarrow> freebsd_undo env file assigned e
     | Inr fd \<Rightarrow> do { r \<leftarrow> body fd; deferred_close env fd r } }) (from_file file l)"
    by (rule ensures_bind, rule ensures_open, rule ensures_Inr, erule b, rule ensures_Inl, rule freebsd_undo_fds)
      (drule logged_fdsD, simp add: from_file_def)
qed

lemma freebsd_rename_fds:
  assumes rest: "keeps_file file n rest" and "file < n"
  shows "keeps_file file n (freebsd_rename env file assigned name rest)"
proof -
  have r: "keeps_file file n (do {
      e \<leftarrow> os_do env (Ioctl confd ''SIOCSIFNAME'' (IfRename assigned name));
      case e of
        Some errno \<Rightarrow> freebsd_undo env file assigned (ErrWrap (''Failed to rename '' @ assigned @ '' to '' @ name) errno)
      | None \<Rightarrow> rest })" for confd
    unfolding keeps_file_def [of _ _ "State_Monad.bind _ _"]
    by (intro allI impI os_rules; (erule keeps_fileD [OF rest fds_kept_ioctl])?) (auto dest!: loggedD simp: from_file_def)
  show ?thesis
  proof (cases "name = []")
    case False
    show ?thesis unfolding freebsd_rename_def if_not_P [OF False] State_Monad.bind_assoc [symmetric]
      by (rule socket_fds) (rule r, fact)
  qed (simp add: freebsd_rename_def rest)
qed

lemma openbsd_open_free_fds [os_rules]:
  assumes "\<And>e l'. fds_kept l l' \<Longrightarrow> Q (Inl e) l'"
    and "\<And>fd l'. length l \<le> fd \<Longrightarrow> fd < length l' \<Longrightarrow> open_fds l' = insert fd (open_fds l) \<Longrightarrow> Q (Inr fd) l'"
  shows "ensures l (openbsd_open_free env k i err) Q"
  using assms
proof (induction k arbitrary: l i err)
  case (Suc k)
  have IH: "ensures l1 (openbsd_open_free env k j e) Q" if "logged l (OpenFile f) False l1" for l1 j e f
    by (rule Suc.IH; rule Suc.prems) (use loggedD [OF that] in \<open>auto simp: fds_kept_def\<close>)
  have kept: "fds_kept l l1" if "logged l (OpenFile f) False l1" for l1 f
    using loggedD [OF that] by (auto simp: fds_kept_def)
  show ?case unfolding openbsd_open_free.simps
    apply (intro os_rules)
      apply (rule Suc.prems(2); use loggedD in fastforce)
     apply (erule IH)
    apply (rule Suc.prems(1), erule kept)
    done
qed (simp add: ensures_def fds_kept_def)

lemma write_name_file_fds [os_rules]:
  assumes "\<And>l'. fds_kept l l' \<Longrightarrow> Q r l'"
  shows "ensures l (write_name_file env auto r) Q"
proof -
  have q: "ensures l (ret r) Q" using assms [of l] by (auto intro: ensures_return)
  have w: "ensures l (do { v \<leftarrow> os_text env (Getenv ''WG_TUN_NAME_FILE'');
      case v of Inl e \<Rightarrow> ret r | Inr fname \<Rightarrow> if fname = [] then ret r else do { os_ignore env (WriteFile fname (name @ [CHR 0x0A])); ret r } }) Q" for name
    by (intro os_rules; rule assms; drule loggedD; (drule loggedD)?; auto simp: fds_kept_def)
  show ?thesis using q w by (auto simp: write_name_file_def split: option.split sum.split)
qed

text \<open>What a constructor leaves: on an error no descriptor, and a device has two new ones.\<close>

definition created_fds :: "os_log \<Rightarrow> created \<Rightarrow> os_log \<Rightarrow> bool" where
  "created_fds l r l' \<longleftrightarrow> (case r of
     None \<Rightarrow> True
   | Some (Inl e) \<Rightarrow> open_fds l' = open_fds l
   | Some (Inr dev) \<Rightarrow> devFile dev \<noteq> routeSocket dev \<and> devFile dev \<notin> open_fds l \<and> routeSocket dev \<notin> open_fds l \<and>
       open_fds l' = open_fds l \<union> {devFile dev, routeSocket dev})"

lemma from_file_created:
  assumes "from_file file l1 r l2" and "length l \<le> file" and "file < length l1" and "open_fds l1 = insert file (open_fds l)" and "fds_kept l2 l'"
  shows "created_fds l r l'"
  using assms by (auto simp: from_file_def created_fds_def fds_kept_def split: option.split sum.split)

lemma created_failed: "open_fds l' = open_fds l \<Longrightarrow> created_fds l (Some (Inl e)) l'"
  and created_blocked: "created_fds l None l'"
  by (simp_all add: created_fds_def)

lemma openbsd_CreateTUN_fds: "ensures l (openbsd_CreateTUN env name mtu) (created_fds l)"
proof -
  have c: "ensures l1 (do { r \<leftarrow> openbsd_CreateTUNFromFile env fd mtu; write_name_file env auto r }) (created_fds l)"
    if "length l \<le> fd" "fd < length l1" "open_fds l1 = insert fd (open_fds l)" for fd l1 auto
    by (rule ensures_bind, rule ensures_mono [OF openbsd_CreateTUNFromFile_fds [OF that(2)]])
      (auto intro!: write_name_file_fds from_file_created [OF _ that])
  have o: "ensures l1 (case r of Inl e \<Rightarrow> ret (Some (Inl e))
      | Inr fd \<Rightarrow> do { r \<leftarrow> openbsd_CreateTUNFromFile env fd mtu; write_name_file env auto r }) (created_fds l)"
    if "case r of Inl e \<Rightarrow> open_fds l1 = open_fds l | Inr fd \<Rightarrow> length l \<le> fd \<and> fd < length l1 \<and> open_fds l1 = insert fd (open_fds l)" for r l1 auto
    using that by (cases r) (auto intro!: c ensures_return created_failed)
  have s: "ensures l (if auto then openbsd_open_free env 256 0 (SysErr 16) else os_open env (OpenFile f))
      (\<lambda>r l1. ensures l1 (case r of Inl e \<Rightarrow> ret (Some (Inl e))
        | Inr fd \<Rightarrow> do { r \<leftarrow> openbsd_CreateTUNFromFile env fd mtu; write_name_file env auto r }) (created_fds l))" for auto f
    by (rule ensures_if; rule openbsd_open_free_fds ensures_open; rule o) (auto dest: logged_fdsD simp: fds_kept_def)
  show ?thesis unfolding openbsd_CreateTUN_def Let_def
    by (rule ensures_if, simp add: ensures_return created_failed, rule ensures_bind, rule s)
qed

lemma darwin_CreateTUN_fds: "ensures l (darwin_CreateTUN env name mtu) (created_fds l)"
proof -
  have c: "ensures l1 (do { r \<leftarrow> darwin_CreateTUNFromFile env (length l) mtu; write_name_file env auto r }) (created_fds l)"
    if "length l < length l1" "open_fds l1 = insert (length l) (open_fds l)" for l1 auto
    by (rule ensures_bind, rule ensures_mono [OF darwin_CreateTUNFromFile_fds [OF that(1)]])
      (auto intro!: write_name_file_fds from_file_created [OF _ _ that])
  show ?thesis unfolding darwin_CreateTUN_def Let_def
    by (intro c os_rules; (rule created_failed)?) (((drule logged_fdsD)+)?, simp)+
qed

lemma created_file:
  assumes "ensures l1 p (from_file file l1)" and "length l \<le> file" and "file < length l1" and "open_fds l1 = insert file (open_fds l)"
  shows "ensures l1 p (created_fds l)"
  by (rule ensures_mono [OF assms(1)]) (auto intro: from_file_created [OF _ assms(2-4)])

lemma freebsd_CreateTUN_fds: "ensures l (freebsd_CreateTUN env name mtu) (created_fds l)"
proof -
  have k: "keeps_file f (Suc f) (freebsd_CreateTUNFromFile env f mtu)" for f
    by (auto simp: keeps_file_def intro: freebsd_CreateTUNFromFile_fds)
  have c: "ensures l1 (freebsd_mode env f assigned req arg msg p) (created_fds l)"
    if "keeps_file f (Suc f) p" "length l \<le> f" "f < length l1" "open_fds l1 = insert f (open_fds l)" for f l1 assigned req arg msg p
    by (rule created_file) (use freebsd_mode_fds [OF that(1)] that in \<open>auto simp: keeps_file_def Suc_le_eq\<close>)
  show ?thesis unfolding freebsd_CreateTUN_def Let_def tunName_def
    by (intro c freebsd_mode_fds socket_fds freebsd_nd6_fds freebsd_rename_fds k os_rules; (rule created_failed created_blocked)?)
      (((drule logged_fdsD)+)?, simp add: fds_kept_def)+
qed

section \<open>Numbers in names\<close>

lemma decimal_digits: "decimal n \<noteq> [] \<and> (\<forall>c\<in>set (decimal n). is_digit c) \<and> digits_value (decimal n) = n"
proof (induction n rule: decimal.induct)
  case (1 n)
  have d: "(of_char (char_of (48 + m) :: char) :: nat) = 48 + m" if "m < 10" for m :: nat
    using that by (simp add: of_char_of)
  show ?case
  proof (cases "n < 10")
    case True
    then show ?thesis using d [of n] by (simp add: decimal.simps [of n] is_digit_def digits_value_def)
  next
    case False
    then show ?thesis using d [of "n mod 10"] 1 by (simp add: decimal.simps [of n] is_digit_def digits_value_def)
  qed
qed

lemma digit_no_sign: "is_digit c \<Longrightarrow> c \<noteq> CHR '' '' \<and> c \<noteq> CHR ''-'' \<and> c \<noteq> CHR ''+''"
  by (auto simp: is_digit_def)

lemma digit_no_space: "is_digit c \<Longrightarrow> space_length (c # s) = 0"
  by (auto simp: is_digit_def space_length_def Let_def)

lemma skip_space_digit: "is_digit c \<Longrightarrow> skip_space (c # s) = c # s"
  by (simp add: skip_space.simps digit_no_space)

lemma sscanf_decimal:
  assumes "n < 2 ^ 63" and "rest = [] \<or> \<not> is_digit (hd rest)"
  shows "sscanf_index p (p @ decimal n @ rest) = Some (int n)"
proof -
  obtain c cs where c: "decimal n = c # cs" using decimal_digits by (cases "decimal n") auto
  then have "c \<noteq> CHR '' '' \<and> c \<noteq> CHR ''-'' \<and> c \<noteq> CHR ''+''" using decimal_digits [of n] digit_no_sign by auto
  moreover have "takeWhile is_digit (decimal n @ rest) = decimal n" using decimal_digits [of n] assms(2)
    by (cases rest) (auto simp: takeWhile_append)
  moreover have "digits_value (decimal n) = n" using decimal_digits by blast
  moreover have "int n < 2 ^ 63" using assms(1) by simp
  ultimately show ?thesis using c decimal_digits [of n] by (simp add: sscanf_index_def Let_def skip_space_digit)
qed

section \<open>The MTU\<close>

text \<open>The MTU last set for an interface; \<open>reports_mtu\<close>: the system answers with it.\<close>

fun mtu_step :: "string \<Rightarrow> u32 option \<Rightarrow> os_call \<times> bool \<Rightarrow> u32 option" where
  "mtu_step name m (Ioctl fd req (IfMTU nm w), ok) = (if ok \<and> req = ''SIOCSIFMTU'' \<and> nm = name then Some w else m)"
| "mtu_step name m c = m"

definition last_mtu :: "string \<Rightarrow> os_log \<Rightarrow> u32 option" where
  "last_mtu name l = foldl (mtu_step name) None l"

definition reports_mtu :: "os_env \<Rightarrow> bool" where
  "reports_mtu env \<longleftrightarrow> (\<forall>name l fd w. last_mtu name l = Some w \<longrightarrow> number env l (Ioctl fd ''SIOCGIFMTU'' (IfName name)) = uint w)"

lemma last_mtu_append [simp]: "last_mtu name (l @ l') = foldl (mtu_step name) (last_mtu name l) l'"
  by (simp add: last_mtu_def)

lemma reports_mtuD: "reports_mtu env \<Longrightarrow> last_mtu name l = Some w \<Longrightarrow> number env l (Ioctl fd ''SIOCGIFMTU'' (IfName name)) = uint w"
  by (simp add: reports_mtu_def)

text \<open>Setting and reading as a program, on each system; on Linux for a device whose name is known.\<close>

definition linux_set_get :: "os_env \<Rightarrow> linux_dev \<Rightarrow> int \<Rightarrow> (os_log, go_error option \<times> (go_error + int)) state" where
  "linux_set_get env dev n = do { (e, dev) \<leftarrow> setMTU env dev n; (r, _) \<leftarrow> MTU env dev; ret (e, r) }"

definition bsd_set_get :: "(os_env \<Rightarrow> string \<Rightarrow> int \<Rightarrow> (os_log, go_error option) state) \<Rightarrow> (os_env \<Rightarrow> string \<Rightarrow> (os_log, go_error + int) state)
    \<Rightarrow> os_env \<Rightarrow> string \<Rightarrow> int \<Rightarrow> (os_log, go_error option \<times> (go_error + int)) state" where
  "bsd_set_get setm getm env name n = do { e \<leftarrow> setm env name n; r \<leftarrow> getm env name; ret (e, r) }"

lemma bsd_mtu_value:
  assumes "reports_mtu env"
    and "p = bsd_set_get freebsd_setMTU freebsd_MTU env name n \<or> p = bsd_set_get openbsd_setMTU openbsd_MTU env name n"
    and "run_state p l = ((None, Inr v), l')"
  shows "v = sint (of_int n :: 32 word)"
  using assms(2,3) by (auto simp: bsd_set_get_def freebsd_setMTU_def freebsd_MTU_def openbsd_setMTU_def openbsd_MTU_def os_run
    reports_mtuD [OF assms(1)] split: option.splits sum.splits)

lemma Name_cached: "run_state (Name env dev) l = ((r, dev'), l') \<Longrightarrow> nameCache dev' = Some r"
  by (auto simp: Name_def split: option.splits prod.splits)

lemma linux_mtu_value:
  assumes "reports_mtu env" and "run_state (linux_set_get env dev n) l = ((None, Inr v), l')"
  shows "v = sint (of_int n :: 32 word)"
proof -
  obtain r dev1 l1 where n: "run_state (Name env dev) l = ((r, dev1), l1)" by (metis prod.exhaust)
  have c: "nameCache dev1 = Some r" by (rule Name_cached [OF n])
  have "Name env dev1 = ret (r, dev1)" by (simp add: Name_def c)
  with assms(2) n show ?thesis by (cases r) (auto simp: linux_set_get_def setMTU_def MTU_def os_run
    reports_mtuD [OF assms(1)] split: option.splits sum.splits)
qed

section \<open>The log only grows\<close>

definition extends :: "(os_log, 'a) state \<Rightarrow> bool" where
  "extends p \<longleftrightarrow> (\<forall>l. \<exists>t. snd (run_state p l) = l @ t)"

lemma extends_return: "extends (ret x)"
  by (simp add: extends_def)

lemma extends_bind: "extends m \<Longrightarrow> (\<And>r. extends (f r)) \<Longrightarrow> extends (State_Monad.bind m f)"
  unfolding extends_def by (simp split: prod.split) (metis append.assoc snd_conv)

lemma extends_call: "extends (os_do env c)" "extends (os_ignore env c)" "extends (os_open env c)" "extends (os_number env c)" "extends (os_text env c)"
  by (simp_all add: extends_def os_run)

lemma extends_split:
  "extends p \<Longrightarrow> extends q \<Longrightarrow> extends (if b then p else q)"
  "extends p \<Longrightarrow> (\<And>v. extends (h v)) \<Longrightarrow> extends (case u of None \<Rightarrow> p | Some v \<Rightarrow> h v)"
  "(\<And>e. extends (f e)) \<Longrightarrow> (\<And>v. extends (g v)) \<Longrightarrow> extends (case r of Inl e \<Rightarrow> f e | Inr v \<Rightarrow> g v)"
  by (simp_all split: option.split sum.split)

lemmas extends_rules = extends_return extends_bind extends_call extends_split

lemma openbsd_extends: "extends (openbsd_CreateTUNFromFile env file mtu)" "extends (write_name_file env auto r)"
  unfolding openbsd_CreateTUNFromFile_def openbsd_Name_def bsd_with_name_def openbsd_setup_def openbsd_MTU_def openbsd_setMTU_def
    openbsd_Close_def Let_def write_name_file_def
  by (intro extends_rules)+

lemma extendsD: "extends p \<Longrightarrow> run_state p l = (r, l') \<Longrightarrow> \<exists>t. l' = l @ t"
  by (metis extends_def snd_conv)

section \<open>The file that OpenBSD opens\<close>

abbreviation tun_path :: "nat \<Rightarrow> string" where
  "tun_path i \<equiv> ''/dev/tun'' @ decimal i"

lemma openbsd_open_free_run:
  "run_state (openbsd_open_free env k i err) l = (Inr fd, l') \<Longrightarrow>
    \<exists>j<k. fd = length l + j \<and> l' = l @ map (\<lambda>d. (OpenFile (tun_path d), False)) [i..<i + j] @ [(OpenFile (tun_path (i + j)), True)] \<and>
      (\<forall>d<j. \<exists>e. fails env (take (length l + d) l') (OpenFile (tun_path (i + d))) = Some e \<and> errors_is e (SysErr 16))"
proof (induction k arbitrary: i err l)
  case (Suc k)
  show ?case
  proof (cases "fails env l (OpenFile (tun_path i))")
    case None
    then show ?thesis using Suc.prems by (intro exI [of _ 0]) (simp add: os_run)
  next
    case (Some e)
    then have n: "run_state (openbsd_open_free env k (Suc i) e) (l @ [(OpenFile (tun_path i), False)]) = (Inr fd, l')" "errors_is e (SysErr 16)"
      using Suc.prems by (simp_all add: os_run is_busy_def split: if_splits)
    from Suc.IH [OF n(1)] obtain j where j: "j < k" "fd = length l + Suc j"
      "l' = l @ (OpenFile (tun_path i), False) # map (\<lambda>d. (OpenFile (tun_path d), False)) [Suc i..<Suc i + j] @ [(OpenFile (tun_path (Suc i + j)), True)]"
      "\<forall>d<j. \<exists>e. fails env (take (length l + Suc d) l') (OpenFile (tun_path (Suc i + d))) = Some e \<and> errors_is e (SysErr 16)"
      by auto
    have "\<exists>e. fails env (take (length l + d) l') (OpenFile (tun_path (i + d))) = Some e \<and> errors_is e (SysErr 16)" if "d < Suc j" for d
    proof (cases d)
      case 0
      then show ?thesis using Some n(2) j(3) by simp
    next
      case (Suc d')
      then show ?thesis using j(4) that by simp
    qed
    then show ?thesis using j(1-3) by (intro exI [of _ "Suc j"]) (simp add: upt_conv_Cons del: upt_Suc)
  qed
qed simp

text \<open>Opening, as \<open>CreateTUN\<close> does it.\<close>

definition openbsd_open :: "os_env \<Rightarrow> string \<Rightarrow> (os_log, go_error + fd) state" where
  "openbsd_open env name = (if name = ''tun'' then openbsd_open_free env 256 0 (SysErr 16)
     else os_open env (OpenFile (tun_path (nat (the (sscanf_index ''tun'' name))))))"

lemma write_name_result: "run_state (write_name_file env auto r) l = (r', l') \<Longrightarrow> r' = r"
  by (auto simp: write_name_file_def os_run split: option.splits sum.splits if_splits)

lemma openbsd_CreateTUN_opened:
  assumes "run_state (openbsd_CreateTUN env name mtu) l = (Some (Inr dev), l')"
  shows "\<exists>l1 t. run_state (openbsd_open env name) l = (Inr (devFile dev), l1) \<and> l' = l1 @ t \<and> devFile dev < length l1 \<and>
    (name = ''tun'' \<or> (\<exists>i. sscanf_index ''tun'' name = Some (int i)))"
proof -
  have valid: "\<not> (name \<noteq> ''tun'' \<and> (sscanf_index ''tun'' name = None \<or> the (sscanf_index ''tun'' name) < 0))"
    using assms by (auto simp: openbsd_CreateTUN_def Let_def split: if_splits)
  then have ix: "name = ''tun'' \<or> (\<exists>i. sscanf_index ''tun'' name = Some (int i))" by (metis not_less nat_0_le option.collapse)
  obtain r1 l1 where o: "run_state (openbsd_open env name) l = (r1, l1)" by (metis prod.exhaust)
  have run: "run_state (case r1 of Inl e \<Rightarrow> ret (Some (Inl e))
      | Inr f \<Rightarrow> do { r \<leftarrow> openbsd_CreateTUNFromFile env f mtu; write_name_file env (name = ''tun'') r }) l1 = (Some (Inr dev), l')"
    using assms o by (simp add: openbsd_CreateTUN_def Let_def valid if_not_P [OF valid] openbsd_open_def)
  then obtain f where f: "r1 = Inr f" by (cases r1) auto
  obtain r2 l2 where c: "run_state (openbsd_CreateTUNFromFile env f mtu) l1 = (r2, l2)" by (metis prod.exhaust)
  have w: "run_state (write_name_file env (name = ''tun'') r2) l2 = (Some (Inr dev), l')" using run f c by simp
  have lt: "f < length l1" using o f openbsd_open_free_run
    by (fastforce simp: openbsd_open_def os_run split: if_splits option.splits)
  have "devFile dev = f" using ensuresD [OF openbsd_CreateTUNFromFile_fds [OF lt] c] write_name_result [OF w, symmetric] by (simp add: from_file_def)
  moreover have "\<exists>t. l' = l1 @ t" using extendsD [OF openbsd_extends(1) c] extendsD [OF openbsd_extends(2) w] by auto
  ultimately show ?thesis using o f lt ix by blast
qed

section \<open>An example\<close>

definition bsd_env :: "(os_call \<Rightarrow> bool) \<Rightarrow> os_env" where
  "bsd_env bad = \<lparr>fails = \<lambda>_ c. if bad c then Some (SysErr 16) else None, number = \<lambda>_ _. 0, text_of = \<lambda>_ _. []\<rparr>"

definition no_interface :: "os_call \<Rightarrow> bool" where
  "no_interface c = (c = InterfaceByName ''tun7'')"

lemmas freebsd_run = freebsd_CreateTUN_def freebsd_mode_def freebsd_nd6_def freebsd_rename_def freebsd_CreateTUNFromFile_def freebsd_Name_def
  freebsd_named_def bsd_with_name_def freebsd_setMTU_def deferred_close_def operateOnFd_def tunName_def freebsd_Close_def tunDestroy_def Let_def os_run

lemma freebsd_example:
  "\<exists>dev l. run_state (freebsd_CreateTUN (bsd_env no_interface) ''tun7'' 1420) [] = (Some (Inr dev), l)"
  by (simp add: freebsd_run bsd_env_def no_interface_def)

lemma openbsd_example:
  "\<exists>dev l. run_state (openbsd_CreateTUN (bsd_env (\<lambda>_. False)) ''tun7'' 1420) [] = (Some (Inr dev), l)"
  by (simp add: openbsd_CreateTUN_def openbsd_CreateTUNFromFile_def openbsd_Name_def bsd_with_name_def openbsd_setup_def openbsd_MTU_def openbsd_setMTU_def
    sscanf_index_def skip_space_digit digits_value_def is_digit_def Let_def bsd_env_def os_run write_name_file_def)

lemma open_free_numeral: "openbsd_open_free env (numeral k) i err = do {
     r \<leftarrow> os_open env (OpenFile (tun_path i));
     case r of
       Inr fd \<Rightarrow> ret (Inr fd)
     | Inl e \<Rightarrow> if is_busy e then openbsd_open_free env (pred_numeral k) (Suc i) e else ret (Inl e)
   }"
  by (simp add: numeral_eq_Suc)

lemma openbsd_auto_example:
  "\<exists>dev l. run_state (openbsd_CreateTUN (bsd_env (\<lambda>c. c = OpenFile (tun_path 0))) ''tun'' 1420) [] = (Some (Inr dev), l) \<and> devFile dev = 1"
  by (simp add: openbsd_CreateTUN_def openbsd_CreateTUNFromFile_def openbsd_Name_def bsd_with_name_def openbsd_setup_def openbsd_MTU_def openbsd_setMTU_def
    open_free_numeral decimal.simps is_busy_def Let_def bsd_env_def os_run write_name_file_def)

definition mtu_env :: os_env where
  "mtu_env = \<lparr>fails = \<lambda>_ _. None, number = \<lambda>l c. (case c of Ioctl _ _ (IfName nm) \<Rightarrow> (case last_mtu nm l of Some w \<Rightarrow> uint w | None \<Rightarrow> 1500) | _ \<Rightarrow> 0),
     text_of = \<lambda>_ _. []\<rparr>"

lemma mtu_env_reports: "reports_mtu mtu_env"
  by (simp add: reports_mtu_def mtu_env_def)

section \<open>Properties\<close>

text \<open>C14. The descriptors of a BSD or macOS device, whatever the system answers: \<open>CreateTUN\<close> that fails leaves exactly the descriptors open that were open
  before; \<open>CreateTUN\<close> that succeeds has opened two new ones, the device file and the routing socket, which the first \<open>Close\<close> closes again.\<close>

theorem bsd_lifecycle_fds:
  assumes "(create, close) \<in> {(freebsd_CreateTUN, freebsd_Close), (openbsd_CreateTUN, openbsd_Close), (darwin_CreateTUN, darwin_Close)}"
    and "run_state (create env name mtu) l = (Some r, l1)"
  shows "case r of
      Inl e \<Rightarrow> open_fds l1 = open_fds l
    | Inr dev \<Rightarrow> devFile dev \<noteq> routeSocket dev \<and> {devFile dev, routeSocket dev} \<inter> open_fds l = {} \<and>
        open_fds l1 = open_fds l \<union> {devFile dev, routeSocket dev} \<and>
        open_fds (snd (run_state (close env dev) l1)) = open_fds l"
proof -
  have c: "created_fds l (Some r) l1"
    using assms ensuresD [OF freebsd_CreateTUN_fds] ensuresD [OF openbsd_CreateTUN_fds] ensuresD [OF darwin_CreateTUN_fds] by auto
  have "both_closed dev l1 (snd (run_state (close env dev) l1))" for dev
    using assms(1) bsd_Close_fds [where l = l1 and dev = dev and env = env and Q = "\<lambda>_. both_closed dev l1"] by (auto simp: ensures_def darwin_Close_def split: prod.splits)
  then show ?thesis using c by (auto simp: created_fds_def both_closed_def split: sum.splits)
qed

theorem bsd_lifecycle_fds_witness:
  "\<exists>dev l. run_state (freebsd_CreateTUN (bsd_env no_interface) ''tun7'' 1420) [] = (Some (Inr dev), l) \<and>
    open_fds l = {devFile dev, routeSocket dev} \<and> open_fds (snd (run_state (freebsd_Close (bsd_env no_interface) dev) l)) = {}"
proof -
  obtain dev l where r: "run_state (freebsd_CreateTUN (bsd_env no_interface) ''tun7'' 1420) [] = (Some (Inr dev), l)"
    using freebsd_example by blast
  show ?thesis using bsd_lifecycle_fds [where create = freebsd_CreateTUN and close = freebsd_Close, OF _ r] r by (auto simp: open_fds_def [of "[]"])
qed

text \<open>C15. The MTU that is set is the MTU that is read, as a signed 32-bit number, on every Unix system: for a system that answers with the last
  MTU set, and unchanged when it is in range.\<close>

theorem mtu_roundtrip:
  assumes "reports_mtu env"
    and "p \<in> {bsd_set_get freebsd_setMTU freebsd_MTU env name n, bsd_set_get openbsd_setMTU openbsd_MTU env name n,
          bsd_set_get darwin_setMTU darwin_MTU env name n, linux_set_get env dev n}"
    and "run_state p l = ((None, Inr v), l')"
  shows "v = sint (of_int n :: 32 word) \<and> (- (2 ^ 31) \<le> n \<and> n < 2 ^ 31 \<longrightarrow> v = n)"
proof -
  from assms(2) consider "p = bsd_set_get freebsd_setMTU freebsd_MTU env name n \<or> p = bsd_set_get openbsd_setMTU openbsd_MTU env name n"
    | "p = linux_set_get env dev n" by (auto simp: darwin_setMTU_def darwin_MTU_def)
  then have v: "v = sint (of_int n :: 32 word)"
    by cases (use bsd_mtu_value [OF assms(1) _ assms(3)] linux_mtu_value [OF assms(1)] assms(3) in blast)+
  moreover have "sint (of_int n :: 32 word) = n" if "- (2 ^ 31) \<le> n" "n < 2 ^ 31"
    using that by (simp add: sint_sbintrunc' signed_take_bit_int_eq_self)
  ultimately show ?thesis by blast
qed

theorem mtu_roundtrip_witness:
  "\<exists>l. run_state (bsd_set_get freebsd_setMTU freebsd_MTU mtu_env ''tun0'' 1420) [] = ((None, Inr 1420), l)"
proof -
  obtain v l where r: "run_state (bsd_set_get freebsd_setMTU freebsd_MTU mtu_env ''tun0'' 1420) [] = ((None, Inr v), l)"
    by (simp add: bsd_set_get_def freebsd_setMTU_def freebsd_MTU_def mtu_env_def os_run)
  show ?thesis using mtu_roundtrip [OF mtu_env_reports _ r, where name = "''tun0''" and n = 1420] r by simp
qed

text \<open>C16. The file of an OpenBSD device: for the name \<open>tun\<close> the free device with the least number below 256, where every device before it failed to open
  because it is busy; for a name with a number the device of that number.\<close>

theorem openbsd_CreateTUN_file:
  assumes "run_state (openbsd_CreateTUN env name mtu) l = (Some (Inr dev), l')"
  shows "\<exists>i. l' ! devFile dev = (OpenFile (tun_path i), True) \<and>
    (if name = ''tun'' then i < 256 \<and> devFile dev = length l + i \<and> (\<forall>j<i. l' ! (length l + j) = (OpenFile (tun_path j), False) \<and>
         (\<exists>e. fails env (take (length l + j) l') (OpenFile (tun_path j)) = Some e \<and> errors_is e (SysErr 16)))
     else devFile dev = length l \<and> sscanf_index ''tun'' name = Some (int i))"
proof -
  obtain l1 t where o: "run_state (openbsd_open env name) l = (Inr (devFile dev), l1)" and t: "l' = l1 @ t" and lt: "devFile dev < length l1"
    and ix: "name = ''tun'' \<or> (\<exists>i. sscanf_index ''tun'' name = Some (int i))"
    using openbsd_CreateTUN_opened [OF assms] by blast
  show ?thesis
  proof (cases "name = ''tun''")
    case True
    then obtain j where j: "j < 256" "devFile dev = length l + j"
        "l1 = l @ map (\<lambda>d. (OpenFile (tun_path d), False)) [0..<j] @ [(OpenFile (tun_path j), True)]"
        "\<forall>d<j. \<exists>e. fails env (take (length l + d) l1) (OpenFile (tun_path d)) = Some e \<and> errors_is e (SysErr 16)"
      using o openbsd_open_free_run [of env 256 0 "SysErr 16" l] by (auto simp: openbsd_open_def)
    then show ?thesis using True t by (intro exI [of _ j]) (simp add: nth_append)
  next
    case False
    then obtain i where i: "sscanf_index ''tun'' name = Some (int i)" using ix by blast
    then have "devFile dev = length l \<and> l1 = l @ [(OpenFile (tun_path i), True)]" using o False
      by (simp add: openbsd_open_def os_run split: option.splits)
    then show ?thesis using False i t by (intro exI [of _ i]) simp
  qed
qed

theorem openbsd_CreateTUN_file_witness:
  "\<exists>dev l. run_state (openbsd_CreateTUN (bsd_env (\<lambda>c. c = OpenFile (tun_path 0))) ''tun'' 1420) [] = (Some (Inr dev), l) \<and>
    l ! 0 = (OpenFile (tun_path 0), False) \<and> l ! 1 = (OpenFile (tun_path 1), True)"
proof -
  obtain dev l where r: "run_state (openbsd_CreateTUN (bsd_env (\<lambda>c. c = OpenFile (tun_path 0))) ''tun'' 1420) [] = (Some (Inr dev), l)" "devFile dev = 1"
    using openbsd_auto_example by blast
  from openbsd_CreateTUN_file [OF r(1)] r show ?thesis by auto
qed

text \<open>The name that OpenBSD reports for a device file, given to \<open>CreateTUN\<close>, stands for the minor number of that file again: printing and scanning are
  inverse.\<close>

theorem openbsd_name_roundtrip:
  assumes "run_state (openbsd_Name env file) l = (Inr name, l')"
  shows "name \<noteq> ''tun'' \<and> sscanf_index ''tun'' name = Some (number env l (Stat file) mod 256)"
proof -
  let ?n = "nat (number env l (Stat file) mod 256)"
  have "name = ''tun'' @ decimal ?n" using assms by (auto simp: openbsd_Name_def os_run split: option.splits)
  then show ?thesis using sscanf_decimal [of ?n "[]" "''tun''"] decimal_digits [of ?n] by simp
qed

theorem openbsd_name_roundtrip_witness:
  "\<exists>name l. run_state (openbsd_Name (bsd_env (\<lambda>_. False)) 0) [] = (Inr name, l) \<and> sscanf_index ''tun'' name = Some 0"
proof -
  obtain name l where r: "run_state (openbsd_Name (bsd_env (\<lambda>_. False)) 0) [] = (Inr name, l)" by (simp add: openbsd_Name_def os_run bsd_env_def)
  show ?thesis using openbsd_name_roundtrip [OF r] r by (auto simp: bsd_env_def)
qed

section \<open>Departures\<close>

text \<open>\<open>CreateTUN\<close> on FreeBSD that fails in \<open>CreateTUNFromFile\<close> does not destroy the interface that it has created, and without its error channel it blocks for
  ever when the descriptor cannot be used.\<close>

lemma freebsd_CreateTUN_keeps_interface:
  "\<exists>e l. run_state (freebsd_CreateTUN (bsd_env (\<lambda>c. no_interface c \<or> (case c of Ioctl _ req _ \<Rightarrow> req = ''TUNSIFPID'' | _ \<Rightarrow> False))) ''tun7'' 1420) [] = (Some (Inl e), l) \<and>
    (\<forall>(c, ok)\<in>set l. case c of Ioctl _ req _ \<Rightarrow> req \<noteq> ''SIOCIFDESTROY'' | _ \<Rightarrow> True)"
  by (simp add: freebsd_run bsd_env_def no_interface_def)

lemma freebsd_CreateTUN_blocks:
  "\<exists>l. run_state (freebsd_CreateTUN (bsd_env (\<lambda>c. no_interface c \<or> (case c of Control _ \<Rightarrow> True | _ \<Rightarrow> False))) ''tun7'' 1420) [] = (None, l) \<and> open_fds l = {1}"
  by (simp add: freebsd_run bsd_env_def no_interface_def open_fds_def)

text \<open>A name with something behind the number is taken, and on macOS a large number stands for any device or for another.\<close>

lemma sscanf_ignores_rest: "sscanf_index ''tun'' ''tun5x'' = Some 5"
  by (simp add: sscanf_index_def skip_space_digit digits_value_def is_digit_def Let_def)

lemma darwin_unit_wraps:
  "\<exists>l. run_state (darwin_CreateTUN (bsd_env (\<lambda>c. case c of Connect _ _ \<Rightarrow> True | _ \<Rightarrow> False)) ''utun4294967295'' 1420) [] = (Some (Inl (SysErr 16)), l) \<and>
    (Connect 0 0, False) \<in> set l"
  by (simp add: darwin_CreateTUN_def sscanf_index_def skip_space_digit digits_value_def is_digit_def Let_def bsd_env_def os_run)

end
