(* ===== verification/Gro_Payload.thy ===== *)
theory Gro_Payload
  imports Gro_Frames
begin

text \<open>
  Nothing is lost, repeated or reordered by generic receive offload (\<^verbatim>\<open>offload_linux.go\<close>): the packets of a batch
  fall into groups, one for each frame written; the payload of the frame is the payloads of its group one after
  the other, and cutting it into pieces of the segment size gives the packets back.
\<close>

section \<open>Groups of packets\<close>

text \<open>The packet \<open>c\<close> with \<open>m\<close> others merged into it is made of the packets \<open>g\<close> of the batch \<open>bs\<close>: a header of \<open>H\<close> bytes that
  is the header of the first but for the byte at \<open>fl\<close>, then all payloads. All but the last have \<open>gso\<close> bytes of payload. With nothing merged the
  packet is untouched in its own buffer \<open>w\<close>.\<close>

definition group_ok :: "(nat \<Rightarrow> byte list) \<Rightarrow> nat \<Rightarrow> nat \<Rightarrow> nat \<Rightarrow> nat \<Rightarrow> nat \<Rightarrow> byte list \<Rightarrow> nat list \<Rightarrow> bool" where
  "group_ok bs H fl gso m w c g \<longleftrightarrow> length g = Suc m \<and> (\<forall>p\<in>set g. H < length (bs p)) \<and> H \<le> length c \<and>
     drop H c = concat (map (\<lambda>p. drop H (bs p)) g) \<and> (\<forall>j<H. j \<noteq> fl \<longrightarrow> c ! j = bs (hd g) ! j) \<and>
     (\<forall>p\<in>set (butlast g). length (bs p) = H + gso) \<and> length (bs (last g)) \<le> H + gso \<and>
     (m = 0 \<longrightarrow> g = [w] \<and> c = bs w)"

lemma group_okD:
  assumes "group_ok bs H fl gso m w c g"
  shows "g \<noteq> []" "length g = Suc m" "\<forall>p\<in>set g. H < length (bs p)" "H \<le> length c" "drop H c = concat (map (\<lambda>p. drop H (bs p)) g)"
    "\<And>j. j < H \<Longrightarrow> j \<noteq> fl \<Longrightarrow> c ! j = bs (hd g) ! j" "\<forall>p\<in>set (butlast g). length (bs p) = H + gso" "length (bs (last g)) \<le> H + gso"
    "H < length (bs (last g))" "g = butlast g @ [last g]"
proof -
  show "g \<noteq> []" using assms by (auto simp: group_ok_def)
  then show "H < length (bs (last g))" "g = butlast g @ [last g]" using assms by (auto simp: group_ok_def)
qed (use assms in \<open>auto simp: group_ok_def\<close>)

lemma group_single: "H < length (bs w) \<Longrightarrow> length (bs w) \<le> H + gso \<Longrightarrow> group_ok bs H fl gso 0 w (bs w) [w]"
  by (simp add: group_ok_def)

lemma concat_same_length: "\<forall>p\<in>set g. length (f p) = n \<Longrightarrow> length (concat (map f g)) = length g * n"
  by (induction g) auto

lemma group_total:
  assumes "group_ok bs H fl gso m w c g"
  shows "length c - H = m * gso + (length (bs (last g)) - H)"
proof -
  note g = group_okD [OF assms]
  have "length c - H = length (concat (map (\<lambda>p. drop H (bs p)) g))" by (metis g(5) length_drop)
  also have "\<dots> = length (concat (map (\<lambda>p. drop H (bs p)) (butlast g))) + (length (bs (last g)) - H)"
    by (subst g(10)) simp
  also have "length (concat (map (\<lambda>p. drop H (bs p)) (butlast g))) = m * gso"
    using g(7) by (subst concat_same_length [of _ _ gso]) (auto simp: g(2))
  finally show ?thesis .
qed

lemma group_full:
  assumes g: "group_ok bs H fl gso m w c g" and m: "(length c - H) mod gso = 0"
  shows "length (bs (last g)) = H + gso" "length c - H = Suc m * gso"
proof -
  note d = group_okD [OF g]
  have "(length (bs (last g)) - H) mod gso = 0" using m group_total [OF g] by simp
  then show last: "length (bs (last g)) = H + gso" using d(8,9) by (cases "length (bs (last g)) - H < gso") auto
  then show "length c - H = Suc m * gso" using group_total [OF g] by simp
qed

lemma group_append:
  assumes g: "group_ok bs H fl gso m w c g" and m: "(length c - H) mod gso = 0" and i: "H < length (bs i)" "length (bs i) \<le> H + gso"
    and c1: "length c1 = length c" "drop H c1 = drop H c" "\<And>j. j < H \<Longrightarrow> j \<noteq> fl \<Longrightarrow> c1 ! j = c ! j"
  shows "group_ok bs H fl gso (Suc m) w (c1 @ drop H (bs i)) (g @ [i])"
proof -
  note d = group_okD [OF g]
  have last: "length (bs (last g)) = H + gso" by (rule group_full [OF g m])
  have all: "\<forall>p\<in>set g. length (bs p) = H + gso" by (subst d(10)) (use d(7) last in auto)
  show ?thesis unfolding group_ok_def
  proof (intro conjI)
    show "\<forall>j<H. j \<noteq> fl \<longrightarrow> (c1 @ drop H (bs i)) ! j = bs (hd (g @ [i])) ! j"
      using c1(1,3) d(1,4,6) by (auto simp: nth_append)
    show "drop H (c1 @ drop H (bs i)) = concat (map (\<lambda>p. drop H (bs p)) (g @ [i]))"
      using c1(1,2) d(4,5) by simp
  qed (use all d(2,3,4) i c1(1) in auto)
qed

lemma group_prepend:
  assumes g: "group_ok bs H fl gso m w c g" and i: "H + gso \<le> length (bs i)" "H < length (bs i)" "H + gso < length (bs i) \<Longrightarrow> m = 0"
  shows "group_ok bs H fl (length (bs i) - H) (Suc m) w (bs i @ drop H c) (i # g)"
proof -
  note d = group_okD [OF g]
  have all: "\<forall>p\<in>set (butlast g). length (bs p) = length (bs i)"
  proof (cases "H + gso < length (bs i)")
    case True
    then have "g = [w]" using g i(3) by (simp add: group_ok_def)
    then show ?thesis by simp
  next
    case False
    then show ?thesis using d(7) i(1) by simp
  qed
  show ?thesis unfolding group_ok_def
  proof (intro conjI)
    show "\<forall>p\<in>set (butlast (i # g)). length (bs p) = H + (length (bs i) - H)" using all d(1) i(2) by auto
    show "drop H (bs i @ drop H c) = concat (map (\<lambda>p. drop H (bs p)) (i # g))" using i(2) d(5) by simp
  qed (use d i in \<open>auto simp: nth_append\<close>)
qed

section \<open>Groups of a TCP flow\<close>

definition tcp_key :: "bool \<Rightarrow> byte list \<Rightarrow> tcpFlowKey" where
  "tcp_key v6 b = \<lparr>srcAddr = src_addr v6 b @ replicate (16 - nat (addr_len v6)) 0, dstAddr = dst_addr v6 b @ replicate (16 - nat (addr_len v6)) 0,
     srcPort = of_nat (field16 b (ip_len v6)), dstPort = of_nat (field16 b (ip_len v6 + 2)), isV6 = v6,
     rxAck = of_nat (be_nat (take 4 (drop (ip_len v6 + 8) b)))\<rparr>"

definition udp_key :: "bool \<Rightarrow> byte list \<Rightarrow> udpFlowKey" where
  "udp_key v6 b = \<lparr>srcAddr = src_addr v6 b @ replicate (16 - nat (addr_len v6)) 0, dstAddr = dst_addr v6 b @ replicate (16 - nat (addr_len v6)) 0,
     srcPort = of_nat (field16 b (ip_len v6)), dstPort = of_nat (field16 b (ip_len v6 + 2)), isV6 = v6\<rparr>"

lemma own_addrs:
  assumes "wf_slice pkt" "ip_len v6 \<le> slen pkt"
    "sub pkt (src_addr_offset v6) (src_addr_offset v6 + addr_len v6) = Some a"
    "sub pkt (src_addr_offset v6 + addr_len v6) (src_addr_offset v6 + addr_len v6 + addr_len v6) = Some b"
  shows "addr16 a = src_addr v6 (vis pkt) @ replicate (16 - nat (addr_len v6)) 0"
    "addr16 b = dst_addr v6 (vis pkt) @ replicate (16 - nat (addr_len v6)) 0"
  using assms by (auto simp: sub_def addr16_def vis_def src_addr_def dst_addr_def src_addr_offset_def addr_len_def tun_consts ip_len_def
    wf_slice_def drop_take min_def split: if_splits)

lemma tcp_own_key:
  assumes "tcp_own pkt v6 k T" "wf_slice pkt" "ip_len v6 + 20 \<le> slen pkt"
  shows "k = tcp_key v6 (vis pkt)"
proof -
  have n: "newTCPFlowKey pkt (src_addr_offset v6) (src_addr_offset v6 + addr_len v6) (int (ip_len v6)) = Some k" using assms(1) by (simp add: tcp_own_def)
  have g: "get16 pkt (int (ip_len v6)) = Some (of_nat (field16 (vis pkt) (ip_len v6)))"
    "get16 pkt (int (ip_len v6) + 2) = Some (of_nat (field16 (vis pkt) (ip_len v6 + 2)))"
    "get32 pkt (int (ip_len v6) + 8) = Some (of_nat (be_nat (take 4 (drop (ip_len v6 + 8) (vis pkt)))))"
    using get16_ok [of "ip_len v6" pkt] get16_ok [of "ip_len v6 + 2" pkt] get32_ok [of "ip_len v6 + 8" pkt] assms(2,3) by (simp_all add: field16_def add.commute)
  show ?thesis
    using n own_addrs [OF assms(2), of v6] assms(3) unfolding newTCPFlowKey_def Let_def g
    by (auto simp: tcp_key_def addr_len_def split: bind_splits)
qed

lemma udp_own_key:
  assumes "udp_own pkt v6 k" "wf_slice pkt" "ip_len v6 + 8 \<le> slen pkt"
  shows "k = udp_key v6 (vis pkt)"
proof -
  have n: "newUDPFlowKey pkt (src_addr_offset v6) (src_addr_offset v6 + addr_len v6) (int (ip_len v6)) = Some k" using assms(1) by (simp add: udp_own_def)
  have g: "get16 pkt (int (ip_len v6)) = Some (of_nat (field16 (vis pkt) (ip_len v6)))"
    "get16 pkt (int (ip_len v6) + 2) = Some (of_nat (field16 (vis pkt) (ip_len v6 + 2)))"
    using get16_ok [of "ip_len v6" pkt] get16_ok [of "ip_len v6 + 2" pkt] assms(2,3) by (simp_all add: field16_def add.commute)
  show ?thesis
    using n own_addrs [OF assms(2), of v6] assms(3) unfolding newUDPFlowKey_def Let_def g
    by (auto simp: udp_key_def addr_len_def split: bind_splits)
qed

text \<open>Sequence number, header length and the PSH flag of a packet whose IP header has \<open>h\<close> bytes.\<close>

definition tcp_seq :: "nat \<Rightarrow> byte list \<Rightarrow> u32" where
  "tcp_seq h b = of_nat (field32 b (h + 4))"

definition tcp_hlen :: "nat \<Rightarrow> byte list \<Rightarrow> nat" where
  "tcp_hlen h b = unat (drop_bit 4 (b ! (h + 12)) * 4)"

definition tcp_psh :: "nat \<Rightarrow> byte list \<Rightarrow> bool" where
  "tcp_psh h b \<longleftrightarrow> b ! (h + 13) \<noteq> tcpFlagACK"

text \<open>The kind of a packet: the IP version, for IPv4 a header without options, and the transport protocol.\<close>

definition of_kind :: "byte \<Rightarrow> bool \<Rightarrow> byte list \<Rightarrow> bool" where
  "of_kind proto v6 b \<longleftrightarrow> drop_bit 4 (b ! 0) = (if v6 then 6 else 4) \<and> (\<not> v6 \<longrightarrow> b ! 0 AND 0x0F = 5) \<and>
     b ! (if v6 then 6 else 9) = proto"

text \<open>The packets of a group are of one flow and follow each other without a gap; only the last may ask to be pushed.\<close>

definition tcp_group :: "(nat \<Rightarrow> byte list) \<Rightarrow> tcpGROItem \<Rightarrow> byte list \<Rightarrow> nat list \<Rightarrow> bool" where
  "tcp_group bs x c g \<longleftrightarrow> (let h = ip_len (isV6 (key x)); H = h + unat (tcphLen x) in
     group_ok bs H (h + 13) (unat (itemGsoSize x)) (unat (numMerged x)) (unat (bufsIndex x)) c g \<and>
     (\<forall>p\<in>set g. tcp_key (isV6 (key x)) (bs p) = key x \<and> tcp_hlen h (bs p) = unat (tcphLen x) \<and> of_kind IPPROTO_TCP (isV6 (key x)) (bs p)) \<and>
     sentSeq x = tcp_seq h (bs (hd g)) \<and>
     successively (\<lambda>p q. tcp_seq h (bs q) = tcp_seq h (bs p) + of_nat (length (bs p) - H)) g \<and>
     (\<forall>p\<in>set (butlast g). \<not> tcp_psh h (bs p)) \<and> pshSet x = tcp_psh h (bs (last g)))"

lemma tcp_flags_psh: "tcp_flags_ok f \<Longrightarrow> f AND tcpFlagPSH \<noteq> 0 \<longleftrightarrow> f \<noteq> tcpFlagACK"
  by (auto simp: tcp_flags_ok_def tun_consts)

lemma tcp_group_new:
  assumes own: "tcp_own pkt v6 k T" and wf: "wf_slice pkt" and len: "20 \<le> T" "T \<le> 60" "ip_len v6 + T < slen pkt" "slen pkt \<le> 65535"
    and k: "isV6 k = v6" and i: "i < 65536" "bs i = vis pkt" and ver: "of_kind IPPROTO_TCP v6 (vis pkt)"
  shows "tcp_group bs (new_tcp_item k pkt (ip_len v6) T i) (bs i) [i]"
proof -
  have u: "unat (of_nat T :: byte) = T" "unat (of_nat i :: u16) = i" "unat (of_nat (slen pkt - (ip_len v6 + T)) :: u16) = slen pkt - (ip_len v6 + T)"
    using len i(1) by (simp_all add: unat_of_nat take_bit_nat_eq_self del: of_nat_diff)
  have kk: "tcp_key v6 (bs i) = k" using tcp_own_key [OF own wf] len i(2) by simp
  have fl: "tcp_hlen (ip_len v6) (bs i) = T" "(vis pkt ! (ip_len v6 + 13) AND tcpFlagPSH \<noteq> 0) = tcp_psh (ip_len v6) (bs i)"
    using own i(2) tcp_flags_psh [of "vis pkt ! (ip_len v6 + 13)"] by (auto simp: tcp_own_def tcp_hlen_def tcp_psh_def)
  have "group_ok bs (ip_len v6 + T) (ip_len v6 + 13) (slen pkt - (ip_len v6 + T)) 0 i (bs i) [i]"
    by (rule group_single) (use len wf i(2) in simp_all)
  then show ?thesis using kk fl i(2) ver
    by (simp add: tcp_group_def Let_def new_tcp_item_def k u tcp_seq_def field32_def del: of_nat_diff)
qed

text \<open>What a positive answer of the checks means.\<close>

lemma tcpCan_cases:
  assumes "tcpPacketsCanCoalesce pkt iphL tcphL seq psh gsoS item bufs off = Some mode" and "mode \<noteq> CoalesceUnavailable"
  shows "if mode = CoalescePrepend
    then seq + ucast gsoS = sentSeq item \<and> \<not> psh \<and> itemGsoSize item \<le> gsoS \<and> (itemGsoSize item < gsoS \<longrightarrow> numMerged item = 0)
    else seq = sentSeq item + ucast (itemGsoSize item + numMerged item * itemGsoSize item) \<and> \<not> pshSet item \<and> gsoS \<le> itemGsoSize item \<and>
      (\<exists>buf t pl. elem bufs (uint (bufsIndex item)) = Some buf \<and> sub_from buf off = Some t \<and> sub_from t (uint (iphL + tcphL)) = Some pl \<and>
        int (slen pl) mod uint (itemGsoSize item) = 0)"
  using assms unfolding tcpPacketsCanCoalesce_def Let_def
  by (elim run_elims) (auto simp: go_mod_def not_less word_greater_zero_iff split: if_splits elim!: run_elims)

text \<open>What \<open>tcp_group\<close> says, with the header lengths named.\<close>

lemma tcp_groupD:
  assumes "tcp_group bs x c g" and "h = ip_len (isV6 (key x))" and "H = h + unat (tcphLen x)"
  shows "group_ok bs H (h + 13) (unat (itemGsoSize x)) (unat (numMerged x)) (unat (bufsIndex x)) c g"
    "\<forall>p\<in>set g. tcp_key (isV6 (key x)) (bs p) = key x \<and> tcp_hlen h (bs p) = unat (tcphLen x) \<and> of_kind IPPROTO_TCP (isV6 (key x)) (bs p)"
    "sentSeq x = tcp_seq h (bs (hd g))"
    "successively (\<lambda>p q. tcp_seq h (bs q) = tcp_seq h (bs p) + of_nat (length (bs p) - H)) g"
    "\<forall>p\<in>set (butlast g). \<not> tcp_psh h (bs p)" "pshSet x = tcp_psh h (bs (last g))"
  using assms(1) unfolding tcp_group_def Let_def assms(2,3) by auto

lemma seq_last:
  fixes sq :: "nat \<Rightarrow> u32"
  assumes "successively (\<lambda>p q. sq q = sq p + of_nat (n p)) g" "g \<noteq> []" "\<forall>p\<in>set (butlast g). n p = k"
  shows "sq (last g) = sq (hd g) + of_nat ((length g - 1) * k)"
  using assms
proof (induction g)
  case (Cons a g)
  show ?case
  proof (cases g)
    case (Cons b g')
    then show ?thesis using Cons.IH Cons.prems by (simp add: algebra_simps)
  qed simp
qed simp

lemma tcp_group_append:
  assumes G: "tcp_group bs x c g" and hH: "h = ip_len (isV6 (key x))" "H = h + unat (tcphLen x)"
    and m: "(length c - H) mod unat (itemGsoSize x) = 0" and i: "H < length (bs i)" "length (bs i) \<le> H + unat (itemGsoSize x)"
    and c1: "length c1 = length c" "drop H c1 = drop H c" "\<And>j. j < H \<Longrightarrow> j \<noteq> h + 13 \<Longrightarrow> c1 ! j = c ! j"
    and own: "tcp_key (isV6 (key x)) (bs i) = key x" "tcp_hlen h (bs i) = unat (tcphLen x)" "of_kind IPPROTO_TCP (isV6 (key x)) (bs i)"
    and seq: "tcp_seq h (bs i) = sentSeq x + of_nat (length c - H)" and psh: "\<not> pshSet x" and n: "Suc (unat (numMerged x)) < 65536"
    and x': "key x' = key x" "tcphLen x' = tcphLen x" "itemGsoSize x' = itemGsoSize x" "numMerged x' = numMerged x + 1" "sentSeq x' = sentSeq x"
      "pshSet x' = tcp_psh h (bs i)" "bufsIndex x' = bufsIndex x"
  shows "tcp_group bs x' (c1 @ drop H (bs i)) (g @ [i])"
proof -
  note g = tcp_groupD [OF G hH]
  note d = group_okD [OF g(1)]
  have num: "unat (numMerged x + 1) = Suc (unat (numMerged x))" using n by (simp add: unat_word_ariths)
  have "tcp_seq h (bs (last g)) = tcp_seq h (bs (hd g)) + of_nat ((length g - 1) * unat (itemGsoSize x))"
    by (rule seq_last [OF g(4) d(1)]) (use d(7) in simp)
  moreover have "length c - H = (length g - 1) * unat (itemGsoSize x) + (length (bs (last g)) - H)"
    using group_total [OF g(1)] d(2) by simp
  ultimately have sl: "tcp_seq h (bs i) = tcp_seq h (bs (last g)) + of_nat (length (bs (last g)) - H)"
    unfolding seq g(3) by (simp add: add.assoc del: of_nat_diff)
  have psh_all: "\<forall>p\<in>set g. \<not> tcp_psh h (bs p)" by (subst d(10)) (use g(5,6) psh in auto)
  show ?thesis unfolding tcp_group_def Let_def x' num hH [symmetric]
    using group_append [OF g(1) m i c1] g(2-4) d(1) own sl psh_all by (simp add: successively_append_iff)
qed

lemma tcp_group_prepend:
  assumes G: "tcp_group bs x c g" and hH: "h = ip_len (isV6 (key x))" "H = h + unat (tcphLen x)"
    and i: "H + unat (itemGsoSize x) \<le> length (bs i)" "H < length (bs i)" "H + unat (itemGsoSize x) < length (bs i) \<Longrightarrow> numMerged x = 0"
    and own: "tcp_key (isV6 (key x)) (bs i) = key x" "tcp_hlen h (bs i) = unat (tcphLen x)" "of_kind IPPROTO_TCP (isV6 (key x)) (bs i)"
    and seq: "tcp_seq h (bs i) + of_nat (length (bs i) - H) = sentSeq x" and psh: "\<not> tcp_psh h (bs i)" and n: "Suc (unat (numMerged x)) < 65536"
    and x': "key x' = key x" "tcphLen x' = tcphLen x" "unat (itemGsoSize x') = length (bs i) - H" "numMerged x' = numMerged x + 1" "sentSeq x' = tcp_seq h (bs i)"
      "pshSet x' = pshSet x" "bufsIndex x' = bufsIndex x"
  shows "tcp_group bs x' (bs i @ drop H c) (i # g)"
proof -
  note g = tcp_groupD [OF G hH]
  note d = group_okD [OF g(1)]
  have num: "unat (numMerged x + 1) = Suc (unat (numMerged x))" using n by (simp add: unat_word_ariths)
  have m: "H + unat (itemGsoSize x) < length (bs i) \<Longrightarrow> unat (numMerged x) = 0" using i(3) by simp
  show ?thesis unfolding tcp_group_def Let_def x' num hH [symmetric]
    using group_prepend [OF g(1) i(1,2) m] g(2-6) d(1) own seq psh by (simp add: successively_Cons)
qed

section \<open>Merging a packet into an item\<close>

text \<open>The packets of a batch, and the capacity that keeps a coalesced packet within 16 bits.\<close>

definition packets :: "nat \<Rightarrow> gslice list \<Rightarrow> nat \<Rightarrow> byte list" where
  "packets off bufs p = drop off (vis (bufs ! p))"

definition caps_ok :: "nat \<Rightarrow> gslice list \<Rightarrow> bool" where
  "caps_ok off bufs \<longleftrightarrow> (\<forall>b\<in>set bufs. wf_slice b \<and> scap b \<le> off + 65535)"

lemma caps_okD: "caps_ok off bufs \<Longrightarrow> j < length bufs \<Longrightarrow> wf_slice (bufs ! j) \<and> scap (bufs ! j) \<le> off + 65535"
  by (simp add: caps_ok_def)

lemma caps_ok_update: "caps_ok off bufs \<Longrightarrow> wf_slice b \<Longrightarrow> scap b \<le> off + 65535 \<Longrightarrow> caps_ok off (bufs[j := b])"
  by (auto simp: caps_ok_def dest!: set_update_subset_insert [THEN subsetD])

lemma packets_le: "caps_ok off bufs \<Longrightarrow> j < length bufs \<Longrightarrow> length (packets off bufs j) \<le> 65535"
  using caps_okD [of off bufs j] by (auto simp: packets_def wf_slice_def scap_def)

lemma packets_grow:
  assumes "slen b + length ys \<le> scap b" "off \<le> slen b" "wf_slice b"
  shows "drop off (vis (grow b ys)) = drop off (vis b) @ ys"
  using assms by simp

lemma nth_splice1: "at < length xs \<Longrightarrow> j \<noteq> at \<Longrightarrow> splice xs at [v] ! j = xs ! j"
  by (cases "j < at"; cases "j < length xs") (auto simp: splice_def nth_append min_def nth_Cons')

lemma tcp_merge_group:
  assumes caps: "caps_ok off bufs" and i: "i < length bufs" "sub_from (bufs ! i) (int off) = Some pkt" "bs i = vis pkt"
    and x: "tcp_kept off i bufs x" "v6 = isV6 (key x)" "unat (iphLen x) = ip_len v6" and H: "H = unat (iphLen x) + unat (tcphLen x)" "H < slen pkt"
    and own: "tcp_own pkt v6 (key x) (unat (tcphLen x))" and n: "Suc (unat (numMerged x)) < 65536"
    and can: "tcpPacketsCanCoalesce pkt (iphLen x) (tcphLen x) (tcp_seq (ip_len v6) (vis pkt)) (tcp_psh (ip_len v6) (vis pkt))
        (of_nat (slen pkt - H)) x bufs (int off) = Some mode" "mode \<noteq> CoalesceUnavailable"
    and co: "coalesceTCPPackets en mode pkt (int i) (of_nat (slen pkt - H)) (tcp_seq (ip_len v6) (vis pkt)) (tcp_psh (ip_len v6) (vis pkt))
        x bufs (int off) v6 = Some (CoalesceSuccess, x', bufs')"
    and G: "tcp_group bs x (packets off bufs (unat (bufsIndex x))) g" and ver: "of_kind IPPROTO_TCP v6 (vis pkt)"
  shows "caps_ok off bufs' \<and> (\<forall>j. j \<noteq> i \<longrightarrow> j \<noteq> unat (bufsIndex x) \<longrightarrow> bufs' ! j = bufs ! j) \<and>
    (\<exists>g'. tcp_group bs x' (packets off bufs' (unat (bufsIndex x))) g' \<and> mset g' = add_mset i (mset g))"
proof -
  define w where "w = unat (bufsIndex x)"
  have it: "tcp_item_ok off bufs x" and wi: "w < i" "i \<noteq> unat (bufsIndex x)" using x(1) by (auto simp: tcp_kept_def w_def)
  have wf: "\<forall>b\<in>set bufs. wf_slice b" using caps by (simp add: caps_ok_def)
  have w: "w < length bufs" "wf_slice (bufs ! w)" "wf_slice (bufs ! i)" "off + H \<le> slen (bufs ! w)" "20 \<le> unat (tcphLen x)"
    using it wf i(1) H(1) wi(1) by (auto simp: tcp_item_ok_def w_def)
  note out = coalesceTCPPackets_returns [OF it wf i(1) wi(2) i(2) x(2) H(1) less_imp_le [OF H(2)], of en mode "of_nat (slen pkt - H)"
    "tcp_seq (ip_len v6) (vis pkt)" "tcp_psh (ip_len v6) (vis pkt)", unfolded co returns_def option.case prod.case Let_def w_def [symmetric]]
  have wp: "wf_slice pkt" using wf_sub_from [OF i(2)] wf i(1) by simp
  have pk: "slen pkt = slen (bufs ! i) - off" "off \<le> slen (bufs ! i)" "vis pkt = drop off (vis (bufs ! i))"
    using sub_from_eq [OF i(2)] vis_sub_from [OF i(2)] by auto
  have lp: "slen pkt \<le> 65535" using packets_le [OF caps i(1)] pk wp by (simp add: packets_def w(3))
  have gs: "unat (of_nat (slen pkt - H) :: u16) = slen pkt - H" using lp by (simp add: unat_of_nat take_bit_nat_eq_self del: of_nat_diff)
  have key: "tcp_key (isV6 (key x)) (bs i) = key x" "tcp_hlen (ip_len v6) (bs i) = unat (tcphLen x)" "of_kind IPPROTO_TCP (isV6 (key x)) (bs i)"
    using tcp_own_key [OF own wp] own H x(2,3) i(3) w(5) ver by (simp_all add: tcp_own_def tcp_hlen_def)
  have hH: "ip_len v6 = ip_len (isV6 (key x))" "H = ip_len v6 + unat (tcphLen x)" using x(2,3) H(1) by simp_all
  have gseq: "ucast (of_nat (slen pkt - H) :: u16) = (of_nat (slen pkt - H) :: u32)" by (metis gs of_nat_unat)
  have lb: "length (bs i) = slen pkt" using i(3) wp by simp
  note cc = tcpCan_cases [OF can]
  show ?thesis
  proof (cases "mode = CoalescePrepend")
    case True
    have c: "tcp_seq (ip_len v6) (vis pkt) + of_nat (slen pkt - H) = sentSeq x" "\<not> tcp_psh (ip_len v6) (vis pkt)"
        "unat (itemGsoSize x) \<le> slen pkt - H" "unat (itemGsoSize x) < slen pkt - H \<longrightarrow> numMerged x = 0"
      using cc True by (simp_all add: gseq word_le_nat_alt word_less_nat_alt gs del: of_nat_diff)
    have o: "x' = merged_item (of_nat (slen pkt - H)) (x\<lparr>sentSeq := tcp_seq (ip_len v6) (vis pkt)\<rparr>)"
        "slen (bufs ! i) + length (drop (off + H) (vis (bufs ! w))) \<le> scap (bufs ! i)"
        "bufs' = bufs[w := grow (bufs ! i) (drop (off + H) (vis (bufs ! w))), i := bufs ! w]"
      using out True w by simp_all
    have at: "packets off bufs' w = bs i @ drop H (packets off bufs w)"
      using o(2,3) wi(1) w pk i(3) by (simp add: packets_def add.commute)
    have "tcp_group bs x' (bs i @ drop H (packets off bufs w)) (i # g)"
      by (rule tcp_group_prepend [OF G [folded w_def] hH]) (use c o(1) key n lb H(2) gs i(3) in \<open>auto simp: max_def word_le_nat_alt simp del: of_nat_diff\<close>)
    moreover have "caps_ok off bufs'" unfolding o(3)
      by (intro caps_ok_update caps) (use o(2) caps_okD [OF caps] w i(1) in auto)
    ultimately show ?thesis using at o(3) by (auto simp: w_def [symmetric])
  next
    case False
    define psh where "psh = tcp_psh (ip_len v6) (vis pkt)"
    define b where "b = (if psh then set_psh (off + unat (iphLen x) + 13) (bufs ! w) else bufs ! w)"
    define c where "c = packets off bufs w"
    have G': "tcp_group bs x c g" using G by (simp add: c_def w_def)
    have lc: "length c = slen (bufs ! w) - off" using w(2) by (simp add: c_def packets_def)
    obtain t pl where t: "sub_from (bufs ! w) (int off) = Some t" "sub_from t (uint (iphLen x + tcphLen x)) = Some pl"
        "int (slen pl) mod uint (itemGsoSize x) = 0"
      and c1: "tcp_seq (ip_len v6) (vis pkt) = sentSeq x + ucast (itemGsoSize x + numMerged x * itemGsoSize x)" "\<not> pshSet x"
        "of_nat (slen pkt - H) \<le> itemGsoSize x"
      using cc False w(1) by (auto simp: elem_def w_def split: if_splits)
    have u: "uint (iphLen x + tcphLen x) = int H" using it H(1) x(2,3) by (subst uint8_add) (auto simp: tcp_item_ok_def)
    have "slen pl = length c - H" using sub_from_eq [OF t(1)] sub_from_eq [OF t(2)] lc by (simp add: u)
    then have "int ((length c - H) mod unat (itemGsoSize x)) = 0" using t(3) by (simp add: zmod_int uint_nat del: of_nat_unat)
    then have m: "(length c - H) mod unat (itemGsoSize x) = 0" by simp
    have total: "length c - H = Suc (unat (numMerged x)) * unat (itemGsoSize x)"
      by (rule group_full(2) [OF tcp_groupD(1) [OF G' hH] m])
    have "length c \<le> 65535" using packets_le [OF caps w(1)] by (simp add: c_def)
    then have "unat (itemGsoSize x + numMerged x * itemGsoSize x) = length c - H"
      unfolding total using total by (simp add: unat_word_ariths mod_simps)
    then have seq: "tcp_seq (ip_len v6) (bs i) = sentSeq x + of_nat (length c - H)"
      using c1(1) i(3) by (metis of_nat_unat)
    have le: "slen pkt - H \<le> unat (itemGsoSize x)" using c1(3) by (simp add: word_le_nat_alt gs del: of_nat_diff)
    have at13: "off + unat (iphLen x) + 13 < slen (bufs ! w)" using w(4,5) H(1) by linarith
    have bb: "wf_slice b" "slen b = slen (bufs ! w)" "scap b = scap (bufs ! w)" using w(2) at13 by (simp_all add: b_def)
    have o: "x' = merged_item (of_nat (slen pkt - H)) (if psh then x\<lparr>pshSet := True\<rparr> else x)" "slen b + (slen pkt - H) \<le> scap b"
        "bufs' = bufs[w := grow b (drop H (vis pkt))]"
      using out False bb(2,3) by (simp_all add: psh_def b_def)
    have at: "packets off bufs' w = drop off (vis b) @ drop H (bs i)"
      using o(2,3) bb w wp i(3) by (simp add: packets_def)
    have vb: "length (drop off (vis b)) = length c" "drop H (drop off (vis b)) = drop H c" using w at13 bb lc H(1) x(3)
      by (simp_all add: b_def c_def packets_def)
    have vn: "drop off (vis b) ! j = c ! j" if "j < H" "j \<noteq> ip_len v6 + 13" for j
      using w at13 that x(3) by (simp add: b_def c_def packets_def nth_splice1)
    have "tcp_group bs x' (drop off (vis b) @ drop H (bs i)) (g @ [i])"
      by (rule tcp_group_append [OF G' hH m])
       (use vb vn le o(1) key n lb H(2) seq i(3) c1(2) in \<open>auto simp: max_def word_le_nat_alt gs psh_def simp del: of_nat_diff\<close>)
    moreover have "caps_ok off bufs'" unfolding o(3)
      by (intro caps_ok_update caps) (use o(2) caps_okD [OF caps w(1)] bb wp in auto)
    ultimately show ?thesis using at o(3) by (auto simp: w_def [symmetric])
  qed
qed

subsection \<open>UDP\<close>

text \<open>The packets of a group are of one flow, in the order of the batch.\<close>

definition udp_group :: "(nat \<Rightarrow> byte list) \<Rightarrow> udpGROItem \<Rightarrow> byte list \<Rightarrow> nat list \<Rightarrow> bool" where
  "udp_group bs x c g \<longleftrightarrow> (let H = ip_len (isV6 (key x)) + 8 in
     group_ok bs H H (unat (itemGsoSize x)) (unat (numMerged x)) (unat (bufsIndex x)) c g \<and>
     (\<forall>p\<in>set g. udp_key (isV6 (key x)) (bs p) = key x \<and> of_kind IPPROTO_UDP (isV6 (key x)) (bs p)) \<and> sorted_wrt (<) g)"

lemma udp_group_new:
  assumes own: "udp_own pkt v6 k" and wf: "wf_slice pkt" and len: "ip_len v6 + 8 < slen pkt" "slen pkt \<le> 65535"
    and k: "isV6 k = v6" and i: "i < 65536" "bs i = vis pkt" and ver: "of_kind IPPROTO_UDP v6 (vis pkt)"
  shows "udp_group bs (new_udp_item k pkt (ip_len v6) i bad) (bs i) [i]"
proof -
  have u: "unat (of_nat i :: u16) = i" "unat (of_nat (slen pkt - (ip_len v6 + 8)) :: u16) = slen pkt - (ip_len v6 + 8)"
    using len i(1) by (simp_all add: unat_of_nat take_bit_nat_eq_self del: of_nat_diff)
  have kk: "udp_key v6 (bs i) = k" using udp_own_key [OF own wf] len i(2) by simp
  have "group_ok bs (ip_len v6 + 8) (ip_len v6 + 8) (slen pkt - (ip_len v6 + 8)) 0 i (bs i) [i]"
    by (rule group_single) (use len wf i(2) in simp_all)
  then show ?thesis using kk i(2) ver by (simp add: udp_group_def Let_def new_udp_item_def k u del: of_nat_diff)
qed

lemma udpCan_cases:
  assumes "udpPacketsCanCoalesce pkt iphL gsoS item bufs off = Some CoalesceAppend"
  shows "gsoS \<le> itemGsoSize item \<and> (\<exists>buf t pl. elem bufs (uint (bufsIndex item)) = Some buf \<and> sub_from buf off = Some t \<and>
    sub_from t (uint (iphL + of_int udphLen)) = Some pl \<and> int (slen pl) mod uint (itemGsoSize item) = 0)"
  using assms unfolding udpPacketsCanCoalesce_def
  by (elim run_elims) (auto simp: go_mod_def not_less split: if_splits elim!: run_elims)

lemma udp_merge_group:
  assumes caps: "caps_ok off bufs" and i: "i < length bufs" "sub_from (bufs ! i) (int off) = Some pkt" "bs i = vis pkt"
    and x: "udp_kept off i bufs x" "v6 = isV6 (key x)" "unat (iphLen x) = ip_len v6" and H: "H = unat (iphLen x) + 8" "H < slen pkt"
    and own: "udp_own pkt v6 (key x)" and n: "Suc (unat (numMerged x)) < 65536" and lt: "\<forall>p\<in>set g. p < i"
    and can: "udpPacketsCanCoalesce pkt (iphLen x) (of_nat (slen pkt - H)) x bufs (int off) = Some CoalesceAppend"
    and co: "coalesceUDPPackets en pkt x bufs (int off) v6 = Some (CoalesceSuccess, x', bufs')"
    and G: "udp_group bs x (packets off bufs (unat (bufsIndex x))) g" and ver: "of_kind IPPROTO_UDP v6 (vis pkt)"
  shows "caps_ok off bufs' \<and> (\<forall>j. j \<noteq> i \<longrightarrow> j \<noteq> unat (bufsIndex x) \<longrightarrow> bufs' ! j = bufs ! j) \<and>
    (\<exists>g'. udp_group bs x' (packets off bufs' (unat (bufsIndex x))) g' \<and> mset g' = add_mset i (mset g))"
proof -
  define w where "w = unat (bufsIndex x)"
  define c where "c = packets off bufs w"
  have it: "udp_item_ok off bufs x" and wi: "w < i" using x(1) by (auto simp: udp_kept_def w_def)
  have wf: "\<forall>b\<in>set bufs. wf_slice b" using caps by (simp add: caps_ok_def)
  have w: "w < length bufs" "wf_slice (bufs ! w)" "off + H \<le> slen (bufs ! w)"
    using it wf H(1) by (auto simp: udp_item_ok_def w_def)
  have wp: "wf_slice pkt" using wf_sub_from [OF i(2)] wf i(1) by simp
  have o: "x' = x\<lparr>numMerged := numMerged x + 1\<rparr>" "slen (bufs ! w) + (slen pkt - H) \<le> scap (bufs ! w)"
      "bufs' = bufs[w := grow (bufs ! w) (drop H (vis pkt))]"
    using coalesceUDPPackets_returns [OF it wf wp x(2) H(1) less_imp_le [OF H(2)], of en, unfolded co returns_def option.case prod.case]
    by (simp_all add: w_def)
  have pk: "slen pkt = slen (bufs ! i) - off" "vis pkt = drop off (vis (bufs ! i))"
    using sub_from_eq [OF i(2)] vis_sub_from [OF i(2)] by auto
  have lp: "slen pkt \<le> 65535" using packets_le [OF caps i(1)] pk wp by (simp add: packets_def wf i(1))
  have gs: "unat (of_nat (slen pkt - H) :: u16) = slen pkt - H" using lp by (simp add: unat_of_nat take_bit_nat_eq_self del: of_nat_diff)
  have key: "udp_key (isV6 (key x)) (bs i) = key x" "of_kind IPPROTO_UDP (isV6 (key x)) (bs i)" using udp_own_key [OF own wp] H x(2,3) i(3) ver by simp_all
  have hH: "H = ip_len (isV6 (key x)) + 8" using x(2,3) H(1) by simp
  have g: "group_ok bs H H (unat (itemGsoSize x)) (unat (numMerged x)) (unat (bufsIndex x)) c g"
      "\<forall>p\<in>set g. udp_key (isV6 (key x)) (bs p) = key x \<and> of_kind IPPROTO_UDP (isV6 (key x)) (bs p)" "sorted_wrt (<) g"
    using G by (simp_all add: udp_group_def Let_def c_def w_def hH)
  have lc: "length c = slen (bufs ! w) - off" using w(2) by (simp add: c_def packets_def)
  have lb: "length (bs i) = slen pkt" using i(3) wp by simp
  obtain t pl where t: "sub_from (bufs ! w) (int off) = Some t" "sub_from t (uint (iphLen x + of_int udphLen)) = Some pl"
      "int (slen pl) mod uint (itemGsoSize x) = 0" and le: "of_nat (slen pkt - H) \<le> itemGsoSize x"
    using udpCan_cases [OF can] w(1) by (auto simp: elem_def w_def split: if_splits)
  have u: "uint (iphLen x + of_int udphLen) = int H" using it H(1) by (subst uint8_add) (auto simp: udp_item_ok_def udphLen_def split: if_splits)
  have "slen pl = length c - H" using sub_from_eq [OF t(1)] sub_from_eq [OF t(2)] lc by (simp add: u)
  then have "int ((length c - H) mod unat (itemGsoSize x)) = 0" using t(3) by (simp add: zmod_int uint_nat del: of_nat_unat)
  then have m: "(length c - H) mod unat (itemGsoSize x) = 0" by simp
  have at: "packets off bufs' w = c @ drop H (bs i)" using o(2,3) w wp i(3) by (simp add: packets_def c_def)
  have num: "unat (numMerged x + 1) = Suc (unat (numMerged x))" using n by (simp add: unat_word_ariths)
  have "group_ok bs H H (unat (itemGsoSize x)) (Suc (unat (numMerged x))) (unat (bufsIndex x)) (c @ drop H (bs i)) (g @ [i])"
    by (rule group_append [OF g(1) m]) (use H(2) lb le gs in \<open>auto simp: word_le_nat_alt simp del: of_nat_diff\<close>)
  then have "udp_group bs x' (c @ drop H (bs i)) (g @ [i])"
    using g(2,3) key lt by (simp add: udp_group_def Let_def o(1) num hH sorted_wrt_append)
  moreover have "caps_ok off bufs'" unfolding o(3)
    by (intro caps_ok_update caps) (use o(2) caps_okD [OF caps w(1)] wp in auto)
  ultimately show ?thesis using at o(3) by (auto simp: w_def [symmetric])
qed

section \<open>The groups of a batch\<close>

text \<open>What stands in buffer \<open>w\<close>, which will be written: the group of its item, or an untouched packet.\<close>

definition written :: "(nat \<Rightarrow> byte list) \<Rightarrow> tcpGROItem set \<Rightarrow> udpGROItem set \<Rightarrow> nat \<Rightarrow> byte list \<Rightarrow> nat list \<Rightarrow> bool" where
  "written bs T U w c g \<longleftrightarrow>
     (\<forall>x\<in>T. unat (bufsIndex x) = w \<longrightarrow> tcp_group bs x c g) \<and> (\<forall>x\<in>U. unat (bufsIndex x) = w \<longrightarrow> udp_group bs x c g) \<and>
     ((\<forall>x\<in>T. unat (bufsIndex x) \<noteq> w) \<longrightarrow> (\<forall>x\<in>U. unat (bufsIndex x) \<noteq> w) \<longrightarrow> g = [w] \<and> c = bs w)"

text \<open>The groups of the frames \<open>ns\<close> are a partition of the first \<open>i\<close> packets.\<close>

definition partition_of :: "nat \<Rightarrow> (nat \<Rightarrow> nat list) \<Rightarrow> nat list \<Rightarrow> bool" where
  "partition_of i grp ns \<longleftrightarrow> mset (concat (map grp ns)) = mset [0..<i]"

definition gro_groups :: "nat \<Rightarrow> gslice list \<Rightarrow> nat \<Rightarrow> gro_state \<Rightarrow> (nat \<Rightarrow> nat list) \<Rightarrow> bool" where
  "gro_groups off bufs0 i st grp \<longleftrightarrow> caps_ok off (gBufs st) \<and>
     partition_of i grp (map nat (gToWrite st)) \<and>
     (\<forall>w\<in>set (map nat (gToWrite st)). written (packets off bufs0) (set (tbl_items (gTcp st))) (set (tbl_items (gUdp st))) w (packets off (gBufs st) w) (grp w))"

lemma written_dropped:
  assumes "written bs (set_mset M) U w c g" and "M = M1 + R" and "\<forall>x\<in>#R. numMerged x = 0"
  shows "written bs (set_mset M1) U w c g"
proof -
  have single: "g = [w] \<and> c = bs w" if "x \<in># R" "unat (bufsIndex x) = w" for x
  proof -
    have x: "x \<in># M" "unat (numMerged x) = 0" using that(1) assms(2,3) by auto
    then have "tcp_group bs x c g" using assms(1) that(2) by (simp add: written_def)
    then show ?thesis using x(2) that(2) by (auto simp: tcp_group_def Let_def group_ok_def)
  qed
  have sub: "set_mset M = set_mset M1 \<union> set_mset R" using assms(2) by simp
  show ?thesis unfolding written_def
  proof (intro conjI ballI impI)
    show "g = [w]" "c = bs w" if "\<forall>x\<in>#M1. unat (bufsIndex x) \<noteq> w" "\<forall>x\<in>U. unat (bufsIndex x) \<noteq> w"
      using single that assms(1) unfolding written_def sub by blast+
  qed (use assms(1) in \<open>unfold written_def sub, blast+\<close>)
qed

lemma written_other:
  assumes "written bs T U w c g"
    and "\<And>x. unat (bufsIndex x) = w \<Longrightarrow> x \<in> T' \<longleftrightarrow> x \<in> T" and "\<And>x. unat (bufsIndex x) = w \<Longrightarrow> x \<in> U' \<longleftrightarrow> x \<in> U"
  shows "written bs T' U' w c g"
  using assms by (auto simp: written_def)

lemma partition_new:
  assumes "partition_of i grp ns" and "\<forall>n\<in>set ns. n < i"
  shows "partition_of (Suc i) (grp(i := [i])) (ns @ [i])"
proof -
  have "map (grp(i := [i])) ns = map grp ns" using assms(2) by (intro map_cong) auto
  then have "mset (concat (map (grp(i := [i])) (ns @ [i]))) = mset (concat (map grp ns)) + {#i#}" by (simp only: map_append concat_append mset_append) simp
  then show ?thesis using assms(1) unfolding partition_of_def by simp
qed

lemma partition_merge:
  assumes "partition_of i grp ns" "distinct ns" "w \<in> set ns" "mset g' = add_mset i (mset (grp w))"
  shows "partition_of (Suc i) (grp(w := g')) ns"
proof -
  have "mset (concat (map (grp(w := g')) ns)) = add_mset i (mset (concat (map grp ns)))"
    using assms(2,3)
  proof (induction ns)
    case (Cons n ns)
    have c: "mset (concat (map f (n # ns))) = mset (f n) + mset (concat (map f ns))" for f :: "nat \<Rightarrow> nat list" by simp
    show ?case
    proof (cases "n = w")
      case True
      then have "map (grp(w := g')) ns = map grp ns" using Cons.prems by (intro map_cong) auto
      then show ?thesis unfolding c using True assms(4) by (simp only: fun_upd_same) simp
    next
      case False
      then have "mset (concat (map (grp(w := g')) ns)) = add_mset i (mset (concat (map grp ns)))" using Cons.IH Cons.prems by (simp del: fun_upd_apply)
      then show ?thesis unfolding c using False by (simp only: fun_upd_other) simp
    qed
  qed simp
  then show ?thesis using assms(1) unfolding partition_of_def by simp
qed

lemma partition_le:
  assumes "partition_of i grp ns" "w \<in> set ns"
  shows "length (grp w) \<le> i" "\<forall>p\<in>set (grp w). p < i"
proof -
  have s: "mset (grp w) \<subseteq># mset [0..<i]" using assms(2) unfolding assms(1) [unfolded partition_of_def, symmetric]
    by (auto dest!: split_list)
  show "length (grp w) \<le> i" using size_mset_mono [OF s] by simp
  show "\<forall>p\<in>set (grp w). p < i" using set_mset_mono [OF s] by auto
qed

lemma gro_inv_written:
  assumes "gro_inv off bufs0 i st"
  shows "distinct (map nat (gToWrite st))" "\<forall>w\<in>set (map nat (gToWrite st)). w < i"
    "distinct (map bufsIndex (tbl_items (gTcp st)) @ map bufsIndex (tbl_items (gUdp st)))"
    "\<forall>x\<in>set (tbl_items (gTcp st)). unat (bufsIndex x) \<in> set (map nat (gToWrite st))"
    "\<forall>x\<in>set (tbl_items (gUdp st)). unat (bufsIndex x) \<in> set (map nat (gToWrite st))"
proof -
  have tw: "distinct (gToWrite st)" "set (gToWrite st) \<subseteq> int ` {..<i}" using assms by (auto simp: gro_inv_def strict_sorted_iff)
  have "\<forall>x\<in>set (gToWrite st). 0 \<le> x" using tw(2) by auto
  then have "inj_on nat (set (gToWrite st))" by (intro inj_onI) (metis nat_0_le)
  then show "distinct (map nat (gToWrite st))" using tw(1) by (simp add: distinct_map)
  show "\<forall>w\<in>set (map nat (gToWrite st)). w < i" using tw(2) by fastforce
  have "mset (map uint (map bufsIndex (tbl_items (gTcp st)) @ map bufsIndex (tbl_items (gUdp st)))) \<subseteq># mset (gToWrite st)"
    using assms by (simp add: gro_inv_def owned_def multiset.map_comp comp_def)
  from distinct_subset_mset [OF this tw(1)] set_mset_mono [OF this]
  have d: "distinct (map uint (map bufsIndex (tbl_items (gTcp st)) @ map bufsIndex (tbl_items (gUdp st))))"
    and S: "uint ` bufsIndex ` set (tbl_items (gTcp st)) \<subseteq> set (gToWrite st)" "uint ` bufsIndex ` set (tbl_items (gUdp st)) \<subseteq> set (gToWrite st)"
    by (simp_all add: image_image)
  show "distinct (map bufsIndex (tbl_items (gTcp st)) @ map bufsIndex (tbl_items (gUdp st)))"
    using d by (simp only: distinct_map)
  have u: "unat v \<in> set (map nat (gToWrite st))" if "uint v \<in> set (gToWrite st)" for v :: u16
    using imageI [OF that, of nat] by simp
  show "\<forall>x\<in>set (tbl_items (gTcp st)). unat (bufsIndex x) \<in> set (map nat (gToWrite st))"
    and "\<forall>x\<in>set (tbl_items (gUdp st)). unat (bufsIndex x) \<in> set (map nat (gToWrite st))"
    using S u by blast+
qed

text \<open>The packet gets a frame of its own, or goes into the frame of buffer \<open>w\<close>.\<close>

lemma groups_new_frame:
  assumes inv: "gro_inv off bufs0 i st" and gr: "gro_groups off bufs0 i st grp"
    and st': "gBufs st' = gBufs st" "gToWrite st' = gToWrite st @ [int i]"
    and old: "\<And>w. w \<in> set (map nat (gToWrite st)) \<Longrightarrow> w < i \<Longrightarrow>
        written (packets off bufs0) (set (tbl_items (gTcp st))) (set (tbl_items (gUdp st))) w (packets off (gBufs st) w) (grp w) \<Longrightarrow>
        written (packets off bufs0) (set (tbl_items (gTcp st'))) (set (tbl_items (gUdp st'))) w (packets off (gBufs st) w) (grp w)"
    and new: "written (packets off bufs0) (set (tbl_items (gTcp st'))) (set (tbl_items (gUdp st'))) i (packets off (gBufs st) i) [i]"
  shows "gro_groups off bufs0 (Suc i) st' (grp(i := [i]))"
proof -
  note w = gro_inv_written [OF inv]
  show ?thesis
    using gr old new w(2) partition_new [OF _ w(2)] unfolding gro_groups_def st' by (auto simp: ball_Un)
qed

lemma groups_merged:
  assumes inv: "gro_inv off bufs0 i st" and gr: "gro_groups off bufs0 i st grp"
    and st': "gToWrite st' = gToWrite st" "caps_ok off (gBufs st')" "\<And>j. j \<noteq> i \<Longrightarrow> j \<noteq> w \<Longrightarrow> gBufs st' ! j = gBufs st ! j"
    and g': "w \<in> set (map nat (gToWrite st))" "mset g' = add_mset i (mset (grp w))"
    and other: "\<And>v. v \<noteq> w \<Longrightarrow>
        written (packets off bufs0) (set (tbl_items (gTcp st))) (set (tbl_items (gUdp st))) v (packets off (gBufs st) v) (grp v) \<Longrightarrow>
        written (packets off bufs0) (set (tbl_items (gTcp st'))) (set (tbl_items (gUdp st'))) v (packets off (gBufs st) v) (grp v)"
    and new: "written (packets off bufs0) (set (tbl_items (gTcp st'))) (set (tbl_items (gUdp st'))) w (packets off (gBufs st') w) g'"
  shows "gro_groups off bufs0 (Suc i) st' (grp(w := g'))"
proof -
  note w = gro_inv_written [OF inv]
  have "packets off (gBufs st') v = packets off (gBufs st) v" if "v \<in> set (map nat (gToWrite st))" "v \<noteq> w" for v
    using st'(3) [of v] that w(2) by (auto simp: packets_def)
  then show ?thesis
    using gr other new partition_merge [where grp = grp and w = w, OF _ w(1) g'] st'(1,2) unfolding gro_groups_def by auto
qed

subsection \<open>One packet\<close>

lemma dropped_written:
  assumes "tcp_dropped off i bufs m t t1" and "written bs (set (tbl_items t)) U w c g"
  shows "written bs (set (tbl_items t1)) U w c g"
proof -
  obtain R where R: "mset (tbl_items t) = mset (tbl_items t1) + R" "\<forall>x\<in>#R. numMerged x = 0" using assms(1) by (auto simp: tcp_dropped_def)
  show ?thesis using written_dropped [OF _ R, of bs U w c g] assms(2) by simp
qed

lemma distinct_other:
  assumes "distinct (map f xs)" "mset xs = mset ys + R" "x \<in> set ys" "y \<in># mset ys - {#x#}"
  shows "f y \<noteq> f x"
proof
  assume e: "f y = f x"
  have "mset ys = add_mset x (mset ys - {#x#})" using assms(3) by simp
  then obtain M where M: "mset xs = add_mset x (add_mset y M)" using assms(2,4) by (metis insert_DiffM union_mset_add_mset_left)
  have "count (mset (map f xs)) (f x) \<le> 1" using assms(1) by (simp add: distinct_count_atmost_1)
  then show False using M e by simp
qed

text \<open>The packet under evaluation is still the caller's.\<close>

lemma gro_inv_packet:
  assumes "gro_inv off bufs0 i st" "i < length bufs0" "sub_from (gBufs st ! i) (int off) = Some pkt"
  shows "packets off bufs0 i = vis pkt" "packets off (gBufs st) i = vis pkt"
  using assms vis_sub_from [OF assms(3)] by (auto simp: gro_inv_def packets_def)

lemma gro_inv_kept:
  assumes "gro_inv off bufs0 i st"
  shows "x \<in> set (tbl_items (gTcp st)) \<Longrightarrow> unat (bufsIndex x) < i" "y \<in> set (tbl_items (gUdp st)) \<Longrightarrow> unat (bufsIndex y) < i"
  using gro_inv_written(2,4,5) [OF assms] by auto

lemma eval_tcp_groups:
  assumes inv: "gro_inv off bufs0 i st" and gr: "gro_groups off bufs0 i st grp" and i: "i < length bufs0" "i < 128"
    and pkt: "sub_from (gBufs st ! i) (int off) = Some pkt"
    and out: "tcp_outcome en pkt i off v6 i (gBufs st) (gTcp st) (r, bufs', t')"
    and st': "st' = st\<lparr>gBufs := bufs', gTcp := t', gToWrite := (if r = GroCoalesced then gToWrite st else gToWrite st @ [int i])\<rparr>" and ver: "of_kind IPPROTO_TCP v6 (vis pkt)"
  shows "\<exists>grp'. gro_groups off bufs0 (Suc i) st' grp'"
proof -
  note iw = gro_inv_written [OF inv] and kp = gro_inv_kept [OF inv] and pk = gro_inv_packet [OF inv i(1) pkt]
  have l: "i < length (gBufs st)" and wf: "\<forall>b\<in>set (gBufs st). wf_slice b" using inv i by (auto simp: gro_inv_def)
  have wp: "wf_slice pkt" using wf_sub_from [OF pkt] wf l by simp
  show ?thesis
  proof (cases r)
    case GroNoop
    then have o: "bufs' = gBufs st" "tcp_dropped off i (gBufs st) i (gTcp st) t'" using out by (auto simp: tcp_outcome_def)
    have "gro_groups off bufs0 (Suc i) st' (grp(i := [i]))"
    proof (rule groups_new_frame [OF inv gr])
      obtain R where "mset (tbl_items (gTcp st)) = mset (tbl_items t') + R" using o(2) by (auto simp: tcp_dropped_def)
      then have "set (tbl_items t') \<subseteq> set (tbl_items (gTcp st))" by (metis set_mset_mset mset_subset_eq_add_left set_mset_mono)
      then show "written (packets off bufs0) (set (tbl_items (gTcp st'))) (set (tbl_items (gUdp st'))) i (packets off (gBufs st) i) [i]"
        using kp pk by (fastforce simp: written_def st')
    qed (use o GroNoop dropped_written in \<open>auto simp: st'\<close>)
    then show ?thesis by blast
  next
    case GroTableInsert
    then obtain t1 k T where o: "bufs' = gBufs st" "tcp_dropped off i (gBufs st) i (gTcp st) t1" "isV6 k = v6" "pkt_len_ok pkt v6"
        "20 \<le> T" "T \<le> 60" "ip_len v6 + T < slen pkt" "tcp_own pkt v6 k T" "tbl_append t1 k (new_tcp_item k pkt (ip_len v6) T i) = Some t'"
      using out by (auto simp: tcp_outcome_def)
    define x where "x = new_tcp_item k pkt (ip_len v6) T i"
    have "tbl_ok t1" using o(2) by (simp add: tcp_dropped_def tbl_inv_def)
    from gro_tbl.append_slots [OF this o(9)] have "mset (tbl_items t') = mset (tbl_items t1) + {#x#}" by (simp add: x_def)
    then have items: "set (tbl_items t') = insert x (set (tbl_items t1))" by (metis set_mset_add_mset_insert set_mset_mset add_mset_add_single)
    have xi: "unat (bufsIndex x) = i" using i(2) by (simp add: x_def unat_of_nat take_bit_nat_eq_self)
    obtain R where "mset (tbl_items (gTcp st)) = mset (tbl_items t1) + R" using o(2) by (auto simp: tcp_dropped_def)
    then have sub: "set (tbl_items t1) \<subseteq> set (tbl_items (gTcp st))" by (metis set_mset_mset mset_subset_eq_add_left set_mset_mono)
    have G: "tcp_group (packets off bufs0) x (packets off bufs0 i) [i]" unfolding x_def
      by (rule tcp_group_new [where bs = "packets off bufs0", OF o(8) wp o(5-7) _ o(3) _ pk(1)]) (use o(4) i(2) ver in \<open>simp_all add: pkt_len_ok_def\<close>)
    have "gro_groups off bufs0 (Suc i) st' (grp(i := [i]))"
    proof (rule groups_new_frame [OF inv gr])
      show "written (packets off bufs0) (set (tbl_items (gTcp st'))) (set (tbl_items (gUdp st'))) i (packets off (gBufs st) i) [i]"
        using kp sub G xi pk by (fastforce simp: written_def st' items)
    next
      fix w assume w: "w < i" "written (packets off bufs0) (set (tbl_items (gTcp st))) (set (tbl_items (gUdp st))) w (packets off (gBufs st) w) (grp w)"
      show "written (packets off bufs0) (set (tbl_items (gTcp st'))) (set (tbl_items (gUdp st'))) w (packets off (gBufs st) w) (grp w)"
        by (rule written_other [OF dropped_written [OF o(2) w(2)]]) (use xi w(1) in \<open>auto simp: st' items\<close>)
    qed (use o(1) GroTableInsert in \<open>simp_all add: st'\<close>)
    then show ?thesis by blast
  next
    case GroCoalesced
    from tcp_outcome_coalesced [OF out [unfolded GroCoalesced]]
    obtain t1 k its j mode x' where o: "tcp_dropped off i (gBufs st) i (gTcp st) t1" "tbl_lookup t1 k = Some its" "j < length its"
      "tcp_kept off i (gBufs st) (its ! j)" "isV6 k = v6" "key (its ! j) = k" "pkt_len_ok pkt v6" "mode \<noteq> CoalesceUnavailable"
      "unat (iphLen (its ! j)) + unat (tcphLen (its ! j)) < slen pkt"
      "tcpPacketsCanCoalesce pkt (iphLen (its ! j)) (tcphLen (its ! j)) (tcp_seq (ip_len v6) (vis pkt)) (tcp_psh (ip_len v6) (vis pkt))
        (of_nat (slen pkt - (unat (iphLen (its ! j)) + unat (tcphLen (its ! j))))) (its ! j) (gBufs st) (int off) = Some mode"
      "coalesceTCPPackets en mode pkt (int i) (of_nat (slen pkt - (unat (iphLen (its ! j)) + unat (tcphLen (its ! j)))))
        (tcp_seq (ip_len v6) (vis pkt)) (tcp_psh (ip_len v6) (vis pkt)) (its ! j) (gBufs st) (int off) v6 = Some (CoalesceSuccess, x', bufs')"
      "tcp_updateAt t1 x' (int j) = Some t'" "tcp_own pkt v6 k (unat (tcphLen (its ! j)))" "unat (iphLen (its ! j)) = ip_len v6"
      unfolding tcp_seq_def field32_def tcp_psh_def by metis
    define x where "x = its ! j"
    define w where "w = unat (bufsIndex x)"
    define H where "H = unat (iphLen x) + unat (tcphLen x)"
    note q = o(4,6,9-11,13,14) [folded x_def, folded H_def]
    obtain R where R: "mset (tbl_items (gTcp st)) = mset (tbl_items t1) + R" using o(1) by (auto simp: tcp_dropped_def)
    then have sub: "set (tbl_items t1) \<subseteq> set (tbl_items (gTcp st))" by (metis set_mset_mset mset_subset_eq_add_left set_mset_mono)
    have x1: "x \<in> set (tbl_items t1)" using set_mset_mono [OF tbl_lookup_items [OF o(2)]] o(3) by (auto simp: x_def)
    have wW: "w \<in> set (map nat (gToWrite st))" using iw(4) x1 sub by (auto simp: w_def)
    have g: "written (packets off bufs0) (set (tbl_items (gTcp st))) (set (tbl_items (gUdp st))) w (packets off (gBufs st) w) (grp w)"
      and part: "partition_of i grp (map nat (gToWrite st))" and caps: "caps_ok off (gBufs st)" using gr wW by (auto simp: gro_groups_def)
    have G: "tcp_group (packets off bufs0) x (packets off (gBufs st) w) (grp w)" using g x1 sub by (auto simp: written_def w_def)
    have "length (grp w) = Suc (unat (numMerged x))" using G by (simp add: tcp_group_def Let_def group_ok_def)
    then have n: "Suc (unat (numMerged x)) < 65536" using partition_le(1) [OF part wW] i(2) by simp
    have v: "v6 = isV6 (key x)" using o(5) q(2) by simp
    from tcp_merge_group [where bs = "packets off bufs0", OF caps l pkt pk(1) q(1) v q(7) H_def q(3) _ n q(4) o(8) q(5) G [unfolded w_def] ver] q(6)
    obtain g' where M: "caps_ok off bufs'" "\<And>a. a \<noteq> i \<Longrightarrow> a \<noteq> w \<Longrightarrow> bufs' ! a = gBufs st ! a"
        "tcp_group (packets off bufs0) x' (packets off bufs' w) g'" "mset g' = add_mset i (mset (grp w))" by (auto simp: w_def q(2))
    have kept': "key x' = k" "bufsIndex x' = bufsIndex x"
      using tcp_merge_grow(3,4) [OF wf l pkt q(1) v H_def q(3,5)] q(2) by simp_all
    have "tbl_ok t1" using o(1) by (simp add: tcp_dropped_def tbl_inv_def)
    from gro_tbl.update_at [OF this o(2,3), of x'] o(12) have "mset (tbl_items t') = add_mset x' (mset (tbl_items t1) - {#x#})"
      by (auto simp: tcp_updateAt_def kept'(1) x_def)
    then have items: "y \<in> set (tbl_items t') \<longleftrightarrow> y = x' \<or> y \<in># mset (tbl_items t1) - {#x#}" for y
      by (metis set_mset_mset insert_iff set_mset_add_mset_insert)
    have d: "distinct (map bufsIndex (tbl_items (gTcp st)))" "\<And>y. y \<in> set (tbl_items (gUdp st)) \<Longrightarrow> bufsIndex y \<noteq> bufsIndex x"
      using iw(3) x1 sub by (auto simp: image_iff)
    have own: "y = x'" if "y \<in> set (tbl_items t')" "unat (bufsIndex y) = w" for y
      using that distinct_other [OF d(1) R x1, of y] by (auto simp: items w_def word_unat_eq_iff)
    have "gro_groups off bufs0 (Suc i) st' (grp(w := g'))"
    proof (rule groups_merged [OF inv gr _ _ _ wW M(4)])
      show "written (packets off bufs0) (set (tbl_items (gTcp st'))) (set (tbl_items (gUdp st'))) w (packets off (gBufs st') w) g'"
      proof -
        have "tcp_group (packets off bufs0) y (packets off bufs' w) g'" if "y \<in> set (tbl_items t')" "unat (bufsIndex y) = w" for y
          using own [OF that] M(3) by simp
        moreover have "unat (bufsIndex y) \<noteq> w" if "y \<in> set (tbl_items (gUdp st))" for y
          using d(2) [OF that] by (simp add: w_def word_unat_eq_iff)
        moreover have "x' \<in> set (tbl_items t')" "unat (bufsIndex x') = w" using items [of x'] kept'(2) by (simp_all add: w_def)
        ultimately show ?thesis unfolding written_def st' by auto
      qed
    next
      fix u assume u: "u \<noteq> w" "written (packets off bufs0) (set (tbl_items (gTcp st))) (set (tbl_items (gUdp st))) u (packets off (gBufs st) u) (grp u)"
      have "y \<in> set (tbl_items t') \<longleftrightarrow> y \<in> set (tbl_items t1)" if "unat (bufsIndex y) = u" for y
        using that u(1) kept'(2) in_diffD [of y "mset (tbl_items t1)" "{#x#}"] by (auto simp: items w_def in_diff_count)
      then show "written (packets off bufs0) (set (tbl_items (gTcp st'))) (set (tbl_items (gUdp st'))) u (packets off (gBufs st) u) (grp u)"
        by (intro written_other [OF dropped_written [OF o(1) u(2)]]) (simp_all add: st')
    qed (use M(1,2) GroCoalesced in \<open>simp_all add: st'\<close>)
    then show ?thesis by blast
  qed
qed

lemma eval_udp_groups:
  assumes inv: "gro_inv off bufs0 i st" and gr: "gro_groups off bufs0 i st grp" and i: "i < length bufs0" "i < 128"
    and pkt: "sub_from (gBufs st ! i) (int off) = Some pkt"
    and out: "udp_outcome en pkt i off v6 (gBufs st) (gUdp st) (r, bufs', t')"
    and st': "st' = st\<lparr>gBufs := bufs', gUdp := t', gToWrite := (if r = GroCoalesced then gToWrite st else gToWrite st @ [int i])\<rparr>" and ver: "of_kind IPPROTO_UDP v6 (vis pkt)"
  shows "\<exists>grp'. gro_groups off bufs0 (Suc i) st' grp'"
proof -
  note iw = gro_inv_written [OF inv] and kp = gro_inv_kept [OF inv] and pk = gro_inv_packet [OF inv i(1) pkt]
  have l: "i < length (gBufs st)" and wf: "\<forall>b\<in>set (gBufs st). wf_slice b" and tb: "tbl_inv key (udp_kept off i (gBufs st)) i (gUdp st)"
    using inv i by (auto simp: gro_inv_def)
  have wp: "wf_slice pkt" using wf_sub_from [OF pkt] wf l by simp
  have tok: "tbl_ok (gUdp st)" using tb by (simp add: tbl_inv_def)
  show ?thesis
  proof (cases r)
    case GroNoop
    then have o: "bufs' = gBufs st" "t' = gUdp st" using out by (auto simp: udp_outcome_def)
    have "gro_groups off bufs0 (Suc i) st' (grp(i := [i]))"
    proof (rule groups_new_frame [OF inv gr])
      show "written (packets off bufs0) (set (tbl_items (gTcp st'))) (set (tbl_items (gUdp st'))) i (packets off (gBufs st) i) [i]"
        using kp pk by (fastforce simp: written_def st' o)
    qed (use o GroNoop in \<open>auto simp: st'\<close>)
    then show ?thesis by blast
  next
    case GroTableInsert
    then obtain k bad where o: "bufs' = gBufs st" "isV6 k = v6" "pkt_len_ok pkt v6" "ip_len v6 + 8 < slen pkt" "udp_own pkt v6 k"
        "tbl_append (gUdp st) k (new_udp_item k pkt (ip_len v6) i bad) = Some t'"
      using out by (auto simp: udp_outcome_def)
    define x where "x = new_udp_item k pkt (ip_len v6) i bad"
    from gro_tbl.append_slots [OF tok o(6)] have "mset (tbl_items t') = mset (tbl_items (gUdp st)) + {#x#}" by (simp add: x_def)
    then have items: "set (tbl_items t') = insert x (set (tbl_items (gUdp st)))" by (metis set_mset_add_mset_insert set_mset_mset add_mset_add_single)
    have xi: "unat (bufsIndex x) = i" using i(2) by (simp add: x_def unat_of_nat take_bit_nat_eq_self)
    have G: "udp_group (packets off bufs0) x (packets off bufs0 i) [i]" unfolding x_def
      by (rule udp_group_new [where bs = "packets off bufs0", OF o(5) wp o(4) _ o(2) _ pk(1)]) (use o(3) i(2) ver in \<open>simp_all add: pkt_len_ok_def\<close>)
    have "gro_groups off bufs0 (Suc i) st' (grp(i := [i]))"
    proof (rule groups_new_frame [OF inv gr])
      show "written (packets off bufs0) (set (tbl_items (gTcp st'))) (set (tbl_items (gUdp st'))) i (packets off (gBufs st) i) [i]"
        using kp G xi pk by (fastforce simp: written_def st' items)
    next
      fix w assume w: "w < i" "written (packets off bufs0) (set (tbl_items (gTcp st))) (set (tbl_items (gUdp st))) w (packets off (gBufs st) w) (grp w)"
      show "written (packets off bufs0) (set (tbl_items (gTcp st'))) (set (tbl_items (gUdp st'))) w (packets off (gBufs st) w) (grp w)"
        by (rule written_other [OF w(2)]) (use xi w(1) in \<open>auto simp: st' items\<close>)
    qed (use o(1) GroTableInsert in \<open>simp_all add: st'\<close>)
    then show ?thesis by blast
  next
    case GroCoalesced
    then obtain k its x' where o: "isV6 k = v6" "pkt_len_ok pkt v6" "ip_len v6 + 8 < slen pkt" "udp_own pkt v6 k" "tbl_lookup (gUdp st) k = Some its" "its \<noteq> []"
        "udpPacketsCanCoalesce pkt (of_nat (ip_len v6)) (of_nat (slen pkt - (ip_len v6 + 8))) (last its) (gBufs st) (int off) = Some CoalesceAppend"
        "coalesceUDPPackets en pkt (last its) (gBufs st) (int off) v6 = Some (CoalesceSuccess, x', bufs')"
        "tbl_updateAt (gUdp st) k x' (int (length its - 1)) = Some t'"
      using out unfolding udp_outcome_def prod.case by auto
    define x where "x = last its"
    define w where "w = unat (bufsIndex x)"
    have last: "length its - 1 < length its" "its ! (length its - 1) = x" using o(6) by (simp_all add: last_conv_nth x_def)
    have x1: "x \<in> set (tbl_items (gUdp st))" using set_mset_mono [OF tbl_lookup_items [OF o(5)]] o(6) by (auto simp: x_def)
    have kept: "udp_kept off i (gBufs st) x" "key x = k" using tb o(5,6) by (auto simp: tbl_inv_def x_def)
    have v: "v6 = isV6 (key x)" and ip: "unat (iphLen x) = ip_len v6" using kept o(1) by (auto simp: udp_kept_def udp_item_ok_def ip_len_def)
    have wW: "w \<in> set (map nat (gToWrite st))" using iw(5) x1 by (auto simp: w_def)
    have g: "written (packets off bufs0) (set (tbl_items (gTcp st))) (set (tbl_items (gUdp st))) w (packets off (gBufs st) w) (grp w)"
      and part: "partition_of i grp (map nat (gToWrite st))" and caps: "caps_ok off (gBufs st)" using gr wW by (auto simp: gro_groups_def)
    have G: "udp_group (packets off bufs0) x (packets off (gBufs st) w) (grp w)" using g x1 by (auto simp: written_def w_def)
    have G': "udp_group (packets off bufs0) x (packets off (gBufs st) (unat (bufsIndex x))) (grp w)" using G by (simp add: w_def)
    have "length (grp w) = Suc (unat (numMerged x))" using G by (simp add: udp_group_def Let_def group_ok_def)
    then have n: "Suc (unat (numMerged x)) < 65536" using partition_le(1) [OF part wW] i(2) by simp
    have can: "udpPacketsCanCoalesce pkt (iphLen x) (of_nat (slen pkt - (ip_len v6 + 8))) x (gBufs st) (int off) = Some CoalesceAppend"
      using o(7) unfolding x_def [symmetric] ip [symmetric] by simp
    have H: "ip_len v6 + 8 = unat (iphLen x) + 8" using ip by simp
    from udp_merge_group [where bs = "packets off bufs0", OF caps l pkt pk(1) kept(1) v ip H o(3) _ n partition_le(2) [OF part wW] can o(8) [folded x_def] G' ver] o(4)
    obtain g' where M: "caps_ok off bufs'" "\<And>a. a \<noteq> i \<Longrightarrow> a \<noteq> w \<Longrightarrow> bufs' ! a = gBufs st ! a"
        "udp_group (packets off bufs0) x' (packets off bufs' w) g'" "mset g' = add_mset i (mset (grp w))" by (auto simp: w_def kept(2))
    have idx': "bufsIndex x' = bufsIndex x" by (rule udp_merge_grow(4) [OF wf l pkt kept(1) v H o(3,8) [folded x_def]])
    from gro_tbl.update_at [OF tok o(5) last(1), of x'] o(9) have "mset (tbl_items t') = add_mset x' (mset (tbl_items (gUdp st)) - {#x#})"
      by (simp add: last(2) [unfolded One_nat_def])
    then have items: "y \<in> set (tbl_items t') \<longleftrightarrow> y = x' \<or> y \<in># mset (tbl_items (gUdp st)) - {#x#}" for y
      by (metis set_mset_mset insert_iff set_mset_add_mset_insert)
    have d: "distinct (map bufsIndex (tbl_items (gUdp st)))" "\<And>y. y \<in> set (tbl_items (gTcp st)) \<Longrightarrow> bufsIndex y \<noteq> bufsIndex x"
      using iw(3) x1 by (auto simp: image_iff)
    have own: "y = x'" if "y \<in> set (tbl_items t')" "unat (bufsIndex y) = w" for y
      using that distinct_other [OF d(1) _ x1, of "{#}" y] by (auto simp: items w_def word_unat_eq_iff)
    have "gro_groups off bufs0 (Suc i) st' (grp(w := g'))"
    proof (rule groups_merged [OF inv gr _ _ _ wW M(4)])
      show "written (packets off bufs0) (set (tbl_items (gTcp st'))) (set (tbl_items (gUdp st'))) w (packets off (gBufs st') w) g'"
      proof -
        have "udp_group (packets off bufs0) y (packets off bufs' w) g'" if "y \<in> set (tbl_items t')" "unat (bufsIndex y) = w" for y
          using own [OF that] M(3) by simp
        moreover have "unat (bufsIndex y) \<noteq> w" if "y \<in> set (tbl_items (gTcp st))" for y
          using d(2) [OF that] by (simp add: w_def word_unat_eq_iff)
        moreover have "x' \<in> set (tbl_items t')" "unat (bufsIndex x') = w" using items [of x'] idx' by (simp_all add: w_def)
        ultimately show ?thesis unfolding written_def st' by auto
      qed
    next
      fix u assume u: "u \<noteq> w" "written (packets off bufs0) (set (tbl_items (gTcp st))) (set (tbl_items (gUdp st))) u (packets off (gBufs st) u) (grp u)"
      have "y \<in> set (tbl_items t') \<longleftrightarrow> y \<in> set (tbl_items (gUdp st))" if "unat (bufsIndex y) = u" for y
        using that u(1) idx' in_diffD [of y "mset (tbl_items (gUdp st))" "{#x#}"] by (auto simp: items w_def in_diff_count)
      then show "written (packets off bufs0) (set (tbl_items (gTcp st'))) (set (tbl_items (gUdp st'))) u (packets off (gBufs st) u) (grp u)"
        by (intro written_other [OF u(2)]) (simp_all add: st')
    qed (use M(1,2) GroCoalesced in \<open>simp_all add: st'\<close>)
    then show ?thesis by blast
  qed
qed


text \<open>Headers in front of the packets do not matter.\<close>

lemma groups_headers:
  assumes "gro_groups off bufs0 n st grp" and "caps_ok off bufs" and "\<And>w. packets off bufs w = packets off (gBufs st) w"
  shows "gro_groups off bufs0 n (st\<lparr>gBufs := bufs\<rparr>) grp"
  using assms by (simp add: gro_groups_def)

lemma scap_with_hdr: "wf_slice buf \<Longrightarrow> 10 \<le> off \<Longrightarrow> off \<le> slen buf \<Longrightarrow> scap (with_hdr en h off buf) = scap buf"
  by (simp add: with_hdr_def wf_slice_def scap_def)

lemma packets_with_hdr:
  assumes "wf_slice (bufs ! i)" "10 \<le> off" "off \<le> slen (bufs ! i)" "i < length bufs"
  shows "packets off (bufs[i := with_hdr en h off (bufs ! i)]) w = packets off bufs w"
  using assms by (cases "w = i") (simp_all add: packets_def)

lemma packetIsGROCandidate_kind:
  assumes "wf_slice b" "packetIsGROCandidate b can = Some c"
  shows "case c of
      NotGROCandidate \<Rightarrow> True
    | Tcp4GROCandidate \<Rightarrow> ip_len False + 20 \<le> slen b \<and> of_kind IPPROTO_TCP False (vis b)
    | Tcp6GROCandidate \<Rightarrow> ip_len True + 20 \<le> slen b \<and> of_kind IPPROTO_TCP True (vis b)
    | Udp4GROCandidate \<Rightarrow> ip_len False + 8 \<le> slen b \<and> of_kind IPPROTO_UDP False (vis b)
    | Udp6GROCandidate \<Rightarrow> ip_len True + 8 \<le> slen b \<and> of_kind IPPROTO_UDP True (vis b)"
  using assms rd_ok [of 0 b] rd_ok [of 6 b] rd_ok [of 9 b] unfolding packetIsGROCandidate_def
  by (auto simp: ip_len_def of_kind_def split: if_splits bind_splits)

lemma gro_eval_groups:
  assumes inv: "gro_inv off bufs0 i st" and gr: "gro_groups off bufs0 i st grp" and i: "i < length bufs0" "i < 128"
    and pkt: "sub_from (gBufs st ! i) (int off) = Some pkt" and cand: "packetIsGROCandidate pkt can = Some c"
    and run: "gro_eval en (int off) (int i) c st = Some (r, st1)"
  shows "\<exists>grp'. gro_groups off bufs0 (Suc i) (st1\<lparr>gToWrite := (if r = GroCoalesced then gToWrite st else gToWrite st @ [int i])\<rparr>) grp'"
proof -
  have wf: "\<forall>b\<in>set (gBufs st). wf_slice b" and l: "i < length (gBufs st)"
    and t: "tbl_inv key (tcp_kept off i (gBufs st)) i (gTcp st)" and u: "tbl_inv key (udp_kept off i (gBufs st)) i (gUdp st)"
    and ne: "\<forall>k its. tbl_lookup (gUdp st) k = Some its \<longrightarrow> its \<noteq> []"
    using inv i by (auto simp: gro_inv_def)
  have wp: "wf_slice pkt" using wf_sub_from [OF pkt] wf l by simp
  note c = packetIsGROCandidate_kind [OF wp cand]
  have five: "vis pkt ! 0 AND 0x0F = 5" if "of_kind p v6 (vis pkt)" "\<not> v6" for v6 p using that by (simp add: of_kind_def)
  have tcp: ?thesis if "ip_len v6 + 20 \<le> slen pkt" "of_kind IPPROTO_TCP v6 (vis pkt)"
    "tcpGRO en (gBufs st) (int off) (int i) (gTcp st) v6 \<bind> (\<lambda>(r, bufs, t). Some (r, st\<lparr>gBufs := bufs, gTcp := t\<rparr>)) = Some (r, st1)" for v6
    using that(3) tcpGRO_returns [OF wf l i(2) pkt that(1) five [OF that(2)] t i(2), of en] eval_tcp_groups [OF inv gr i pkt _ refl that(2)]
    by (fastforce simp: returns_iff)
  have udp: ?thesis if "ip_len v6 + 8 \<le> slen pkt" "of_kind IPPROTO_UDP v6 (vis pkt)"
    "udpGRO en (gBufs st) (int off) (int i) (gUdp st) v6 \<bind> (\<lambda>(r, bufs, t). Some (r, st\<lparr>gBufs := bufs, gUdp := t\<rparr>)) = Some (r, st1)" for v6
    using that(3) udpGRO_returns [OF wf l i(2) pkt that(1) five [OF that(2)] u i(2) ne, of en] eval_udp_groups [OF inv gr i pkt _ refl that(2)]
    by (fastforce simp: returns_iff)
  show ?thesis
  proof (cases c)
    case NotGROCandidate
    then have o: "r = GroNoop" "st1 = st" using run by (simp_all add: gro_eval_def)
    have "gro_groups off bufs0 (Suc i) (st\<lparr>gToWrite := gToWrite st @ [int i]\<rparr>) (grp(i := [i]))"
      by (rule groups_new_frame [OF inv gr]) (use gro_inv_kept [OF inv] gro_inv_packet [OF inv i(1) pkt] in \<open>fastforce simp: written_def\<close>)+
    then show ?thesis using o by auto
  qed (use c run tcp [of False] tcp [of True] udp [of False] udp [of True] in \<open>simp_all add: gro_eval_def\<close>)
qed

lemma gro_step_groups:
  assumes inv: "gro_inv off bufs0 i st" and gr: "gro_groups off bufs0 i st grp" and i: "i < length bufs0" "i < 128"
    and run: "gro_step en (int off) can (int i) st = Some (st', Inr u)"
  shows "\<exists>grp'. gro_groups off bufs0 (Suc i) st' grp'"
proof -
  have l: "i < length (gBufs st)" and wf: "\<forall>b\<in>set (gBufs st). wf_slice b" using inv i by (auto simp: gro_inv_def)
  obtain pkt c r st1 where off: "10 \<le> off" "off < slen (gBufs st ! i)" and pkt: "sub_from (gBufs st ! i) (int off) = Some pkt"
    and c: "packetIsGROCandidate pkt can = Some c" and ev: "gro_eval en (int off) (int i) c st = Some (r, st1)"
    and tail: "(case r of
       GroNoop \<Rightarrow> do {
         buf \<leftarrow> elem (gBufs st1) (int i);
         r \<leftarrow> encode_at en zero_hdr (int off) buf;
         case r of
           Inl e \<Rightarrow> Some (st1, Inl e)
         | Inr buf \<Rightarrow> do {
             bufs \<leftarrow> set_elem (gBufs st1) (int i) buf;
             Some (st1\<lparr>gBufs := bufs, gToWrite := gToWrite st1 @ [int i]\<rparr>, Inr ())
           }
       }
     | GroTableInsert \<Rightarrow> Some (st1\<lparr>gToWrite := gToWrite st1 @ [int i]\<rparr>, Inr ())
     | GroCoalesced \<Rightarrow> Some (st1, Inr ())) = Some (st', Inr u)"
    using run elem_ok [OF l] by (auto simp: gro_step_def virtioNetHdrLen_def split: bind_splits if_splits)
  note evd = gro_eval_returns [OF inv i pkt off(2) c, of en, unfolded ev returns_def option.case prod.case]
  have tw: "gToWrite st1 = gToWrite st" and same: "r \<noteq> GroCoalesced \<Longrightarrow> gBufs st1 = gBufs st" using evd by (simp_all add: gro_evaluated_def)
  obtain grp' where grp': "gro_groups off bufs0 (Suc i) (st1\<lparr>gToWrite := (if r = GroCoalesced then gToWrite st else gToWrite st @ [int i])\<rparr>) grp'"
    using gro_eval_groups [OF inv gr i pkt c ev] by blast
  show ?thesis
  proof (cases r)
    case GroNoop
    define bufs where "bufs = (gBufs st)[i := with_hdr en zero_hdr off (gBufs st ! i)]"
    have w: "wf_slice (gBufs st ! i)" using wf l by simp
    have st': "st' = st1\<lparr>gToWrite := gToWrite st @ [int i]\<rparr>\<lparr>gBufs := bufs\<rparr>"
      using tail GroNoop same elem_ok [OF l] set_elem_ok [OF l] encode_at_ok [OF w off(1)] off(2) by (auto simp: tw bufs_def)
    have "caps_ok off (gBufs st)" using gr by (simp add: gro_groups_def)
    then have "caps_ok off bufs" unfolding bufs_def
      by (rule caps_ok_update) (use w off caps_okD [OF \<open>caps_ok off (gBufs st)\<close> l] in \<open>simp_all add: scap_with_hdr\<close>)
    moreover have "packets off bufs v = packets off (gBufs st) v" for v
      unfolding bufs_def by (rule packets_with_hdr) (use w off l in simp_all)
    ultimately have "gro_groups off bufs0 (Suc i) st' grp'" unfolding st'
      using grp' GroNoop same by (intro groups_headers) simp_all
    then show ?thesis by blast
  next
    case GroTableInsert
    then show ?thesis using tail grp' tw by auto
  next
    case GroCoalesced
    moreover have "st1\<lparr>gToWrite := gToWrite st\<rparr> = st1" using tw by (cases st1) simp
    ultimately show ?thesis using tail grp' by auto
  qed
qed

lemma gro_loop_groups:
  assumes "gro_inv off bufs0 i st" and "gro_groups off bufs0 i st grp" and "i + n = length bufs0" and "length bufs0 \<le> 128"
    and "gro_loop en (int off) can n (int i) st = Some (st', Inr u)"
  shows "\<exists>grp'. gro_groups off bufs0 (length bufs0) st' grp'"
  using assms
proof (induction n arbitrary: i st grp)
  case 0
  then show ?case by auto
next
  case (Suc n)
  have i: "i < length bufs0" "i < 128" using Suc.prems(3,4) by auto
  obtain st1 r where s: "gro_step en (int off) can (int i) st = Some (st1, r)"
    and o: "case r of Inl e \<Rightarrow> e = ErrInvalidOffset \<and> bad_offset (int off) (bufs0 ! i) \<and> st1 = st
      | Inr _ \<Rightarrow> \<not> bad_offset (int off) (bufs0 ! i) \<and> gro_inv off bufs0 (Suc i) st1"
    using gro_step_returns [of "int off" bufs0 i st en can] Suc.prems(1) i by (auto simp: returns_iff)
  show ?case
  proof (cases r)
    case (Inl e)
    then show ?thesis using Suc.prems(5) s by simp
  next
    case (Inr v)
    then obtain grp1 where g: "gro_groups off bufs0 (Suc i) st1 grp1"
      using gro_step_groups [OF Suc.prems(1,2) i] s by blast
    have c: "int i + 1 = int (Suc i)" by simp
    have "gro_loop en (int off) can n (int (Suc i)) st1 = Some (st', Inr u)" using Suc.prems(5) s Inr by (simp add: c)
    then show ?thesis using Suc.IH [OF _ g] o Inr Suc.prems(3,4) by simp
  qed
qed

end
