(* ===== verification/Gro_Roundtrip.thy ===== *)
theory Gro_Roundtrip
  imports Gro_Payload
begin

text \<open>
  The two offloads against each other (\<^verbatim>\<open>offload_linux.go\<close>): the frames \<open>handleGRO\<close> writes for a batch, cut into
  segments by \<open>gsoSplit\<close>, give the packets of the batch back.
\<close>

section \<open>Cutting a payload\<close>

definition chunks :: "nat \<Rightarrow> 'a list list \<Rightarrow> bool" where
  "chunks k xs \<longleftrightarrow> (\<forall>x\<in>set xs. x \<noteq> [] \<and> length x \<le> k) \<and> (\<forall>x\<in>set (butlast xs). length x = k)"

lemma chunks_Cons: "chunks k (x # xs) \<longleftrightarrow> x \<noteq> [] \<and> length x \<le> k \<and> (xs \<noteq> [] \<longrightarrow> length x = k) \<and> chunks k xs"
  by (auto simp: chunks_def)

lemma chunks_unique:
  assumes "chunks k xs" "chunks k ys" "concat xs = concat ys"
  shows "xs = ys"
  using assms
proof (induction xs arbitrary: ys)
  case Nil
  then show ?case by (cases ys) (auto simp: chunks_def)
next
  case (Cons x xs)
  have "ys \<noteq> []" using Cons.prems(1,3) by (auto simp: chunks_Cons)
  then obtain y ys' where ys: "ys = y # ys'" by (cases ys) simp_all
  have hd: "length x \<le> k" "length y \<le> k" "xs \<noteq> [] \<Longrightarrow> length x = k" "ys' \<noteq> [] \<Longrightarrow> length y = k"
    and tl: "chunks k xs" "chunks k ys'"
    using Cons.prems(1,2) unfolding ys by (simp_all add: chunks_Cons)
  have e: "x @ concat xs = y @ concat ys'" using Cons.prems(3) by (simp add: ys)
  have ne: "concat xs \<noteq> []" if "xs \<noteq> []" using tl(1) that by (cases xs) (auto simp: chunks_def)
  have ne': "concat ys' \<noteq> []" if "ys' \<noteq> []" using tl(2) that by (cases ys') (auto simp: chunks_def)
  have "length x = length y"
  proof (cases "xs = []"; cases "ys' = []")
    assume "xs = []" "ys' \<noteq> []"
    then have "length x = k + length (concat ys')" using arg_cong [OF e, of length] hd(4) by simp
    then show ?thesis using ne' \<open>ys' \<noteq> []\<close> hd(1) by (metis add_diff_cancel_left' diff_is_0_eq length_0_conv)
  next
    assume "xs \<noteq> []" "ys' = []"
    then have "length y = k + length (concat xs)" using arg_cong [OF e, of length] hd(3) by simp
    then show ?thesis using ne \<open>xs \<noteq> []\<close> hd(2) by (metis add_diff_cancel_left' diff_is_0_eq length_0_conv)
  qed (use hd e in auto)
  then show ?case using e Cons.IH [OF tl] by (simp add: ys)
qed

text \<open>The payloads of the segments are the only way to cut the payload of the frame.\<close>

lemma chunks_gso_packets:
  assumes "gso_headers hdr v pkt"
  shows "chunks (unat (gsoSize hdr)) (map (drop (unat (hdrLen hdr))) (gso_packets en hdr v pkt))"
proof -
  define segs where "segs = gso_packets en hdr v pkt"
  define H where "H = unat (hdrLen hdr)"
  note sz = gso_packet_size [OF assms, of _ en, folded segs_def H_def]
  have "drop H s \<noteq> [] \<and> length (drop H s) \<le> unat (gsoSize hdr)" if "s \<in> set segs" for s
  proof -
    obtain i where "i < length segs" "s = segs ! i" using \<open>s \<in> set segs\<close> by (auto simp: in_set_conv_nth)
    then show ?thesis using sz [of i] gso_headersD(7) [OF assms] by (auto split: if_splits)
  qed
  moreover have "length (drop H s) = unat (gsoSize hdr)" if "s \<in> set (butlast segs)" for s
  proof -
    obtain i where i: "i < length (butlast segs)" "s = butlast segs ! i" using \<open>s \<in> set (butlast segs)\<close> by (auto simp: in_set_conv_nth)
    then have "Suc i < length segs" "s = segs ! i" by (simp_all add: nth_butlast)
    then show ?thesis using sz [of i] by simp
  qed
  ultimately show ?thesis unfolding chunks_def segs_def [symmetric] H_def [symmetric] by (auto simp flip: map_butlast)
qed

lemma gso_packets_payloads:
  assumes "gso_headers hdr v pkt" and "chunks (unat (gsoSize hdr)) ps" and "drop (unat (hdrLen hdr)) pkt = concat ps"
  shows "map (drop (unat (hdrLen hdr))) (gso_packets en hdr v pkt) = ps"
  by (rule chunks_unique [OF chunks_gso_packets [OF assms(1)] assms(2)]) (simp add: concat_gso_packets [OF assms(1)] assms(3))

text \<open>The header bytes that all segments have in common with the frame.\<close>

definition seg_changes :: "virtioNetHdr \<Rightarrow> bool \<Rightarrow> nat set" where
  "seg_changes hdr v = (if v then {4, 5} else {2, 3, 4, 5, 10, 11}) \<union>
     (\<lambda>k. unat (csumStart hdr) + k) ` (if gso_tcp hdr then {4, 5, 6, 7, 13, 16, 17} else {4, 5, 6, 7})"

lemma nth_splice_other:
  "j < i \<or> i + length ys \<le> j \<Longrightarrow> i + length ys \<le> length xs \<Longrightarrow> j < length xs \<Longrightarrow> splice xs i ys ! j = xs ! j"
  by (auto simp: nth_splice)

lemma nth_seg_tr:
  assumes "(p = IPPROTO_TCP \<and> co = 16 \<and> 20 \<le> length th) \<or> (p = IPPROTO_UDP \<and> co = 6 \<and> 8 \<le> length th)"
    and "j < length th" "j \<notin> (if p = IPPROTO_TCP then {4, 5, 6, 7, 13, 16, 17} else {4, 5, 6, 7})"
  shows "seg_tr en co p q lst sa da th pl ! j = th ! j"
  using assms(1)
proof
  assume a: "p = IPPROTO_TCP \<and> co = 16 \<and> 20 \<le> length th"
  then have j: "j < 4 \<or> 8 \<le> j" "j < 13 \<or> 14 \<le> j" "j < 16 \<or> 18 \<le> j" using assms(3) by auto
  then show ?thesis using a assms(2)
    by (simp add: seg_tr_def seg_tr1_def Let_def nth_splice_other nth_append)
next
  assume a: "p = IPPROTO_UDP \<and> co = 6 \<and> 8 \<le> length th"
  then have p: "p \<noteq> IPPROTO_TCP" by (simp add: tun_consts)
  then have j: "j < 4 \<or> 8 \<le> j" "j < 4 \<or> 6 \<le> j" "j < 6 \<or> 8 \<le> j" using assms(3) by auto
  show ?thesis using a assms(2) j p
    by (simp add: seg_tr_def seg_tr1_def Let_def nth_splice_other nth_append)
qed

lemma gso_packet_nth:
  assumes hd: "gso_headers hdr v pkt" and i: "i < length (gso_packets en hdr v pkt)"
    and j: "j < unat (hdrLen hdr)" "j \<notin> seg_changes hdr v"
  shows "gso_packets en hdr v pkt ! i ! j = pkt ! j"
proof -
  define c where "c = unat (csumStart hdr)"
  obtain iph th pl lst T where s: "gso_packets en hdr v pkt ! i = seg_ip en v T i iph @ seg_tr en (unat (csumOffset hdr)) (gso_protocol hdr)
       (gso_seq hdr pkt + of_nat (i * unat (gsoSize hdr))) lst (src_addr v pkt) (dst_addr v pkt) th pl"
    "iph = take c pkt" "length iph = c" "th = drop c (take (unat (hdrLen hdr)) pkt)" "length th = unat (hdrLen hdr) - c"
    using gso_packet_shape [OF hd i] by (metis c_def)
  note h = gso_headersD [OF hd, folded c_def]
  have li: "length (seg_ip en v T i iph) = c" using h s(3) by (cases v) auto
  show ?thesis
  proof (cases "j < c")
    case True
    have "seg_ip en v T i iph ! j = iph ! j"
      by (rule nth_seg_ip) (use h s(3) True j(2) in \<open>auto simp: seg_changes_def split: if_splits\<close>)
    then show ?thesis using True li by (simp add: s(1) nth_append) (simp add: s(2))
  next
    case False
    then obtain k where k: "j = c + k" by (metis le_add_diff_inverse not_less)
    have "k \<notin> (if gso_tcp hdr then {4, 5, 6, 7, 13, 16, 17} else {4, 5, 6, 7})"
      using j(2) unfolding seg_changes_def c_def [symmetric] k by blast
    then have "seg_tr en (unat (csumOffset hdr)) (gso_protocol hdr) (gso_seq hdr pkt + of_nat (i * unat (gsoSize hdr))) lst
        (src_addr v pkt) (dst_addr v pkt) th pl ! k = th ! k"
      by (intro nth_seg_tr) (use hd s(5) j(1) in \<open>auto simp: k gso_headers_def gso_protocol_def tun_consts c_def split: if_splits\<close>)
    then show ?thesis unfolding s(1) k using li j(1) h(6) by (simp add: nth_append s(4) k)
  qed
qed

section \<open>Packets of the same flow\<close>

text \<open>The bytes of a packet that its flow key is made of.\<close>

definition flow_bytes :: "bool \<Rightarrow> bool \<Rightarrow> nat set" where
  "flow_bytes tcp v6 = (if v6 then {8..<40} else {12..<20}) \<union>
     (\<lambda>k. ip_len v6 + k) ` (if tcp then {0, 1, 2, 3, 8, 9, 10, 11} else {0, 1, 2, 3})"

lemma take_drop_eq:
  assumes "\<And>j. k \<le> j \<Longrightarrow> j < k + n \<Longrightarrow> a ! j = b ! j" and "k + n \<le> length a" "k + n \<le> length b"
  shows "take n (drop k a) = take n (drop k b)"
  using assms by (intro nth_equalityI) auto

lemma tcp_key_cong:
  assumes "\<And>j. j \<in> flow_bytes True v6 \<Longrightarrow> a ! j = b ! j" and "ip_len v6 + 20 \<le> length a" "ip_len v6 + 20 \<le> length b"
  shows "tcp_key v6 a = tcp_key v6 b"
proof -
  have t: "take n (drop k a) = take n (drop k b)" if "{k..<k + n} \<subseteq> flow_bytes True v6" "k + n \<le> ip_len v6 + 20" for k n
    by (rule take_drop_eq) (use assms that in auto)
  have "src_addr v6 a = src_addr v6 b" "dst_addr v6 a = dst_addr v6 b"
    unfolding src_addr_def dst_addr_def by (rule t; force simp: flow_bytes_def ip_len_def)+
  moreover have "field16 a (ip_len v6) = field16 b (ip_len v6)" "field16 a (ip_len v6 + 2) = field16 b (ip_len v6 + 2)"
    "take 4 (drop (ip_len v6 + 8) a) = take 4 (drop (ip_len v6 + 8) b)"
    unfolding field16_def by (subst t; force simp: flow_bytes_def)+
  ultimately show ?thesis by (simp add: tcp_key_def)
qed

lemma udp_key_cong:
  assumes "\<And>j. j \<in> flow_bytes False v6 \<Longrightarrow> a ! j = b ! j" and "ip_len v6 + 8 \<le> length a" "ip_len v6 + 8 \<le> length b"
  shows "udp_key v6 a = udp_key v6 b"
proof -
  have t: "take n (drop k a) = take n (drop k b)" if "{k..<k + n} \<subseteq> flow_bytes False v6" "k + n \<le> ip_len v6 + 8" for k n
    by (rule take_drop_eq) (use assms that in auto)
  have "src_addr v6 a = src_addr v6 b" "dst_addr v6 a = dst_addr v6 b"
    unfolding src_addr_def dst_addr_def by (rule t; force simp: flow_bytes_def ip_len_def)+
  moreover have "field16 a (ip_len v6) = field16 b (ip_len v6)" "field16 a (ip_len v6 + 2) = field16 b (ip_len v6 + 2)"
    unfolding field16_def by (subst t; force simp: flow_bytes_def)+
  ultimately show ?thesis by (simp add: udp_key_def)
qed

text \<open>The accounting writes only the IP header fields, the checksum and the UDP length.\<close>

lemma nth_ip_fields:
  assumes "ip_len v6 \<le> length p" "j < length p" "j \<notin> (if v6 then {4, 5} else {2, 3, 10, 11})"
  shows "ip_fields en v6 p ! j = p ! j"
proof (cases v6)
  case True
  then have "j < 4 \<or> 6 \<le> j" using assms(3) by auto
  then show ?thesis using assms True by (simp add: ip_fields_def nth_splice_other ip_len_def)
next
  case False
  then have "j < 2 \<or> 4 \<le> j" "j < 10 \<or> 12 \<le> j" using assms(3) by auto
  then show ?thesis using assms False by (simp add: ip_fields_def nth_splice_other ip_len_def Let_def)
qed

lemma nth_tcp_accounted:
  assumes "ip_len v6 + 20 \<le> length p" "j < length p" "j \<notin> (if v6 then {4, 5} else {2, 3, 10, 11})" "j < ip_len v6 + 16 \<or> ip_len v6 + 18 \<le> j"
  shows "tcp_accounted en v6 p ! j = p ! j"
  using assms nth_ip_fields [of v6 p j en] by (auto simp: tcp_accounted_def psum_at_eq nth_splice_other)

lemma nth_udp_accounted:
  assumes "ip_len v6 + 8 \<le> length p" "j < length p" "j \<notin> (if v6 then {4, 5} else {2, 3, 10, 11})" "j < ip_len v6 + 4 \<or> ip_len v6 + 8 \<le> j"
  shows "udp_accounted en v6 p ! j = p ! j"
  using assms nth_ip_fields [of v6 p j en] by (auto simp: udp_accounted_def psum_at_eq nth_splice_other)

lemma drop_accounted:
  "ip_len v6 + 20 \<le> length p \<Longrightarrow> ip_len v6 + 20 \<le> H \<Longrightarrow> drop H (tcp_accounted en v6 p) = drop H p"
  "ip_len v6 + 8 \<le> length p \<Longrightarrow> ip_len v6 + 8 \<le> H \<Longrightarrow> drop H (udp_accounted en v6 p) = drop H p"
  by (intro nth_equalityI; simp add: accounted_length nth_tcp_accounted nth_udp_accounted ip_len_def split: if_splits)+

section \<open>The segments of a coalesced frame\<close>

text \<open>Two packets that mean the same to a receiver: one flow and acknowledgement, one sequence number, one payload.\<close>

definition tcp_same :: "bool \<Rightarrow> byte list \<Rightarrow> byte list \<Rightarrow> bool" where
  "tcp_same v6 a b \<longleftrightarrow> (let h = ip_len v6; H = h + tcp_hlen h b in
     of_kind IPPROTO_TCP v6 a \<and> of_kind IPPROTO_TCP v6 b \<and> tcp_key v6 a = tcp_key v6 b \<and> tcp_seq h a = tcp_seq h b \<and> tcp_hlen h a = tcp_hlen h b \<and> drop H a = drop H b)"

definition udp_same :: "bool \<Rightarrow> byte list \<Rightarrow> byte list \<Rightarrow> bool" where
  "udp_same v6 a b \<longleftrightarrow> of_kind IPPROTO_UDP v6 a \<and> of_kind IPPROTO_UDP v6 b \<and> udp_key v6 a = udp_key v6 b \<and> drop (ip_len v6 + 8) a = drop (ip_len v6 + 8) b"

text \<open>The packet \<open>p\<close> with virtio header \<open>h\<close> is cut into the packets \<open>ps\<close>.\<close>

definition regains :: "endian \<Rightarrow> virtioNetHdr \<Rightarrow> bool \<Rightarrow> byte list \<Rightarrow> byte list list \<Rightarrow> bool" where
  "regains en h v6 p ps \<longleftrightarrow> gso_headers h v6 p \<and> length p \<le> 65535 \<and>
     list_all2 (if gso_tcp h then tcp_same v6 else udp_same v6) (gso_packets en h v6 p) ps"

lemma seq_nth:
  fixes sq :: "'a \<Rightarrow> u32"
  assumes "successively (\<lambda>p q. sq q = sq p + of_nat (n p)) g" "\<forall>p\<in>set (butlast g). n p = k" "i < length g"
  shows "sq (g ! i) = sq (hd g) + of_nat (i * k)"
  using assms(3)
proof (induction i)
  case 0
  then show ?case by (simp add: hd_conv_nth)
next
  case (Suc i)
  have "g ! i \<in> set (butlast g)" using Suc.prems nth_mem [of i "butlast g"] by (simp add: nth_butlast)
  then have "sq (g ! Suc i) = sq (g ! i) + of_nat k" using assms(1,2) Suc.prems by (simp add: successively_conv_nth)
  then show ?case using Suc by (simp add: algebra_simps)
qed

lemma group_chunks:
  assumes "group_ok bs H fl gso m w c g"
  shows "chunks gso (map (\<lambda>q. drop H (bs q)) g)"
proof -
  note d = group_okD [OF assms]
  have "length (bs q) - H \<le> gso" if "q \<in> set g" for q
    using that d(7,8) by (subst (asm) d(10)) auto
  then show ?thesis using d(3,7) by (auto simp: chunks_def simp flip: map_butlast)
qed

lemma group_member_le:
  assumes "group_ok bs H fl gso m w c g" "q \<in> set g"
  shows "length (bs q) \<le> length c" "H < length c"
proof -
  note d = group_okD [OF assms(1)]
  have "length (drop H (bs q)) \<le> length (drop H c)" unfolding d(5) length_concat by (rule member_le_sum_list) (use assms(2) in auto)
  then show "length (bs q) \<le> length c" "H < length c" using d(3,4) assms(2) by force+
qed

lemma gro_hdr_fields:
  assumes "unat (iphLen x) = ip_len v6" "unat (tcphLen x) \<le> 60"
  shows "unat (hdrLen (tcp_gro_hdr x)) = ip_len v6 + unat (tcphLen x)" "unat (csumStart (tcp_gro_hdr x)) = ip_len v6"
    "csumOffset (tcp_gro_hdr x) = 16" "gsoSize (tcp_gro_hdr x) = itemGsoSize x" "gso_tcp (tcp_gro_hdr x)"
    "gsoType (tcp_gro_hdr x) = (if isV6 (key x) then GSO_TCPV6 else GSO_TCPV4)"
proof -
  have "unat (iphLen x + tcphLen x) = ip_len v6 + unat (tcphLen x)"
    using assms by (subst unat_word_ariths) (simp add: ip_len_def)
  then show "unat (hdrLen (tcp_gro_hdr x)) = ip_len v6 + unat (tcphLen x)" using assms
    by (simp add: tcp_gro_hdr_def unsigned_ucast_eq take_bit_nat_eq_self ip_len_def)
  show "unat (csumStart (tcp_gro_hdr x)) = ip_len v6" using assms(1)
    by (simp add: tcp_gro_hdr_def unsigned_ucast_eq take_bit_nat_eq_self ip_len_def)
qed (simp_all add: tcp_gro_hdr_def gso_tcp_def)

lemma gro_hdr_fields_udp:
  assumes "unat (iphLen x) = ip_len v6"
  shows "unat (hdrLen (udp_gro_hdr x)) = ip_len v6 + 8" "unat (csumStart (udp_gro_hdr x)) = ip_len v6"
    "csumOffset (udp_gro_hdr x) = 6" "gsoSize (udp_gro_hdr x) = itemGsoSize x" "\<not> gso_tcp (udp_gro_hdr x)"
    "gsoType (udp_gro_hdr x) = GSO_UDP_L4"
proof -
  have "unat (iphLen x + of_int udphLen) = ip_len v6 + 8"
    using assms by (subst unat_word_ariths) (simp add: ip_len_def udphLen_def)
  then show "unat (hdrLen (udp_gro_hdr x)) = ip_len v6 + 8" using assms
    by (simp add: udp_gro_hdr_def unsigned_ucast_eq take_bit_nat_eq_self ip_len_def)
  show "unat (csumStart (udp_gro_hdr x)) = ip_len v6" using assms(1)
    by (simp add: udp_gro_hdr_def unsigned_ucast_eq take_bit_nat_eq_self ip_len_def)
qed (simp_all add: udp_gro_hdr_def gso_tcp_def tun_consts)

lemma of_nat_mod32: "(of_nat (n mod 2 ^ 32) :: u32) = of_nat n"
  by (simp add: word_unat_eq_iff unat_of_nat32)

lemma tcp_group_regained:
  assumes G: "tcp_group bs x c g" and ip: "unat (iphLen x) = ip_len v6" "v6 = isV6 (key x)"
    and T: "20 \<le> unat (tcphLen x)" "unat (tcphLen x) \<le> 60" and gso: "itemGsoSize x \<noteq> 0" and le: "length c \<le> 65535"
  shows "regains en (tcp_gro_hdr x) v6 (tcp_accounted en v6 c) (map bs g)"
proof -
  define h where "h = ip_len v6"
  define H where "H = h + unat (tcphLen x)"
  define p where "p = tcp_accounted en v6 c"
  define hdr where "hdr = tcp_gro_hdr x"
  have hH: "h = ip_len (isV6 (key x))" "H = h + unat (tcphLen x)" by (simp_all add: h_def H_def ip)
  note g = tcp_groupD [OF G hH]
  note d = group_okD [OF g(1)] and ml = group_member_le [OF g(1)]
  note hf = gro_hdr_fields [OF ip(1) T(2), folded hdr_def h_def, folded H_def]
  have hd: "hd g \<in> set g" using d(1) by simp
  have lc: "h + 20 \<le> length c" "H < length c" using ml(2) [OF hd] T(1) by (simp_all add: H_def)
  have lp: "length p = length c" using accounted_length(1) [of v6 c en] lc by (simp add: p_def h_def)
  have h20: "20 \<le> h" "v6 \<Longrightarrow> h = 40" "\<not> v6 \<Longrightarrow> h = 20" by (simp_all add: h_def ip_len_def)
  have pb: "p ! j = bs (hd g) ! j" if "j < H" "j \<notin> (if v6 then {4, 5} else {2, 3, 10, 11})" "j < h + 13 \<or> h + 18 \<le> j" for j
    using that nth_tcp_accounted [of v6 c j en] lc d(6) [of j] by (auto simp: p_def h_def)
  have ver: "of_kind IPPROTO_TCP v6 (bs q)" "tcp_hlen h (bs q) = unat (tcphLen x)" "tcp_key v6 (bs q) = key x" if "q \<in> set g" for q
    using g(2) that ip(2) by auto
  have p0: "p ! 0 = bs (hd g) ! 0" by (rule pb) (use h20 in \<open>auto simp: H_def\<close>)
  have p12: "p ! (h + 12) = bs (hd g) ! (h + 12)" by (rule pb) (use h20 T(1) in \<open>auto simp: H_def\<close>)
  have hl: "unat (drop_bit 4 (b :: byte)) * 4 = unat (drop_bit 4 b * 4)" for b
  proof -
    have "unat (drop_bit 4 b) < 16" using unat_less_power [of b] unfolding unat_drop_bit_eq by (simp add: drop_bit_eq_div less_mult_imp_div_less)
    then show ?thesis by (simp add: unat_word_ariths)
  qed
  have gs: "0 < unat (itemGsoSize x)" using gso by (simp add: unat_gt_0)
  have p12': "unat (drop_bit 4 (p ! (h + 12))) * 4 = unat (tcphLen x)" using ver(2) [OF hd] by (simp add: hl p12 tcp_hlen_def)
  have pv: "drop_bit 4 (p ! 0) = (if v6 then 6 else 4)" "\<not> v6 \<Longrightarrow> p ! 0 AND 0x0F = 5"
    using ver(1) [OF hd] by (simp_all add: p0 of_kind_def)
  have gh: "gso_headers hdr v6 p"
    unfolding gso_headers_def hf if_P [OF hf(5)] lp using gs p12' pv lc T h20 ip(2) by (auto simp: H_def)
  define segs where "segs = gso_packets en hdr v6 p"
  have "drop H p = concat (map (\<lambda>q. drop H (bs q)) g)"
    unfolding d(5) [symmetric] p_def by (rule drop_accounted) (use lc T(1) in \<open>simp_all add: H_def h_def\<close>)
  then have pay: "map (drop H) segs = map (\<lambda>q. drop H (bs q)) g"
    using gso_packets_payloads [OF gh, of "map (\<lambda>q. drop H (bs q)) g" en] group_chunks [OF g(1)] by (simp add: segs_def hf)
  have ls: "length segs = length g" using arg_cong [OF pay, of length] by simp
  have "tcp_same v6 (segs ! i) (bs (g ! i))" if i: "i < length g" for i
  proof -
    have gi: "g ! i \<in> set g" using i by simp
    have di: "drop H (segs ! i) = drop H (bs (g ! i))" using arg_cong [OF pay, of "\<lambda>l. l ! i"] i ls by simp
    have si: "i < length (gso_packets en hdr v6 p)" using i ls by (simp add: segs_def)
    have lsi: "H < length (segs ! i)" using gso_packet_size [OF gh si] gso_headersD(7) [OF gh] by (auto simp: segs_def hf split: if_splits)
    have len: "length (segs ! i) \<le> 65535"
      using arg_cong [OF di, of length] ml(1) [OF gi] lsi le d(3) gi by simp
    have sb: "segs ! i ! j = bs (hd g) ! j" if "j < H" "j \<notin> (if v6 then {4, 5} else {2, 3, 4, 5, 10, 11})"
        "j < h + 4 \<or> h + 8 \<le> j" "j < h + 13 \<or> h + 18 \<le> j" for j
    proof -
      have "segs ! i ! j = p ! j" unfolding segs_def
        by (rule gso_packet_nth [OF gh si]) (use that in \<open>auto simp: seg_changes_def hf\<close>)
      also have "\<dots> = bs (hd g) ! j" by (rule pb) (use that in \<open>auto split: if_splits\<close>)
      finally show ?thesis .
    qed
    have "segs ! i ! k = bs (hd g) ! k" if "k \<in> {0, if v6 then 6 else 9}" for k
      by (rule sb) (use that h20 T(1) in \<open>auto simp: H_def split: if_splits\<close>)
    then have kd: "of_kind IPPROTO_TCP v6 (segs ! i)" using ver(1) [OF hd] by (simp add: of_kind_def)
    have "tcp_key v6 (segs ! i) = tcp_key v6 (bs (hd g))"
      by (rule tcp_key_cong) (use sb h20 T(1) lsi d(3) hd in \<open>auto simp: flow_bytes_def H_def simp flip: h_def split: if_splits\<close>)
    then have k: "tcp_key v6 (segs ! i) = tcp_key v6 (bs (g ! i))" using ver(3) hd gi by simp
    have "segs ! i ! (h + 12) = bs (hd g) ! (h + 12)" by (rule sb) (use h20 T(1) in \<open>auto simp: H_def\<close>)
    then have hl: "tcp_hlen h (segs ! i) = tcp_hlen h (bs (g ! i))" "H = h + tcp_hlen h (bs (g ! i))"
      using ver(2) [OF hd] ver(2) [OF gi] by (simp_all add: tcp_hlen_def H_def)
    have "field32 p (h + 4) = field32 (bs (hd g)) (h + 4)" unfolding field32_def
      by (rule arg_cong [OF take_drop_eq]) (use pb h20 T(1) lp lc d(3) hd in \<open>auto simp: H_def\<close>)
    then have "tcp_seq h p = tcp_seq h (bs (hd g))" by (simp add: tcp_seq_def)
    moreover have "field32 (segs ! i) (h + 4) = (field32 p (h + 4) + i * unat (itemGsoSize x)) mod 2 ^ 32"
      using gso_packet_fields(2) [OF gh si refl] len unfolding segs_def by (cases v6) (simp_all add: hf)
    then have "tcp_seq h (segs ! i) = tcp_seq h p + of_nat (i * unat (itemGsoSize x))"
      by (simp only: tcp_seq_def of_nat_mod32 of_nat_add)
    moreover have "tcp_seq h (bs (g ! i)) = tcp_seq h (bs (hd g)) + of_nat (i * unat (itemGsoSize x))"
      by (rule seq_nth [OF g(4) _ i]) (use d(7) in simp)
    ultimately show ?thesis using k hl di kd ver(1) [OF gi] by (simp add: tcp_same_def Let_def flip: h_def)
  qed
  then have "list_all2 (tcp_same v6) segs (map bs g)" using ls by (simp add: list_all2_conv_all_nth)
  then show ?thesis using gh hf(5) lp le by (simp add: regains_def segs_def hdr_def p_def)
qed

lemma udp_group_regained:
  assumes G: "udp_group bs x c g" and ip: "unat (iphLen x) = ip_len v6" "v6 = isV6 (key x)"
    and gso: "itemGsoSize x \<noteq> 0" and le: "length c \<le> 65535"
  shows "regains en (udp_gro_hdr x) v6 (udp_accounted en v6 c) (map bs g)"
proof -
  define h where "h = ip_len v6"
  define H where "H = h + 8"
  define p where "p = udp_accounted en v6 c"
  define hdr where "hdr = udp_gro_hdr x"
  have g: "group_ok bs H H (unat (itemGsoSize x)) (unat (numMerged x)) (unat (bufsIndex x)) c g"
      "\<forall>q\<in>set g. udp_key v6 (bs q) = key x \<and> of_kind IPPROTO_UDP v6 (bs q)"
    using G by (simp_all add: udp_group_def Let_def H_def h_def ip(2))
  note d = group_okD [OF g(1)] and ml = group_member_le [OF g(1)]
  note hf = gro_hdr_fields_udp [OF ip(1), folded hdr_def h_def, folded H_def]
  have hd: "hd g \<in> set g" using d(1) by simp
  have lc: "h + 8 \<le> length c" "H < length c" using ml(2) [OF hd] by (simp_all add: H_def)
  have lp: "length p = length c" using accounted_length(2) [of v6 c en] lc by (simp add: p_def h_def)
  have h20: "20 \<le> h" "v6 \<Longrightarrow> h = 40" "\<not> v6 \<Longrightarrow> h = 20" by (simp_all add: h_def ip_len_def)
  have pb: "p ! j = bs (hd g) ! j" if "j < h + 4" "j \<notin> (if v6 then {4, 5} else {2, 3, 10, 11})" for j
    using that nth_udp_accounted [of v6 c j en] lc d(6) [of j] by (auto simp: p_def h_def H_def)
  have ver: "of_kind IPPROTO_UDP v6 (bs q)" "udp_key v6 (bs q) = key x" if "q \<in> set g" for q
    using g(2) that by auto
  have p0: "p ! 0 = bs (hd g) ! 0" by (rule pb) (use h20 in auto)
  have gs: "0 < unat (itemGsoSize x)" using gso by (simp add: unat_gt_0)
  have pv: "drop_bit 4 (p ! 0) = (if v6 then 6 else 4)" "\<not> v6 \<Longrightarrow> p ! 0 AND 0x0F = 5"
    using ver(1) [OF hd] by (simp_all add: p0 of_kind_def)
  have gh: "gso_headers hdr v6 p"
    unfolding gso_headers_def hf if_not_P [OF hf(5)] lp using gs pv lc h20 by (auto simp: H_def)
  define segs where "segs = gso_packets en hdr v6 p"
  have "drop H p = concat (map (\<lambda>q. drop H (bs q)) g)"
    unfolding d(5) [symmetric] p_def by (rule drop_accounted) (use lc in \<open>simp_all add: H_def h_def\<close>)
  then have pay: "map (drop H) segs = map (\<lambda>q. drop H (bs q)) g"
    using gso_packets_payloads [OF gh, of "map (\<lambda>q. drop H (bs q)) g" en] group_chunks [OF g(1)] by (simp add: segs_def hf)
  have ls: "length segs = length g" using arg_cong [OF pay, of length] by simp
  have "udp_same v6 (segs ! i) (bs (g ! i))" if i: "i < length g" for i
  proof -
    have gi: "g ! i \<in> set g" using i by simp
    have di: "drop H (segs ! i) = drop H (bs (g ! i))" using arg_cong [OF pay, of "\<lambda>l. l ! i"] i ls by simp
    have si: "i < length (gso_packets en hdr v6 p)" using i ls by (simp add: segs_def)
    have lsi: "H < length (segs ! i)" using gso_packet_size [OF gh si] gso_headersD(7) [OF gh] by (auto simp: segs_def hf split: if_splits)
    have sb: "segs ! i ! j = bs (hd g) ! j" if "j < h + 4" "j \<notin> (if v6 then {4, 5} else {2, 3, 4, 5, 10, 11})" for j
    proof -
      have "segs ! i ! j = p ! j" unfolding segs_def
        by (rule gso_packet_nth [OF gh si]) (use that in \<open>auto simp: seg_changes_def hf H_def\<close>)
      also have "\<dots> = bs (hd g) ! j" by (rule pb) (use that in \<open>auto split: if_splits\<close>)
      finally show ?thesis .
    qed
    have "segs ! i ! k = bs (hd g) ! k" if "k \<in> {0, if v6 then 6 else 9}" for k
      by (rule sb) (use that h20 in \<open>auto simp: H_def split: if_splits\<close>)
    then have kd: "of_kind IPPROTO_UDP v6 (segs ! i)" using ver(1) [OF hd] by (simp add: of_kind_def)
    have "udp_key v6 (segs ! i) = udp_key v6 (bs (hd g))"
      by (rule udp_key_cong) (use sb h20 lsi d(3) hd in \<open>auto simp: flow_bytes_def H_def simp flip: h_def split: if_splits\<close>)
    then show ?thesis using ver hd gi di kd by (simp add: udp_same_def H_def h_def)
  qed
  then have "list_all2 (udp_same v6) segs (map bs g)" using ls by (simp add: list_all2_conv_all_nth)
  then show ?thesis using gh hf(5) lp le by (simp add: regains_def segs_def hdr_def p_def)
qed

section \<open>The frames of a batch\<close>

text \<open>The frame \<open>f\<close> (virtio header and packet) stands for the packets \<open>g\<close>: the one packet of the caller, or several,
  which the receiver of the frame gets back when it cuts the packet as the header says. A UDP flow stays in order.\<close>

definition gro_frame :: "endian \<Rightarrow> (nat \<Rightarrow> byte list) \<Rightarrow> byte list \<Rightarrow> nat list \<Rightarrow> bool" where
  "gro_frame en bs f g \<longleftrightarrow> (\<exists>q. g = [q] \<and> drop 10 f = bs q) \<or>
     2 \<le> length g \<and> (\<exists>h v6 p. f = hdr_bytes en h @ p \<and> regains en h v6 p (map bs g) \<and> (gso_tcp h \<or> sorted_wrt (<) g))"

lemma written_frame:
  assumes inv: "gro_inv off bufs0 (length bufs0) st" and gr: "gro_groups off bufs0 (length bufs0) st grp" and ac: "gro_accounted en off st bufs'"
    and off: "10 \<le> off" and w: "w \<in> set (map nat (gToWrite st))"
  shows "gro_frame en (packets off bufs0) (drop (off - 10) (vis (bufs' ! w))) (grp w)"
proof -
  define b where "b = gBufs st ! w"
  define c where "c = drop off (vis b)"
  have wl: "w < length (gBufs st)" using gro_inv_written(2) [OF inv] w inv by (auto simp: gro_inv_def)
  have wr: "written (packets off bufs0) (set (tbl_items (gTcp st))) (set (tbl_items (gUdp st))) w c (grp w)" and caps: "caps_ok off (gBufs st)"
    using gr w by (auto simp: gro_groups_def c_def b_def packets_def)
  have wf: "wf_slice b" and le: "off < slen b" "length c \<le> 65535"
    using caps_okD [OF caps wl] packets_le [OF caps wl] inv wl by (auto simp: b_def c_def packets_def gro_inv_def)
  have one: "gro_frame en (packets off bufs0) (drop (off - 10) (vis (framed en h off c b))) (grp w)"
    if "grp w = [w]" "c = packets off bufs0 w" for h
    using framed_simps(5) [OF wf off, of c en h] wf le(1) that by (simp add: gro_frame_def c_def)
  consider (T) x where "x \<in> set (tbl_items (gTcp st))" "unat (bufsIndex x) = w"
    | (U) x where "x \<in> set (tbl_items (gUdp st))" "unat (bufsIndex x) = w"
    | (N) "\<forall>x\<in>set (tbl_items (gTcp st)). unat (bufsIndex x) \<noteq> w" "\<forall>x\<in>set (tbl_items (gUdp st)). unat (bufsIndex x) \<noteq> w" by blast
  then show ?thesis
  proof cases
    case (T x)
    define v6 where "v6 = isV6 (key x)"
    have "tcp_kept off (length bufs0) (gBufs st) x" using tbl_inv_items [OF _ T(1)] inv by (auto simp: gro_inv_def)
    then have it: "unat (iphLen x) = ip_len v6" "20 \<le> unat (tcphLen x)" "unat (tcphLen x) \<le> 60" "itemGsoSize x \<noteq> 0"
      by (auto simp: tcp_kept_def tcp_item_ok_def ip_len_def v6_def)
    have G: "tcp_group (packets off bufs0) x c (grp w)" using wr T by (simp add: written_def)
    then have len: "length (grp w) = Suc (unat (numMerged x))" and single: "numMerged x = 0 \<Longrightarrow> grp w = [w] \<and> c = packets off bufs0 w"
      using T(2) by (auto simp: tcp_group_def Let_def group_ok_def)
    have hg: "hd (grp w) \<in> set (grp w)" using len by (cases "grp w") auto
    have b': "bufs' ! w = tcp_frame en off x b" using ac T by (auto simp: gro_accounted_def b_def)
    show ?thesis
    proof (cases "numMerged x > 0")
      case True
      have re: "regains en (tcp_gro_hdr x) v6 (tcp_accounted en v6 c) (map (packets off bufs0) (grp w))"
        by (rule tcp_group_regained [OF G it(1) v6_def it(2-4) le(2)])
      have "length (tcp_accounted en v6 c) = length c" using group_member_le(2) [OF tcp_groupD(1) [OF G refl refl], of "hd (grp w)"] hg it(2)
        by (intro accounted_length) (auto simp: v6_def)
      then have "drop (off - 10) (vis (bufs' ! w)) = hdr_bytes en (tcp_gro_hdr x) @ tcp_accounted en v6 c"
        unfolding b' tcp_frame_def if_P [OF True] v6_def [symmetric] c_def [symmetric]
        by (intro framed_simps(5) [OF wf off]) (use wf le(1) in \<open>simp add: c_def\<close>)
      moreover have "gso_tcp (tcp_gro_hdr x)" by (rule gro_hdr_fields [OF it(1,3)])
      moreover have "2 \<le> length (grp w)" using True len by (simp add: word_less_nat_alt)
      ultimately show ?thesis using re unfolding gro_frame_def by blast
    next
      case False
      then have "numMerged x = 0" by (simp add: word_gt_0)
      from single [OF this] show ?thesis
        unfolding b' tcp_frame_def if_not_P [OF False] c_def [symmetric] by (intro one) simp_all
    qed
  next
    case (U x)
    define v6 where "v6 = isV6 (key x)"
    have "udp_kept off (length bufs0) (gBufs st) x" using tbl_inv_items [OF _ U(1)] inv by (auto simp: gro_inv_def)
    then have it: "unat (iphLen x) = ip_len v6" "itemGsoSize x \<noteq> 0"
      by (auto simp: udp_kept_def udp_item_ok_def ip_len_def v6_def)
    have G: "udp_group (packets off bufs0) x c (grp w)" using wr U by (simp add: written_def)
    then have len: "length (grp w) = Suc (unat (numMerged x))" and single: "numMerged x = 0 \<Longrightarrow> grp w = [w] \<and> c = packets off bufs0 w"
      and srt: "sorted_wrt (<) (grp w)"
      and ok: "group_ok (packets off bufs0) (ip_len v6 + 8) (ip_len v6 + 8) (unat (itemGsoSize x)) (unat (numMerged x)) (unat (bufsIndex x)) c (grp w)"
      using U(2) by (auto simp: udp_group_def Let_def group_ok_def v6_def)
    have hg: "hd (grp w) \<in> set (grp w)" using len by (cases "grp w") auto
    have b': "bufs' ! w = udp_frame en off x b" using ac U by (auto simp: gro_accounted_def b_def)
    show ?thesis
    proof (cases "numMerged x > 0")
      case True
      have re: "regains en (udp_gro_hdr x) v6 (udp_accounted en v6 c) (map (packets off bufs0) (grp w))"
        by (rule udp_group_regained [OF G it(1) v6_def it(2) le(2)])
      have "length (udp_accounted en v6 c) = length c" using group_member_le(2) [OF ok, of "hd (grp w)"] hg
        by (intro accounted_length) auto
      then have "drop (off - 10) (vis (bufs' ! w)) = hdr_bytes en (udp_gro_hdr x) @ udp_accounted en v6 c"
        unfolding b' udp_frame_def if_P [OF True] v6_def [symmetric] c_def [symmetric]
        by (intro framed_simps(5) [OF wf off]) (use wf le(1) in \<open>simp add: c_def\<close>)
      moreover have "2 \<le> length (grp w)" using True len by (simp add: word_less_nat_alt)
      ultimately show ?thesis using re srt unfolding gro_frame_def by blast
    next
      case False
      then have "numMerged x = 0" by (simp add: word_gt_0)
      from single [OF this] show ?thesis
        unfolding b' udp_frame_def if_not_P [OF False] c_def [symmetric] by (intro one) simp_all
    qed
  next
    case N
    then have "bufs' ! w = b" "grp w = [w]" "c = packets off bufs0 w" using ac wr by (auto simp: gro_accounted_def written_def b_def)
    then show ?thesis using off by (simp add: gro_frame_def c_def)
  qed
qed

lemma groups_start: "caps_ok off bufs \<Longrightarrow> gro_groups off bufs 0 \<lparr>gBufs = bufs, gTcp = t, gUdp = u, gToWrite = []\<rparr> grp"
  by (simp add: gro_groups_def partition_of_def)

text \<open>The packets of a batch fall into groups, one for each frame in \<^verbatim>\<open>toWrite\<close>.\<close>

lemma handleGRO_groups:
  assumes bufs: "\<forall>b\<in>set bufs. wf_slice b \<and> off < slen b \<and> scap b \<le> off + 65535" and off: "10 \<le> off"
    and fresh: "tables_fresh t u" and n: "length bufs \<le> 128"
  shows "\<exists>st' grp. handleGRO en (int off) can \<lparr>gBufs = bufs, gTcp = t, gUdp = u, gToWrite = []\<rparr> = Some (st', []) \<and>
    mset (concat (map grp (map nat (gToWrite st')))) = mset [0..<length bufs] \<and>
    (\<forall>w\<in>set (map nat (gToWrite st')). gro_frame en (\<lambda>p. drop off (vis (bufs ! p))) (drop (off - 10) (vis (gBufs st' ! w))) (grp w))"
proof -
  define st0 where "st0 = \<lparr>gBufs = bufs, gTcp = t, gUdp = u, gToWrite = []\<rparr>"
  have wf: "\<forall>b\<in>set bufs. wf_slice b" and caps: "caps_ok off bufs" using bufs by (simp_all add: caps_ok_def)
  have ok: "\<not> bad_offset (int off) (bufs ! j)" if "j < length bufs" for j
    using bufs off that by (auto simp: bad_offset_def virtioNetHdrLen_def dest!: nth_mem)
  have st0: "gro_inv (nat (int off)) bufs 0 st0" "gro_groups off bufs 0 st0 (\<lambda>_. [])" "gBufs st0 = bufs"
    using gro_inv_start [OF wf fresh] groups_start [OF caps] by (simp_all add: st0_def)
  obtain st1 v where lp: "gro_loop en (int off) can (length bufs) 0 st0 = Some (st1, Inr v)" and inv: "gro_inv off bufs (length bufs) st1"
  proof -
    obtain st1 r where "gro_loop en (int off) can (length bufs) 0 st0 = Some (st1, r)"
      and "case r of Inl e \<Rightarrow> e = ErrInvalidOffset \<and> (\<exists>j<length bufs. bad_offset (int off) (bufs ! j) \<and> gro_inv off bufs j st1)
        | Inr _ \<Rightarrow> (\<forall>j<length bufs. \<not> bad_offset (int off) (bufs ! j)) \<and> gro_inv off bufs (length bufs) st1"
      using gro_loop_returns [OF st0(1), of "length bufs" en can] n by (auto simp: returns_iff)
    then show thesis using that ok by (cases r) auto
  qed
  obtain grp where gr: "gro_groups off bufs (length bufs) st1 grp"
    using gro_loop_groups [of off bufs 0 st0 _ "length bufs" en can st1 v] st0(1,2) lp n by auto
  obtain bufs1 bufs' where ac: "applyTCPCoalesceAccounting en (gBufs st1) (int off) (gTcp st1) = Some (bufs1, Inr ())"
      "applyUDPCoalesceAccounting en bufs1 (int off) (gUdp st1) = Some (bufs', Inr ())" "gro_accounted en off st1 bufs'"
    using accounting_ok [OF inv off, of en] by auto
  have run: "handleGRO en (int off) can st0 = Some (st1\<lparr>gBufs := bufs'\<rparr>, [])"
    using lp ac(1,2) by (simp add: handleGRO_def st0(3))
  have "mset (concat (map grp (map nat (gToWrite st1)))) = mset [0..<length bufs]" using gr by (simp add: gro_groups_def partition_of_def)
  then show ?thesis using run written_frame [OF inv gr ac(3) off]
    unfolding st0_def packets_def [abs_def] by (intro exI [of _ "st1\<lparr>gBufs := bufs'\<rparr>"] exI [of _ grp]) simp
qed

end
