(* ===== verification/Write_Frames.thy ===== *)
theory Write_Frames
  imports Gro_Roundtrip Linux_Tun
begin

text \<open>
  From the caller of \<open>Write\<close> to the device and on to the receiver (\<^verbatim>\<open>tun_linux.go\<close>, \<^verbatim>\<open>offload_linux.go\<close>): what the
  device is handed for a batch of packets.
\<close>

lemma batch_outcome_open:
  assumes "\<not> (\<exists>a\<in>set as. gone a)" and "length as = length F" and "batch_outcome as F = (k, errs, frames)"
  shows "frames = F \<and> k + int (length errs) = int (length F)"
proof -
  have "takeWhile (\<lambda>a. \<not> gone a) as = as" using assms(1) by (auto simp: takeWhile_eq_all_conv)
  note tw = this
  have e: "k = int (length (filter (\<lambda>a. a = None) as))" "errs = map the (filter (\<lambda>a. a \<noteq> None) as)" "frames = F"
    using assms unfolding batch_outcome_def Let_def tw by simp_all
  show ?thesis using sum_length_filter_compl [of "\<lambda>a. a = None" as] assms(2) by (simp add: e)
qed

lemma Write_groups:
  assumes bufs: "\<forall>b\<in>set bufs. wf_slice b \<and> off < slen b \<and> scap b \<le> off + 65535" and off: "10 \<le> off" and n: "length bufs \<le> 128"
    and tun: "tun_ready tun" "vnetHdr tun" and dev: "\<forall>i b. \<not> gone (writer i b)"
  shows "\<exists>tun' bufs' k errs frames groups. Write en writer tun bufs (int off) = Some (tun', bufs', k, errs, frames) \<and>
    k + int (length errs) = int (length frames) \<and> mset (concat groups) = mset [0..<length bufs] \<and>
    list_all2 (gro_frame en (\<lambda>p. drop off (vis (bufs ! p)))) frames groups"
proof -
  have wf: "\<forall>b\<in>set bufs. wf_slice b" and ok: "\<not> (\<exists>b\<in>set bufs. bad_offset (int off) b)"
    using bufs off by (auto simp: bad_offset_def virtioNetHdrLen_def)
  have fresh: "tables_fresh (tcpGROTab tun) (udpGROTab tun)" using tun(1) by (simp add: tun_ready_def)
  obtain st grp where h: "handleGRO en (int off) (udpGSO tun) \<lparr>gBufs = bufs, gTcp = tcpGROTab tun, gUdp = udpGROTab tun, gToWrite = []\<rparr> = Some (st, [])"
      "mset (concat (map grp (map nat (gToWrite st)))) = mset [0..<length bufs]"
      "\<forall>w\<in>set (map nat (gToWrite st)). gro_frame en (\<lambda>p. drop off (vis (bufs ! p))) (drop (off - 10) (vis (gBufs st ! w))) (grp w)"
    using handleGRO_groups [OF bufs off fresh n, of en "udpGSO tun"] by blast
  obtain tun' bufs' k errs frames where w: "Write en writer tun bufs (int off) = Some (tun', bufs', k, errs, frames)"
      "(k, errs, frames) = batch_outcome (answers writer 0 (frames_at bufs' (off - 10) (toWrite tun'))) (frames_at bufs' (off - 10) (toWrite tun'))"
    using Write_gro_returns [OF wf n tun, of en writer "int off"] ok by (auto simp: returns_iff)
  have st: "bufs' = gBufs st" "toWrite tun' = gToWrite st"
    using w(1) h(1) tun(2) by (auto simp: Write_def reset_tables_def split: bind_splits)
  define F where "F = frames_at bufs' (off - 10) (toWrite tun')"
  have "frames = F \<and> k + int (length errs) = int (length F)"
  proof (rule batch_outcome_open)
    show "\<not> (\<exists>a\<in>set (answers writer 0 F). gone a)" using dev by (simp add: answers_def)
  qed (use w(2) in \<open>simp_all add: F_def answers_def\<close>)
  moreover have "list_all2 (gro_frame en (\<lambda>p. drop off (vis (bufs ! p)))) F (map grp (map nat (gToWrite st)))"
    using h(3) by (simp add: F_def frames_at_def st list_all2_conv_all_nth)
  ultimately show ?thesis using w(1) h(2) by blast
qed

section \<open>Properties\<close>

text \<open>C3. Nothing is lost, repeated or invented on the way to the device: for at most 128 well-formed buffers that hold at most
  65535 bytes behind the offset, and a device that is open, \<open>Write\<close> counts every frame as written or failed, and
  the packets of the batch fall into groups, one for each frame handed over. The frame of a group of one is that packet,
  byte for byte, behind its header; a frame of several carries a virtio header by which segmentation cuts it (\<open>gso_packets\<close>, the segments of \<open>gsoSplit\<close>)
  into packets that agree with those of its group, one by one: the same flow and acknowledgement, the same
  sequence number and data offset (TCP), the same payload; the packets of a UDP flow are in the order of the batch.\<close>

theorem Write_conserves:
  assumes bufs: "\<forall>b\<in>set bufs. wf_slice b \<and> off < slen b \<and> scap b \<le> off + 65535" and off: "10 \<le> off" and n: "length bufs \<le> 128"
    and tun: "tun_ready tun" "vnetHdr tun" and dev: "\<forall>i b. \<not> gone (writer i b)"
  shows "\<exists>tun' bufs' k errs frames groups. Write en writer tun bufs (int off) = Some (tun', bufs', k, errs, frames) \<and>
    k + int (length errs) = int (length frames) \<and> mset (concat groups) = mset [0..<length bufs] \<and>
    list_all2 (gro_frame en (\<lambda>p. drop off (vis (bufs ! p)))) frames groups"
  using assms by (rule Write_groups)

theorem Write_conserves_witness:
  "\<exists>tun' bufs' k errs frames groups. Write LittleEndian (\<lambda>_ _. None) (new_tun\<lparr>vnetHdr := True\<rparr>)
      [of_bytes (replicate 40 0x45), of_bytes (replicate 50 0x60)] (int 10) = Some (tun', bufs', k, errs, frames)
    \<and> mset (concat groups) = {#0, 1 :: nat#} \<and> length groups = length frames"
proof -
  have t: "tun_ready (new_tun\<lparr>vnetHdr := True\<rparr>)" using new_tun_ready by (simp add: tun_ready_def)
  show ?thesis
    using Write_conserves [of "[of_bytes (replicate 40 0x45), of_bytes (replicate 50 0x60)]" 10 "new_tun\<lparr>vnetHdr := True\<rparr>" "\<lambda>_ _. None" LittleEndian, OF _ _ _ t]
    by (force simp: numeral_2_eq_2 of_bytes_def scap_def wf_slice_def dest: list_all2_lengthD)
qed

end
