(* ===== verification/Read_Accepts.thy ===== *)
theory Read_Accepts
  imports Virtio_Read
begin

text \<open>
  What \<open>handleVirtioRead\<close> accepts (\<^verbatim>\<open>tun_linux.go\<close>, \<^verbatim>\<open>offload_linux.go\<close>): a frame whose header and packet fit each other, and outputs
  with room for its segments, pass every check.
\<close>

lemma check_outputs_accepts:
  assumes "i + k \<le> length outs" and "\<forall>out\<in>set outs. off + h + rem \<le> slen out" and "h + rem \<le> 65535"
  shows "check_outputs outs (int off) v (int c) (if v then 40 else 20) (int h) (int gso) k (int i) (int rem) = Some (Inr ())"
  using assms
proof (induction k arbitrary: i rem)
  case (Suc k)
  have i: "i < length outs" using Suc.prems(1) by simp
  then have room: "off + h + rem \<le> slen (outs ! i)" using Suc.prems(2) by simp
  have m: "min (int gso) (int rem) = int (min gso rem)" "int rem - int (min gso rem) = int (rem - min gso rem)" "int i + 1 = int (Suc i)"
    by (simp_all add: of_nat_min)
  have "check_outputs outs (int off) v (int c) (if v then 40 else 20) (int h) (int gso) k (int (Suc i)) (int (rem - min gso rem)) = Some (Inr ())"
    using Suc.prems by (intro Suc.IH) force+
  moreover have "validateOutputOffset (outs ! i) (int off) (int i) = Inr ()" using room by (simp add: validateOutputOffset_def)
  moreover have "int (h + min gso rem) \<le> 65535" "int (h + min gso rem) \<le> int (slen (outs ! i)) - int off" using room Suc.prems(3) by auto
  ultimately show ?case
    unfolding check_outputs.simps elem_ok [OF i] Option.bind.simps m Let_def by (simp add: maxUint16_def m(3) [symmetric] del: of_nat_Suc)
qed simp

lemma nibble: "unat (drop_bit 4 (b :: byte)) < 16" "unat (b AND 0x0f) < 16"
proof -
  show "unat (drop_bit 4 b) < 16" using unat_less_power [of b] unfolding unat_drop_bit_eq by (simp add: drop_bit_eq_div less_mult_imp_div_less)
  have "unat (b AND mask 4) < 2 ^ 4" by (simp only: take_bit_eq_mask [symmetric] unsigned_take_bit_eq) (use take_bit_nat_less_exp [of 4 "unat b"] in simp)
  then show "unat (b AND 0x0f) < 16" by (simp add: mask_numeral)
qed

lemma gso_headers_checks:
  assumes "gso_headers hdr v (vis inp)" and "wf_slice inp"
  shows "check_ip_header (vis inp ! 0) v (uint (csumStart hdr)) (if v then 40 else 20) = Inr ()"
    and "check_transport inp hdr (uint (csumStart hdr)) (uint (hdrLen hdr) - uint (csumStart hdr)) = Some (Inr ())"
    and "validateChecksumPosition (uint (hdrLen hdr)) (csumStart hdr) (csumOffset hdr) = Inr ()"
proof -
  note d = gso_headersD [OF assms(1)]
  have u: "uint w = int (unat w)" for w :: u16 by simp
  show "validateChecksumPosition (uint (hdrLen hdr)) (csumStart hdr) (csumOffset hdr) = Inr ()"
    using d(2,3) unfolding validateChecksumPosition_Inr u by linarith
  show "check_ip_header (vis inp ! 0) v (uint (csumStart hdr)) (if v then 40 else 20) = Inr ()"
  proof (cases v)
    case True
    then show ?thesis using d(4) by (simp add: check_ip_header_def uint_nat del: of_nat_unat)
  next
    case False
    then have "unat (csumStart hdr) = unat (vis inp ! 0 AND 0x0f) * 4" using assms(1) by (simp add: gso_headers_def)
    then show ?thesis using False d(5) nibble(2) [of "vis inp ! 0"] by (simp add: check_ip_header_def Let_def uint_nat del: of_nat_unat)
  qed
  show "check_transport inp hdr (uint (csumStart hdr)) (uint (hdrLen hdr) - uint (csumStart hdr)) = Some (Inr ())"
  proof (cases "gso_tcp hdr")
    case True
    then have t: "gsoType hdr \<noteq> GSO_UDP_L4" "unat (csumStart hdr) + 20 \<le> unat (hdrLen hdr)" "unat (hdrLen hdr) \<le> unat (csumStart hdr) + 60"
        "unat (csumOffset hdr) = 16" "unat (drop_bit 4 (vis inp ! (unat (csumStart hdr) + 12))) * 4 = unat (hdrLen hdr) - unat (csumStart hdr)"
      using assms(1) by (auto simp: gso_headers_def gso_tcp_def tun_consts split: if_splits)
    have r: "rd inp (uint (csumStart hdr) + 12) = Some (vis inp ! (unat (csumStart hdr) + 12))"
      using rd_ok [of "unat (csumStart hdr) + 12" inp] t(2) d(6) assms(2) by simp
    have off: "csumOffset hdr = 16" using t(4) by (simp add: word_unat_eq_iff)
    have len: "uint (hdrLen hdr) - uint (csumStart hdr) = int (unat (drop_bit 4 (vis inp ! (unat (csumStart hdr) + 12)))) * 4"
      using arg_cong [OF t(5), of int] t(2) by (simp add: of_nat_diff)
    have "20 \<le> uint (hdrLen hdr) - uint (csumStart hdr)" "uint (hdrLen hdr) - uint (csumStart hdr) \<le> 60" using t(2,3) unfolding u by linarith+
    then show ?thesis using t(1) off by (simp add: check_transport_def Let_def r len)
  next
    case False
    then have "gsoType hdr = GSO_UDP_L4" "unat (hdrLen hdr) = unat (csumStart hdr) + 8" "unat (csumOffset hdr) = 6"
      using assms(1) by (auto simp: gso_headers_def)
    then show ?thesis by (simp add: check_transport_def udphLen_def word_unat_eq_iff uint_nat del: of_nat_unat)
  qed
qed

lemma validateGSOSplit_accepts:
  assumes gh: "gso_headers hdr v (vis inp)" and wf: "wf_slice inp" and len: "slen inp \<le> 65535"
    and outs: "outs \<noteq> []" "length outs \<le> length sizes" "gso_count hdr (vis inp) \<le> int (length outs)"
      "\<forall>out\<in>set outs. off + slen inp \<le> slen out"
  shows "validateGSOSplit inp hdr outs sizes (int off) v = Some (Inr (gso_count hdr (vis inp)))"
proof -
  note d = gso_headersD [OF gh] and ck = gso_headers_checks [OF gh wf]
  have b0: "rd inp 0 = Some (vis inp ! 0)" using rd_ok [of 0 inp] wf d(6) by simp
  have ver: "drop_bit 4 (vis inp ! 0) = (if v then 6 else 4)" "gsoType hdr \<in> {GSO_TCPV4, GSO_TCPV6, GSO_UDP_L4}"
      "\<not> (gsoType hdr = GSO_TCPV4 \<and> v)" "\<not> (gsoType hdr = GSO_TCPV6 \<and> \<not> v)"
    using gh by (auto simp: gso_headers_def gso_tcp_def tun_consts split: if_splits)
  have o: "validateVirtioReadOutputs outs sizes = Inr ()" using outs(1,2) by (simp add: validateVirtioReadOutputs_Inr)
  have l: "length (vis inp) = slen inp" using wf by simp
  have n: "segment_count (int (slen inp) - uint (hdrLen hdr)) (uint (gsoSize hdr)) = gso_count hdr (vis inp)" by (simp add: gso_count_def l)
  have hl: "uint (csumStart hdr) \<le> uint (hdrLen hdr)" "uint (hdrLen hdr) < int (slen inp)" "gsoSize hdr \<noteq> 0" "slen inp \<noteq> 0"
    using d(2,6,7) l by (auto simp: uint_nat simp del: of_nat_unat)
  have co: "check_outputs outs (int off) v (uint (csumStart hdr)) (if v then 40 else 20) (uint (hdrLen hdr)) (uint (gsoSize hdr))
      (nat (gso_count hdr (vis inp))) 0 (int (slen inp) - uint (hdrLen hdr)) = Some (Inr ())"
  proof -
    have "int (slen inp) - uint (hdrLen hdr) = int (slen inp - unat (hdrLen hdr))" using d(6) l by simp
    then show ?thesis
      using check_outputs_accepts [of 0 "nat (gso_count hdr (vis inp))" outs off "unat (hdrLen hdr)" "slen inp - unat (hdrLen hdr)" v "unat (csumStart hdr)" "unat (gsoSize hdr)"]
        outs(3,4) len d(6) l by simp
  qed
  have gt: "gsoType hdr = GSO_TCPV4 \<or> gsoType hdr = GSO_TCPV6 \<or> gsoType hdr = GSO_UDP_L4" using ver(2) by auto
  show ?thesis
    unfolding validateGSOSplit_def o sum.case b0 Option.bind.simps Let_def ck(1) ck(2) ck(3) n co
    using hl ver gt outs(2,3) by (auto simp: ck co)
qed

lemma hdr_len_accepts:
  assumes gh: "gso_headers hdr v (vis inp)" and wf: "wf_slice inp" and len: "slen inp \<le> 65535"
  shows "virtio_hdr_len hdr inp = Some (Inr (hdrLen hdr))"
proof (cases "gso_tcp hdr")
  case True
  note d = gso_headersD [OF gh]
  define T where "T = drop_bit 4 (vis inp ! (unat (csumStart hdr) + 12))"
  have t: "gsoType hdr \<noteq> GSO_UDP_L4" "unat (csumStart hdr) + 20 \<le> unat (hdrLen hdr)" "unat (hdrLen hdr) \<le> unat (csumStart hdr) + 60"
      "unat T * 4 = unat (hdrLen hdr) - unat (csumStart hdr)"
    using gh True by (auto simp: gso_headers_def gso_tcp_def tun_consts T_def split: if_splits)
  have r: "rd inp (uint (csumStart hdr) + 12) = Some (vis inp ! (unat (csumStart hdr) + 12))"
    using rd_ok [of "unat (csumStart hdr) + 12" inp] t(2) d(6) wf by simp
  have T16: "unat T < 16" using nibble(1) by (simp add: T_def)
  then have w: "unat (ucast T * 4 :: u16) = unat T * 4" by (simp add: unat_word_ariths unsigned_ucast_eq take_bit_nat_eq_self)
  have s: "csumStart hdr + ucast T * 4 = hdrLen hdr"
    unfolding word_unat_eq_iff using t(2,4) w d(6) len wf unat_less_power [of "hdrLen hdr"] by (simp add: unat_word_ariths)
  have in_range: "\<not> uint (csumStart hdr) + 12 \<ge> int (slen inp)" using t(2) d(6) wf by (simp add: uint_nat del: of_nat_unat)
  have "\<not> (ucast T * 4 :: u16) < 20" "\<not> (ucast T * 4 :: u16) > 60" using w t(2-4) by (simp_all add: word_less_nat_alt)
  moreover have "\<not> uint (csumStart hdr) > 65535 - uint (ucast T * 4 :: u16)"
    using w t(2,4) d(6) len wf by (simp add: uint_nat del: of_nat_unat)
  ultimately show ?thesis
    using t(1) in_range by (simp add: virtio_hdr_len_def Let_def r T_def [symmetric] s maxUint16_def)
next
  case False
  then have t: "gsoType hdr = GSO_UDP_L4" "unat (hdrLen hdr) = unat (csumStart hdr) + 8" using gh by (auto simp: gso_headers_def)
  have l: "unat (hdrLen hdr) < 65536" using unat_less_power [of "hdrLen hdr"] by simp
  have "csumStart hdr + 8 = hdrLen hdr" unfolding word_unat_eq_iff using t(2) l by (simp add: unat_word_ariths)
  moreover have "uint (csumStart hdr) \<le> 65535 - 8" using t(2) l by (simp add: uint_nat del: of_nat_unat)
  ultimately show ?thesis using t(1) by (simp add: virtio_hdr_len_def udphLen_def maxUint16_def)
qed

text \<open>A frame whose header and packet fit each other is read, and the outputs hold its segments.\<close>

lemma handleVirtioRead_accepts:
  assumes gh: "gso_headers h v p" and p: "length p \<le> 65535" and inp: "wf_slice inp" "vis inp = hdr_bytes en h @ p"
    and outs: "\<forall>out\<in>set outs. wf_slice out" "length outs \<le> length sizes" "length (gso_packets en h v p) \<le> length outs"
      "\<forall>out\<in>set outs. off + length p \<le> slen out"
  shows "\<exists>outs' sizes'. handleVirtioRead en inp outs sizes (int off) = Some (outs', sizes', Inr (int (length (gso_packets en h v p)))) \<and>
    (\<forall>i<length (gso_packets en h v p). segment_of (int off) (outs' ! i) (sizes' ! i) = gso_packets en h v p ! i)"
proof -
  define inp' where "inp' = \<lparr>sarr = drop 10 (sarr inp), slen = slen inp - 10\<rparr>"
  have l: "10 \<le> slen inp" using inp by (metis length_append length_hdr_bytes length_vis le_add1)
  have dec: "decode en inp = Inr h"
  proof -
    have "take 10 (sarr inp) = take 10 (vis inp)" using l inp(1) by (simp add: vis_def min_def)
    then show ?thesis using decode_ok [OF l, of en] inp(2) bytes_hdr_hdr_bytes [of en h "[]"] by simp
  qed
  have sf: "sub_from inp virtioNetHdrLen = Some inp'"
    using sub_from_ok [of 10 inp] l inp(1) by (simp add: virtioNetHdrLen_def inp'_def)
  have i': "wf_slice inp'" "vis inp' = p" using inp l by (auto simp: inp'_def wf_slice_def vis_def drop_take [symmetric])
  have sl: "slen inp' = length p" using i' by (metis length_vis)
  have gh': "gso_headers h v (vis inp')" and sl': "slen inp' \<le> 65535" using gh i'(2) sl p by simp_all
  note d = gso_headersD [OF gh]
  have "p \<noteq> []" using d(6) by auto
  then have b0: "rd inp' 0 = Some (p ! 0)" using rd_ok [of 0 inp'] i' sl by simp
  have ver: "drop_bit 4 (p ! 0) = (if v then 6 else 4)" using gh by (simp add: gso_headers_def)
  have gt: "gsoType h \<noteq> GSO_NONE" "gsoType h = GSO_TCPV4 \<or> gsoType h = GSO_TCPV6 \<or> gsoType h = GSO_UDP_L4"
      "check_gso_version (drop_bit 4 (p ! 0)) (gsoType h) = Inr ()"
    using gh by (auto simp: gso_headers_def gso_tcp_def check_gso_version_def tun_consts split: if_splits)
  have ne: "slen inp' \<noteq> 0" using sl d(6) by auto
  have ord: "\<not> int (slen inp') < uint (hdrLen h)" "\<not> hdrLen h < csumStart h"
    using sl d(2,6) by (simp_all add: uint_nat word_less_nat_alt del: of_nat_unat)
  obtain n where n: "gso_count h p = int (Suc n)" using gso_count_bounds [OF gh] by metis
  have cnt: "length (gso_packets en h v p) = Suc n" by (simp add: gso_packets_def n nat_add_distrib del: gso_segs.simps)
  have v0: "outs \<noteq> []" "gso_count h (vis inp') \<le> int (length outs)" using outs(3) cnt by (auto simp: i'(2) n)
  note val = validateGSOSplit_accepts [OF gh' i'(1) sl' v0(1) outs(2) v0(2), of off, unfolded sl, OF outs(4)]
  have run: "handleVirtioRead en inp outs sizes (int off) = gsoSplit en inp' h outs sizes (int off) v"
    unfolding handleVirtioRead_def dec sum.case sf Option.bind.simps b0 Let_def gt(3) hdr_len_accepts [OF gh' i'(1) sl'] 
    using gt(1,2) ne ord gso_headers_checks(3) [OF gh' i'(1)] ver by auto
  obtain outs' sizes' where "gsoSplit en inp' h outs sizes (int off) v = Some (outs', sizes', Inr (int (Suc n)))"
      "\<And>i. i < Suc n \<Longrightarrow> segment_of (int off) (outs' ! i) (sizes' ! i) = gso_packets en h v (vis inp') ! i"
    by (rule gsoSplit_success [OF i'(1) outs(1) val, of en]) (simp add: i'(2) n del: of_nat_Suc)
  then show ?thesis using run cnt by (auto simp: i'(2))
qed

end
