(* ===== verification/Gro_Examples.thy ===== *)
theory Gro_Examples
  imports Linux_Tun
begin

text \<open>
  Two batches run through \<open>handleGRO\<close> (\<^verbatim>\<open>offload_linux.go\<close>) step by step: two UDP datagrams that become one frame, and two TCP
  segments of which the first has a bad checksum.
\<close>

section \<open>Two datagrams of one flow\<close>

text \<open>10.0.0.1:1 to 10.0.0.2:2, two bytes, with a valid UDP checksum; behind ten bytes for the virtio header and in front of
  \<open>room\<close> free bytes.\<close>

definition dgram :: "byte list" where
  "dgram = [0x45, 0, 0, 30, 0, 0, 0, 0, 64, 17, 0x66, 0xcf, 10, 0, 0, 1, 10, 0, 0, 2, 0, 1, 0, 2, 0, 10, 0xea, 0xd2, 1, 2]"

definition dgram_buf :: "nat \<Rightarrow> gslice" where
  "dgram_buf room = \<lparr>sarr = replicate 10 0 @ dgram @ replicate room 0, slen = 40\<rparr>"

definition dgram_key :: udpFlowKey where
  "dgram_key = \<lparr>srcAddr = [10, 0, 0, 1] @ replicate 12 0, dstAddr = [10, 0, 0, 2] @ replicate 12 0, srcPort = 1, dstPort = 2, isV6 = False\<rparr>"

definition dgram_slice :: "nat \<Rightarrow> gslice" where "dgram_slice room = \<lparr>sarr = dgram @ replicate room 0, slen = 30\<rparr>"

lemma dgram_length: "length dgram = 30" by (simp add: dgram_def)
lemma dgram_sub_from: "sub_from (dgram_buf r) 10 = Some (dgram_slice r)"
  by (simp add: sub_from_def sub_def dgram_buf_def dgram_slice_def dgram_length)

lemma dgram_rd: "0 \<le> i \<Longrightarrow> i < 30 \<Longrightarrow> rd (dgram_slice r) i = Some (dgram ! nat i)"
  by (simp add: rd_def dgram_slice_def nth_append dgram_length nat_less_iff)

lemma dgram_slen [simp]: "slen (dgram_slice r) = 30" by (simp add: dgram_slice_def)

lemma dgram_candidate: "packetIsGROCandidate (dgram_slice r) True = Some Udp4GROCandidate"
  by (simp add: packetIsGROCandidate_def dgram_rd) (simp add: dgram_def tun_consts)

lemma dgram_get16: "get16 (dgram_slice r) 20 = Some 1" "get16 (dgram_slice r) 22 = Some 2" "get16 (dgram_slice r) 2 = Some 30"
  by (simp_all add: get16_def dgram_slice_def dgram_def)

lemma dgram_iph_len: "gro_iph_len (dgram_slice r) False = Some (Some 20)"
  by (simp add: gro_iph_len_def dgram_rd dgram_get16 maxUint16_def) (simp add: dgram_def)

lemma dgram_not_fragment: "is_fragment (dgram_slice r) = Some False"
  by (simp add: is_fragment_def dgram_rd) (simp add: dgram_def tun_consts)

lemma dgram_parts: "sub (dgram_slice r) 12 16 = Some \<lparr>sarr = drop 12 dgram @ replicate r 0, slen = 4\<rparr>"
  "sub (dgram_slice r) 16 20 = Some \<lparr>sarr = drop 16 dgram @ replicate r 0, slen = 4\<rparr>"
  "sub_from (dgram_slice r) 20 = Some \<lparr>sarr = drop 20 dgram @ replicate r 0, slen = 10\<rparr>"
  "sub_from (dgram_slice r) 28 = Some \<lparr>sarr = drop 28 dgram @ replicate r 0, slen = 2\<rparr>"
  by (simp_all add: sub_from_def sub_def dgram_slice_def dgram_length)

lemma dgram_flow_key: "newUDPFlowKey (dgram_slice r) 12 16 20 = Some dgram_key"
  by (simp add: newUDPFlowKey_def dgram_get16 dgram_parts addr16_def vis_def dgram_key_def) (simp add: dgram_def)

definition dgram_item where "dgram_item m = \<lparr>key = dgram_key, bufsIndex = 0, numMerged = m, itemGsoSize = 2, iphLen = 20, cSumKnownInvalid = False\<rparr>"

definition dgram_table where "dgram_table m = \<lparr>itemsByFlow = [(dgram_key, [dgram_item m])], itemsPool = replicate 127 []\<rparr>"

lemma newItems_fresh: "newItems newUDPGROTable = Some ([], \<lparr>itemsByFlow = [], itemsPool = replicate 127 []\<rparr>)"
proof -
  have T: "newUDPGROTable = \<lparr>itemsByFlow = [], itemsPool = replicate 127 [] @ [[]]\<rparr>"
    by (simp add: newUDPGROTable_def new_table_def IdealBatchSize_def replicate_append_same flip: replicate_Suc)
  show ?thesis unfolding newItems_def T by simp
qed

lemma lookup_fresh: "tbl_lookup newUDPGROTable k = None" by (simp add: tbl_lookup_def newUDPGROTable_def new_table_def)

lemma dgram_inserted: "udpGRO en [dgram_buf 12, dgram_buf 0] 10 0 newUDPGROTable False = Some (GroTableInsert, [dgram_buf 12, dgram_buf 0], dgram_table 0)"
  by (simp add: udpGRO_def elem_def dgram_sub_from dgram_iph_len dgram_not_fragment udphLen_def src_addr_offset_def addr_len_def tun_consts udp_lookupOrInsert_def dgram_flow_key lookup_fresh udp_insert_def dgram_parts
    tbl_append_def newItems_fresh tbl_store_def dgram_table_def dgram_item_def)

lemma dgram_checksum: "checksumValid en (dgram_slice r) 20 IPPROTO_UDP False = Some True"
proof -
  have "unat (checksum en (drop 20 dgram) (pseudoHeaderChecksumNoFold en IPPROTO_UDP (take 4 (drop 12 dgram)) (take 4 (drop 16 dgram)) 10)) = 65535"
    unfolding unat_checksum_pseudo by (simp add: pseudo_sum_def oc_def dgram_def tun_consts)
  then have "checksum en (drop 20 dgram) (pseudoHeaderChecksumNoFold en IPPROTO_UDP (take 4 (drop 12 dgram)) (take 4 (drop 16 dgram)) 10) = 65535"
    by (simp add: word_unat_eq_iff)
  then show ?thesis
    by (simp add: checksumValid_def dgram_parts tun_consts vis_def dgram_length)
qed

lemma dgram_can_coalesce: "udpPacketsCanCoalesce (dgram_slice 0) 20 2 (dgram_item 0) [dgram_buf 12, dgram_buf 0] 10 = Some CoalesceAppend"
  by (simp add: udpPacketsCanCoalesce_def dgram_item_def elem_def dgram_sub_from ipHeadersCanCoalesce_def dgram_rd udphLen_def dgram_parts go_mod_def)

lemma dgram_scap: "scap (dgram_slice r) = 30 + r" by (simp add: scap_def dgram_slice_def dgram_length)

lemma dgram_append: "\<exists>t. sub_from (append_zeros (dgram_buf 12) 2) 40 = Some t"
  by (simp add: append_zeros_def dgram_buf_def sub_from_def sub_def dgram_length scap_def)

lemma dgram_coalesce: "\<exists>b. coalesceUDPPackets en (dgram_slice 0) (dgram_item 0) [dgram_buf 12, dgram_buf 0] 10 False = Some (CoalesceSuccess, dgram_item 1, [b, dgram_buf 0])"
proof -
  obtain t where "sub_from (append_zeros (dgram_buf 12) 2) 40 = Some t" using dgram_append by blast
  then show ?thesis
    by (simp add: coalesceUDPPackets_def dgram_item_def elem_def dgram_sub_from udphLen_def dgram_scap check_csums_def dgram_checksum dgram_parts extend_buf_def set_elem_def copy_into_def)
qed

lemma dgram_update: "udp_updateAt (dgram_table 0) (dgram_item 1) 0 = Some (dgram_table 1)"
  by (simp add: udp_updateAt_def tbl_updateAt_def dgram_table_def tbl_lookup_def set_elem_def tbl_store_def dgram_item_def)

lemma dgram_coalesced: "\<exists>b. udpGRO en [dgram_buf 12, dgram_buf 0] 10 1 (dgram_table 0) False = Some (GroCoalesced, [b, dgram_buf 0], dgram_table 1)"
proof -
  obtain b where b: "coalesceUDPPackets en (dgram_slice 0) (dgram_item 0) [dgram_buf 12, dgram_buf 0] 10 False = Some (CoalesceSuccess, dgram_item 1, [b, dgram_buf 0])"
    using dgram_coalesce by blast
  have "tbl_lookup (dgram_table 0) dgram_key = Some [dgram_item 0]" by (simp add: dgram_table_def tbl_lookup_def)
  then show ?thesis
    by (simp add: udpGRO_def elem_def dgram_sub_from dgram_iph_len dgram_not_fragment udphLen_def src_addr_offset_def addr_len_def tun_consts udp_lookupOrInsert_def dgram_flow_key dgram_can_coalesce b dgram_update)
qed

lemma dgram_loop: "\<exists>bs. gro_loop en 10 True 2 0 \<lparr>gBufs = [dgram_buf 12, dgram_buf 0], gTcp = t, gUdp = newUDPGROTable, gToWrite = []\<rparr> =
   Some (\<lparr>gBufs = bs, gTcp = t, gUdp = dgram_table 1, gToWrite = [0]\<rparr>, Inr ())"
proof -
  have sl: "slen (dgram_buf r) = 40" for r by (simp add: dgram_buf_def)
  show ?thesis using dgram_coalesced [of en]
  by (auto simp: numeral_2_eq_2 gro_step_def elem_def dgram_sub_from sl dgram_candidate gro_eval_def dgram_inserted virtioNetHdrLen_def)
qed

text \<open>The two datagrams go to the device as one frame.\<close>

lemma dgram_Write:
  assumes "Write en writer (new_tun\<lparr>vnetHdr := True, udpGSO := True\<rparr>) [dgram_buf 12, dgram_buf 0] 10 = Some (tun', bufs', k, errs, frames)"
  shows "length frames \<le> 1"
proof -
  obtain bs where "gro_loop en 10 True 2 0 \<lparr>gBufs = [dgram_buf 12, dgram_buf 0], gTcp = newTCPGROTable, gUdp = newUDPGROTable, gToWrite = []\<rparr> =
      Some (\<lparr>gBufs = bs, gTcp = newTCPGROTable, gUdp = dgram_table 1, gToWrite = [0]\<rparr>, Inr ())"
    using dgram_loop by blast
  then show ?thesis using assms
    by (auto simp: Write_def handleGRO_def new_tun_def numeral_2_eq_2 [symmetric] writeBatch_def Let_def split: bind_splits option.splits if_splits)
qed

section \<open>A segment whose item is deleted\<close>

text \<open>10.0.0.1:1 to 10.0.0.2:2, sequence number \<open>s\<close>, one byte, and a TCP checksum field of zero, which is wrong; the ten bytes in
  front of it are all \<open>v\<close>.\<close>

definition segm :: "byte \<Rightarrow> byte list" where
  "segm s = [0x45, 0, 0, 41, 0, 0, 0, 0, 64, 6, 0, 0, 10, 0, 0, 1, 10, 0, 0, 2, 0, 1, 0, 2, 0, 0, 0, s, 0, 0, 0, 0, 0x50, 0x10, 0, 0, 0, 0, 0, 0, 9]"

definition segm_buf :: "byte \<Rightarrow> byte \<Rightarrow> nat \<Rightarrow> gslice" where
  "segm_buf v s room = \<lparr>sarr = replicate 10 v @ segm s @ replicate room 0, slen = 51\<rparr>"

definition segm_slice :: "byte \<Rightarrow> nat \<Rightarrow> gslice" where
  "segm_slice s room = \<lparr>sarr = segm s @ replicate room 0, slen = 41\<rparr>"

definition segm_key :: tcpFlowKey where
  "segm_key = \<lparr>srcAddr = [10, 0, 0, 1] @ replicate 12 0, dstAddr = [10, 0, 0, 2] @ replicate 12 0, srcPort = 1, dstPort = 2, isV6 = False, rxAck = 0\<rparr>"

definition segm_item :: "u16 \<Rightarrow> u32 \<Rightarrow> tcpGROItem" where
  "segm_item i s = \<lparr>key = segm_key, bufsIndex = i, numMerged = 0, itemGsoSize = 1, iphLen = 20, sentSeq = s, tcphLen = 20, pshSet = False\<rparr>"

definition segm_table :: "u16 \<Rightarrow> u32 \<Rightarrow> tcpGROTable" where
  "segm_table i s = \<lparr>itemsByFlow = [(segm_key, [segm_item i s])], itemsPool = replicate 127 []\<rparr>"

lemma segm_length: "length (segm s) = 41" by (simp add: segm_def)

lemma segm_sub_from: "sub_from (segm_buf v s r) 10 = Some (segm_slice s r)"
  by (simp add: sub_from_def sub_def segm_buf_def segm_slice_def segm_length)

lemma segm_slen [simp]: "slen (segm_slice s r) = 41" "slen (segm_buf v s r) = 51" by (simp_all add: segm_slice_def segm_buf_def)

lemma segm_scap: "scap (segm_slice s r) = 41 + r" by (simp add: scap_def segm_slice_def segm_length)

lemma segm_rd: "0 \<le> i \<Longrightarrow> i < 41 \<Longrightarrow> rd (segm_slice s r) i = Some (segm s ! nat i)"
  by (simp add: rd_def segm_slice_def nth_append segm_length nat_less_iff)

lemma segm_gets:
  "get16 (segm_slice s r) 20 = Some 1" "get16 (segm_slice s r) 22 = Some 2" "get16 (segm_slice s r) 2 = Some 41"
  "get32 (segm_slice s r) 24 = Some (ucast s)" "get32 (segm_slice s r) 28 = Some 0"
  by (simp_all add: get16_def get32_def segm_slice_def segm_def)

lemma segm_candidate: "packetIsGROCandidate (segm_slice s r) True = Some Tcp4GROCandidate"
  by (simp add: packetIsGROCandidate_def segm_rd) (simp add: segm_def tun_consts)

lemma segm_iph_len: "gro_iph_len (segm_slice s r) False = Some (Some 20)"
  by (simp add: gro_iph_len_def segm_rd segm_gets maxUint16_def) (simp add: segm_def)

lemma segm_not_fragment: "is_fragment (segm_slice s r) = Some False"
  by (simp add: is_fragment_def segm_rd) (simp add: segm_def tun_consts)

lemma segm_parts:
  "sub (segm_slice s r) 12 16 = Some \<lparr>sarr = drop 12 (segm s) @ replicate r 0, slen = 4\<rparr>"
  "sub (segm_slice s r) 16 20 = Some \<lparr>sarr = drop 16 (segm s) @ replicate r 0, slen = 4\<rparr>"
  "sub_from (segm_slice s r) 20 = Some \<lparr>sarr = drop 20 (segm s) @ replicate r 0, slen = 21\<rparr>"
  "sub_from (segm_slice s r) 40 = Some \<lparr>sarr = drop 40 (segm s) @ replicate r 0, slen = 1\<rparr>"
  by (simp_all add: sub_from_def sub_def segm_slice_def segm_length)

lemma segm_flow_key: "newTCPFlowKey (segm_slice s r) 12 16 20 = Some segm_key"
  by (simp add: newTCPFlowKey_def segm_gets segm_parts addr16_def vis_def segm_key_def) (simp add: segm_def)

lemma segm_bytes: "segm s ! 32 = 0x50" "segm s ! 33 = 0x10" by (simp_all add: segm_def)

lemma tcp_newItems_fresh: "newItems newTCPGROTable = Some ([], \<lparr>itemsByFlow = [], itemsPool = replicate 127 []\<rparr>)"
proof -
  have T: "newTCPGROTable = \<lparr>itemsByFlow = [], itemsPool = replicate 127 [] @ [[]]\<rparr>"
    by (simp add: newTCPGROTable_def new_table_def IdealBatchSize_def replicate_append_same flip: replicate_Suc)
  show ?thesis unfolding newItems_def T by simp
qed

lemma tcp_lookup_fresh: "tbl_lookup newTCPGROTable k = None" by (simp add: tbl_lookup_def newTCPGROTable_def new_table_def)

lemma segm_insert:
  "tcp_insert newTCPGROTable (segm_slice s r) 12 16 20 20 0 = Some (segm_table 0 (ucast s))"
  "tcp_insert \<lparr>itemsByFlow = [(segm_key, [])], itemsPool = replicate 127 []\<rparr> (segm_slice s r) 12 16 20 20 1 = Some (segm_table 1 (ucast s))"
  by (simp_all add: tcp_insert_def segm_flow_key segm_parts segm_gets segm_rd segm_bytes tun_consts tbl_append_def tcp_newItems_fresh
    tbl_store_def segm_table_def segm_item_def tcp_lookup_fresh) (simp add: tbl_lookup_def)

lemma segm_inserted: "tcpGRO en [segm_buf v 1 11, segm_buf v 2 0] 10 0 newTCPGROTable False = Some (GroTableInsert, [segm_buf v 1 11, segm_buf v 2 0], segm_table 0 1)"
  by (simp add: tcpGRO_def elem_def segm_sub_from segm_iph_len segm_not_fragment segm_rd segm_bytes segm_gets src_addr_offset_def addr_len_def
    tun_consts tcp_flags_ok_def tcp_lookupOrInsert_def segm_flow_key tcp_lookup_fresh segm_insert)

lemma segm_bad_checksum: "checksumValid en (segm_slice 1 r) 20 IPPROTO_TCP False = Some False"
proof -
  have "unat (checksum en (drop 20 (segm 1)) (pseudoHeaderChecksumNoFold en IPPROTO_TCP (take 4 (drop 12 (segm 1))) (take 4 (drop 16 (segm 1))) 21)) \<noteq> 65535"
    unfolding unat_checksum_pseudo by (simp add: pseudo_sum_def oc_def segm_def tun_consts)
  then have "checksum en (drop 20 (segm 1)) (pseudoHeaderChecksumNoFold en IPPROTO_TCP (take 4 (drop 12 (segm 1))) (take 4 (drop 16 (segm 1))) 21) \<noteq> 65535"
    by (simp add: word_unat_eq_iff)
  moreover have "c = 65535" if "NOT c = 0" for c :: u16
  proof -
    have "c = NOT 0" unfolding that [symmetric] by simp
    then show ?thesis by simp
  qed
  ultimately show ?thesis by (auto simp: checksumValid_def segm_parts tun_consts vis_def segm_length)
qed

lemma segm_headers: "ipHeadersCanCoalesce (segm_slice s r) (segm_slice s' r') = Some True"
  by (simp add: ipHeadersCanCoalesce_def segm_rd) (simp add: segm_def)

lemma segm_can_coalesce:
  "tcpPacketsCanCoalesce (segm_slice 2 0) 20 20 2 False 1 (segm_item 0 1) [segm_buf v 1 11, segm_buf v 2 0] 10 = Some CoalesceAppend"
  by (simp add: tcpPacketsCanCoalesce_def segm_item_def elem_def segm_sub_from segm_headers tcp_options_equal_def segm_parts go_mod_def)

lemma segm_coalesce:
  "coalesceTCPPackets en CoalesceAppend (segm_slice 2 0) 1 1 2 False (segm_item 0 1) [segm_buf v 1 11, segm_buf v 2 0] 10 False =
    Some (CoalesceItemInvalidCSum, segm_item 0 1, [segm_buf v 1 11, segm_buf v 2 0])"
  by (simp add: coalesceTCPPackets_def coalesce_tcp_append_def segm_item_def elem_def segm_sub_from segm_scap check_csums_def segm_bad_checksum)

text \<open>The item of the first segment is deleted, and the second is put in its place.\<close>

lemma segm_deleted: "tcpGRO en [segm_buf v 1 11, segm_buf v 2 0] 10 1 (segm_table 0 1) False = Some (GroTableInsert, [segm_buf v 1 11, segm_buf v 2 0], segm_table 1 2)"
proof -
  have "tbl_lookup (segm_table 0 1) segm_key = Some [segm_item 0 1]" by (simp add: segm_table_def tbl_lookup_def)
  moreover have "tcp_deleteAt (segm_table 0 1) (key (segm_item 0 1)) 0 = Some \<lparr>itemsByFlow = [(segm_key, [])], itemsPool = replicate 127 []\<rparr>"
    by (simp add: tcp_deleteAt_def tbl_deleteAt_def segm_table_def tbl_lookup_def tbl_store_def segm_item_def)
  moreover have "of_int 20 = (20 :: byte)" by simp
  ultimately show ?thesis
    by (simp add: tcpGRO_def elem_def segm_sub_from segm_iph_len segm_not_fragment segm_rd segm_bytes segm_gets src_addr_offset_def addr_len_def
      tun_consts tcp_flags_ok_def tcp_lookupOrInsert_def segm_flow_key segm_can_coalesce segm_coalesce segm_insert)
qed

text \<open>Both segments are written, but only the second gets a header: the bytes in front of the first stay what the caller had there.\<close>

theorem deleted_item_keeps_header:
  "\<exists>st. handleGRO en 10 True \<lparr>gBufs = [segm_buf v 1 11, segm_buf v 2 0], gTcp = newTCPGROTable, gUdp = newUDPGROTable, gToWrite = []\<rparr> = Some (st, []) \<and>
    gToWrite st = [0, 1] \<and> take 10 (vis (gBufs st ! 0)) = replicate 10 v \<and> take 10 (vis (gBufs st ! 1)) = hdr_bytes en zero_hdr"
proof -
  define b where "b = with_hdr en zero_hdr 10 (segm_buf v 2 0)"
  have wf: "wf_slice (segm_buf v s r)" for s r by (simp add: wf_slice_def segm_buf_def segm_length)
  have loop: "gro_loop en 10 True 2 0 \<lparr>gBufs = [segm_buf v 1 11, segm_buf v 2 0], gTcp = newTCPGROTable, gUdp = newUDPGROTable, gToWrite = []\<rparr> =
      Some (\<lparr>gBufs = [segm_buf v 1 11, segm_buf v 2 0], gTcp = segm_table 1 2, gUdp = newUDPGROTable, gToWrite = [0, 1]\<rparr>, Inr ())"
    by (simp add: numeral_2_eq_2 gro_step_def elem_def segm_sub_from segm_candidate gro_eval_def segm_inserted segm_deleted virtioNetHdrLen_def)
  have "encode_at en zero_hdr 10 (segm_buf v 2 0) = Some (Inr b)" using encode_at_ok [of "segm_buf v 2 0" 10 en zero_hdr] wf by (simp add: b_def)
  then have tcp: "applyTCPCoalesceAccounting en [segm_buf v 1 11, segm_buf v 2 0] 10 (segm_table 1 2) = Some ([segm_buf v 1 11, b], Inr ())"
    by (simp add: applyTCPCoalesceAccounting_def segm_table_def tbl_items_def segm_item_def account_tcp_buf_def elem_def set_elem_def)
  have udp: "applyUDPCoalesceAccounting en bs 10 newUDPGROTable = Some (bs, Inr ())" for bs
    by (simp add: applyUDPCoalesceAccounting_def newUDPGROTable_def new_table_def tbl_items_def)
  have "take 10 (vis (segm_buf v 1 11)) = replicate 10 v" by (simp add: vis_def segm_buf_def segm_length)
  moreover have "take 10 (vis b) = hdr_bytes en zero_hdr"
    unfolding b_def with_hdr_def by (simp add: vis_def segm_buf_def splice_def min_def segm_length)
  ultimately show ?thesis
    using loop by (simp add: handleGRO_def numeral_2_eq_2 [symmetric] tcp udp)
qed

end
