(* ===== verification/Write_Read.thy ===== *)
theory Write_Read
  imports Write_Frames Read_Accepts Gro_Examples
begin

text \<open>
  Write against Read (\<^verbatim>\<open>tun_linux.go\<close>, \<^verbatim>\<open>offload_linux.go\<close>): the frames \<open>Write\<close> hands to the device, given to
  \<open>handleVirtioRead\<close> as they are.
\<close>

text \<open>A frame behind an empty virtio header is copied.\<close>

lemma handleVirtioRead_plain:
  assumes inp: "wf_slice inp" "vis inp = hdr_bytes en zero_hdr @ p"
    and outs: "outs \<noteq> []" "\<forall>out\<in>set outs. wf_slice out \<and> off + length p \<le> slen out" "length outs \<le> length sizes"
  shows "\<exists>outs' sizes'. handleVirtioRead en inp outs sizes (int off) = Some (outs', sizes', Inr 1) \<and>
    segment_of (int off) (outs' ! 0) (sizes' ! 0) = p"
proof -
  define inp' where "inp' = \<lparr>sarr = drop 10 (sarr inp), slen = slen inp - 10\<rparr>"
  have l: "10 \<le> slen inp" using inp by (metis length_append length_hdr_bytes length_vis le_add1)
  have dec: "decode en inp = Inr zero_hdr"
  proof -
    have "take 10 (sarr inp) = take 10 (vis inp)" using l inp(1) by (simp add: vis_def min_def)
    then show ?thesis using decode_ok [OF l, of en] inp(2) bytes_hdr_hdr_bytes [of en zero_hdr "[]"] by simp
  qed
  have sf: "sub_from inp virtioNetHdrLen = Some inp'"
    using sub_from_ok [of 10 inp] l inp(1) by (simp add: virtioNetHdrLen_def inp'_def)
  have i': "wf_slice inp'" "vis inp' = p" using inp l by (auto simp: inp'_def wf_slice_def vis_def drop_take [symmetric])
  have sl: "slen inp' = length p" using i' by (metis length_vis)
  have z: "gsoType zero_hdr = GSO_NONE" "flags zero_hdr = 0" by (simp_all add: zero_hdr_def tun_consts)
  have run: "handleVirtioRead en inp outs sizes (int off) = virtio_read_none en zero_hdr inp' outs sizes (int off)"
    by (simp add: handleVirtioRead_def dec sf z)
  obtain b rest where b: "outs = b # rest" "off + length p \<le> slen b" "wf_slice b" using outs(1,2) by (cases outs) auto
  obtain k ks where k: "sizes = k # ks" using outs(1,3) by (cases sizes) auto
  have "\<exists>bufs' sizes'. virtio_read_none en zero_hdr inp' outs sizes (int off) = Some (bufs', sizes', Inr 1)"
  proof -
    have "validateVirtioReadOutputs outs sizes = Inr ()" using outs(1,3) by (simp add: validateVirtioReadOutputs_Inr)
    moreover have "validateOutputOffset b (int off) 0 = Inr ()" using b(2) by (simp add: validateOutputOffset_def)
    moreover obtain o' where "sub b (int off) (int off + int (slen inp')) = Some o'"
      using b(2,3) sl by (auto simp: sub_def wf_slice_def)
    ultimately show ?thesis using b(2) sl
      by (simp add: virtio_read_none_def b(1) k elem_def set_elem_def z Let_def)
  qed
  then obtain bufs' sizes' where r: "virtio_read_none en zero_hdr inp' outs sizes (int off) = Some (bufs', sizes', Inr 1)" by blast
  have wf: "\<forall>out\<in>set outs. wf_slice out" using outs(2) by blast
  have "finish_checksum en zero_hdr p = p" by (simp add: finish_checksum_def z)
  then have "bufs' = deliver off [p] outs" "sizes' = map (int \<circ> length) [p] @ drop 1 sizes"
    using virtio_read_none_delivered [OF i'(1) wf, of en zero_hdr sizes "int off"] by (simp_all add: r returns_def delivered_def i'(2))
  moreover have "segment_of (int off) (deliver off [p] outs ! 0) (int (length p)) = p"
    using b outs(1) by (simp add: segment_of_def deliver_nth)
  ultimately show ?thesis using r run by (simp add: k)
qed

text \<open>A frame of \<open>handleGRO\<close> given to the read handler: the packets of its group come out. A group of one needs an empty
  header: the ten bytes in front of a packet whose item was deleted are the caller's.\<close>

definition same_packet :: "byte list \<Rightarrow> byte list \<Rightarrow> bool" where
  "same_packet a b \<longleftrightarrow> a = b \<or> (\<exists>v6. tcp_same v6 a b \<or> udp_same v6 a b)"

lemma gro_frame_read:
  assumes fr: "gro_frame en bs f g" and two: "2 \<le> length g \<or> take 10 f = hdr_bytes en zero_hdr" and le: "\<forall>q\<in>set g. length (bs q) \<le> 65535"
    and inp: "wf_slice inp" "vis inp = f"
    and outs: "length g \<le> length outs" "\<forall>out\<in>set outs. wf_slice out \<and> off + 65535 \<le> slen out" "length outs \<le> length sizes"
  shows "\<exists>outs' sizes'. handleVirtioRead en inp outs sizes (int off) = Some (outs', sizes', Inr (int (length g))) \<and>
    (\<forall>i<length g. same_packet (segment_of (int off) (outs' ! i) (sizes' ! i)) (bs (g ! i)))"
proof -
  consider (one) q where "g = [q]" "drop 10 f = bs q" | (many) h v6 p where "f = hdr_bytes en h @ p" "regains en h v6 p (map bs g)"
    using fr unfolding gro_frame_def by blast
  then show ?thesis
  proof cases
    case q: one
    have "vis inp = hdr_bytes en zero_hdr @ bs q" using two q append_take_drop_id [of 10 f] by (simp add: inp(2))
    moreover have "outs \<noteq> []" "\<forall>out\<in>set outs. wf_slice out \<and> off + length (bs q) \<le> slen out" using outs(1,2) le q(1) by force+
    ultimately show ?thesis using handleVirtioRead_plain [OF inp(1) _ _ _ outs(3), of en "bs q" off] q(1) by (auto simp: same_packet_def)
  next
    case g: many
    have r: "gso_headers h v6 p" "length p \<le> 65535" "list_all2 (if gso_tcp h then tcp_same v6 else udp_same v6) (gso_packets en h v6 p) (map bs g)"
      using g(2) by (simp_all add: regains_def)
    have n: "length (gso_packets en h v6 p) = length g" using list_all2_lengthD [OF r(3)] by simp
    have same: "same_packet (gso_packets en h v6 p ! i) (bs (g ! i))" if "i < length g" for i
      using list_all2_nthD2 [OF r(3), of i] that by (auto simp: same_packet_def split: if_splits)
    have o: "\<forall>out\<in>set outs. wf_slice out" "\<forall>out\<in>set outs. off + length p \<le> slen out" using outs(2) r(2) by force+
    show ?thesis
      using handleVirtioRead_accepts [OF r(1,2) inp(1) _ o(1) outs(3) _ o(2), of en] inp(2) g(1) n outs(1) same by auto
  qed
qed

text \<open>A device with virtio headers, as \<open>initFromFlags\<close> leaves it, and buffers that take a batch of packets.\<close>

definition reader_ready :: "nat \<Rightarrow> NativeTun \<Rightarrow> gslice list \<Rightarrow> int list \<Rightarrow> bool" where
  "reader_ready off rt outs sizes \<longleftrightarrow> vnetHdr rt \<and> batchSize rt = IdealBatchSize \<and> errorsCh rt = [] \<and>
     wf_slice (readBuff rt) \<and> slen (readBuff rt) = 10 + 65535 \<and>
     IdealBatchSize \<le> int (length outs) \<and> length outs \<le> length sizes \<and> (\<forall>out\<in>set outs. wf_slice out \<and> off + 65535 \<le> slen out)"

text \<open>The device answers a \<^verbatim>\<open>read\<close> with the frame \<open>f\<close>: \<open>Read\<close> returns the packets \<open>g\<close>, each at the offset of its buffer.\<close>

definition reads_back :: "endian \<Rightarrow> (nat \<Rightarrow> byte list) \<Rightarrow> byte list \<Rightarrow> nat list \<Rightarrow> bool" where
  "reads_back en bs f g \<longleftrightarrow> (\<forall>rt outs sizes off'. reader_ready off' rt outs sizes \<longrightarrow>
     (\<exists>rt' outs' sizes'. Read en (\<lambda>_. Inr f) rt outs sizes (int off') = Some (rt', outs', sizes', Inr (int (length g))) \<and>
       (\<forall>i<length g. same_packet (segment_of (int off') (outs' ! i) (sizes' ! i)) (bs (g ! i)))))"

lemma Read_vnet:
  assumes rd: "reader_ready off rt outs sizes" and f: "length f \<le> 10 + 65535"
  shows "\<exists>inp rt'. wf_slice inp \<and> vis inp = f \<and> (\<forall>outs' sizes' r.
    handleVirtioRead en inp outs sizes (int off) = Some (outs', sizes', r) \<longrightarrow>
    Read en (\<lambda>_. Inr f) rt outs sizes (int off) = Some (rt', outs', sizes', r))"
proof -
  define buff where "buff = (readBuff rt)\<lparr>sarr := splice (sarr (readBuff rt)) 0 f\<rparr>"
  have d: "vnetHdr rt" "errorsCh rt = []" "wf_slice (readBuff rt)" "slen (readBuff rt) = 10 + 65535" "validateReadBuffers (BatchSize rt) outs sizes = Inr ()"
    using rd by (auto simp: reader_ready_def validateReadBuffers_def BatchSize_def)
  have "outs \<noteq> []" using rd by (auto simp: reader_ready_def IdealBatchSize_def)
  then obtain b rest where b: "outs = b # rest" by (cases outs) auto
  have "off \<le> slen b" "wf_slice b" using rd b by (auto simp: reader_ready_def)
  then obtain into where into: "sub_from b (int off) = Some into" by (auto simp: sub_from_def sub_def wf_slice_def)
  obtain inp where inp: "sub buff 0 (int (length f)) = Some inp" "wf_slice inp" "vis inp = f"
    using d(3,4) f by (auto simp: buff_def sub_def wf_slice_def vis_def splice_def)
  show ?thesis
    using d inp into unfolding Read_def
    by (intro exI [of _ inp] exI [of _ "rt\<lparr>readBuff := buff\<rparr>"]) (auto simp: b elem_def buff_def [symmetric] Let_def)
qed

lemma gro_frame_length:
  assumes "gro_frame en bs f g" and "\<forall>q\<in>set g. length (bs q) \<le> 65535"
  shows "length f \<le> 10 + 65535"
proof -
  consider (one) q where "g = [q]" "drop 10 f = bs q" | (many) h v6 p where "f = hdr_bytes en h @ p" "regains en h v6 p (map bs g)"
    using assms(1) unfolding gro_frame_def by blast
  then show ?thesis
  proof cases
    case one
    then have "length f - 10 = length (bs q)" "length (bs q) \<le> 65535" using assms(2) by (simp_all flip: one(2))
    then show ?thesis by linarith
  qed (simp add: regains_def)
qed

section \<open>Properties\<close>



end
