(* ===== verification/Status_Listeners.thy ===== *)
theory Status_Listeners
  imports Netlink
begin

text \<open>
  The life of the event channel of a monitored Linux device (\<^verbatim>\<open>tun_linux.go\<close>): the two goroutines of
  \<open>CreateTUNFromFile\<close>, the mutex \<^verbatim>\<open>hackListenerClosed\<close> between them, and \<open>Close\<close>. An action is what one
  goroutine does in one step; the schedule is any sequence of actions. What the goroutines send is the
  subject of \<^verbatim>\<open>Netlink\<close>; here it matters when they send and who closes.
\<close>

section \<open>State and actions\<close>

datatype hack_pc = HackRunning | HackDone
datatype net_pc = NetRunning | NetWaiting | NetDone

text \<open>\<open>panicked\<close>: a send on a closed channel, or the second close of a channel. \<open>sockCloses\<close> counts the closes of the
  netlink socket.\<close>

record status_state =
  hackPc :: hack_pc
  netPc :: net_pc
  hackListenerClosed :: bool          \<comment> \<open>the mutex is held\<close>
  eventsClosed :: bool
  shutdownClosed :: bool
  sockCloses :: nat
  closeDone :: bool
  panicked :: bool

definition monitored_start :: status_state where
  "monitored_start = \<lparr>hackPc = HackRunning, netPc = NetRunning, hackListenerClosed = True, eventsClosed = False,
     shutdownClosed = False, sockCloses = 0, closeDone = False, panicked = False\<rparr>"

datatype status_action =
    HackSend        \<comment> \<open>\<^verbatim>\<open>tun.events <- ...\<close> in \<open>routineHackListener\<close>\<close>
  | HackReturn      \<comment> \<open>its return, with the deferred unlock\<close>
  | NetSend         \<comment> \<open>\<^verbatim>\<open>tun.events <- event\<close> in \<open>routineNetlinkListener\<close>\<close>
  | NetReturn       \<comment> \<open>its return: the deferred close of the socket\<close>
  | NetLock         \<comment> \<open>the deferred lock, and the close of the event channel behind it\<close>
  | DeviceClose     \<comment> \<open>\<open>Close\<close>\<close>
  | CreateFails     \<comment> \<open>\<open>setMTU\<close> failed in \<open>CreateTUNFromFile\<close>: the socket is closed there too\<close>

text \<open>One action, when its goroutine can take it.\<close>

fun status_act :: "status_action \<Rightarrow> status_state \<Rightarrow> status_state option" where
  "status_act HackSend s = (if hackPc s = HackRunning then Some (s\<lparr>panicked := panicked s \<or> eventsClosed s\<rparr>) else None)"
| "status_act HackReturn s = (if hackPc s = HackRunning then Some (s\<lparr>hackPc := HackDone, hackListenerClosed := False\<rparr>) else None)"
| "status_act NetSend s = (if netPc s = NetRunning then Some (s\<lparr>panicked := panicked s \<or> eventsClosed s\<rparr>) else None)"
| "status_act NetReturn s = (if netPc s = NetRunning then Some (s\<lparr>netPc := NetWaiting, sockCloses := Suc (sockCloses s)\<rparr>) else None)"
| "status_act NetLock s = (if netPc s = NetWaiting \<and> \<not> hackListenerClosed s
     then Some (s\<lparr>netPc := NetDone, hackListenerClosed := True, eventsClosed := True, panicked := panicked s \<or> eventsClosed s\<rparr>) else None)"
| "status_act DeviceClose s = (if closeDone s then Some s
     else Some (s\<lparr>closeDone := True, shutdownClosed := True, panicked := panicked s \<or> shutdownClosed s\<rparr>))"
| "status_act CreateFails s = Some (s\<lparr>sockCloses := Suc (sockCloses s)\<rparr>)"

fun status_run :: "status_action list \<Rightarrow> status_state \<Rightarrow> status_state option" where
  "status_run [] s = Some s"
| "status_run (a # as) s = do { s' \<leftarrow> status_act a s; status_run as s' }"

inductive status_step :: "status_state \<Rightarrow> status_state \<Rightarrow> bool" where
  "status_act a s = Some s' \<Longrightarrow> status_step s s'"

inductive status_reach :: "status_state \<Rightarrow> bool" where
  start: "status_reach monitored_start"
| step: "status_reach s \<Longrightarrow> status_step s s' \<Longrightarrow> status_reach s'"

inductive_cases status_stepE: "status_step s s'"

section \<open>The invariant\<close>

definition status_inv :: "status_state \<Rightarrow> bool" where
  "status_inv s \<longleftrightarrow> \<not> panicked s \<and> (hackPc s = HackRunning \<longrightarrow> hackListenerClosed s) \<and>
     (eventsClosed s \<longleftrightarrow> netPc s = NetDone) \<and> (netPc s = NetDone \<longrightarrow> hackPc s = HackDone) \<and>
     (hackPc s = HackDone \<and> netPc s \<noteq> NetDone \<longrightarrow> \<not> hackListenerClosed s) \<and> (shutdownClosed s \<longleftrightarrow> closeDone s)"

lemma status_inv_act: "status_inv s \<Longrightarrow> status_act a s = Some s' \<Longrightarrow> status_inv s'"
  by (cases a; cases "hackPc s"; cases "netPc s") (auto simp: status_inv_def split: if_splits)

lemma status_reach_inv: "status_reach s \<Longrightarrow> status_inv s"
proof (induction rule: status_reach.induct)
  case start
  then show ?case by (simp add: status_inv_def monitored_start_def)
next
  case (step s s')
  then show ?case by (auto elim: status_stepE dest: status_inv_act)
qed

lemma status_run_reach: "status_reach s \<Longrightarrow> status_run as s = Some s' \<Longrightarrow> status_reach s'"
proof (induction as arbitrary: s)
  case (Cons a as)
  then obtain s1 where "status_act a s = Some s1" "status_run as s1 = Some s'" by (auto elim!: run_elims)
  then show ?case using Cons.IH [OF status_reach.step [OF Cons.prems(1) status_step.intros]] by blast
qed simp

section \<open>Properties\<close>

text \<open>C17. No interleaving of the two goroutines, their exits and \<open>Close\<close> panics: nothing is ever sent on the closed event
  channel and no channel is closed twice; the event channel is closed exactly when the netlink goroutine has
  finished, and the probing goroutine has then returned.\<close>

theorem event_channel_safe:
  assumes "status_run as monitored_start = Some s"
  shows "\<not> panicked s \<and> (eventsClosed s \<longleftrightarrow> netPc s = NetDone) \<and> (eventsClosed s \<longrightarrow> hackPc s = HackDone) \<and>
    (shutdownClosed s \<longleftrightarrow> closeDone s)"
  using status_reach_inv [OF status_run_reach [OF status_reach.start assms]] by (auto simp: status_inv_def)

theorem event_channel_safe_witness:
  "\<exists>s. status_run [HackSend, NetSend, DeviceClose, NetReturn, HackSend, HackReturn, NetLock, DeviceClose] monitored_start = Some s
    \<and> \<not> panicked s \<and> eventsClosed s"
proof -
  obtain s where s: "status_run [HackSend, NetSend, DeviceClose, NetReturn, HackSend, HackReturn, NetLock, DeviceClose] monitored_start = Some s"
    "netPc s = NetDone" by (simp add: monitored_start_def)
  then show ?thesis using event_channel_safe [OF s(1)] by blast
qed



text \<open>When \<open>setMTU\<close> fails, the socket is closed while the netlink goroutine still owns it, and again by that goroutine.\<close>

lemma netlink_socket_closed_twice:
  "\<exists>s. status_run [CreateFails, NetReturn] monitored_start = Some s \<and> sockCloses s = 2"
  by (simp add: monitored_start_def)

end
