(* ===== verification/Windows_Tun.thy ===== *)
theory Windows_Tun
  imports Virtio_Read Netlink
begin

text \<open>
  The Windows device (\<^verbatim>\<open>tun_windows.go\<close>): the receive-rate estimate \<open>rateJuggler\<close>, as one atomic
  operation after the other so that concurrent callers can be interleaved; \<open>Read\<close>, which spins or waits for
  a packet; \<open>Write\<close>, which drops packets when the ring is full; and the shutdown protocol between the
  operations and \<open>Close\<close>. The Wintun session, the clock and the other callers are parameters: what
  each call answers, turn by turn.
\<close>

section \<open>The rate estimate\<close>

text \<open>The constants, in nanoseconds and bytes per second.\<close>

definition rateMeasurementGranularity :: u64 where "rateMeasurementGranularity = 500000000"
definition spinloopRateThreshold :: u64 where "spinloopRateThreshold = 800000000 div 8"
definition spinloopDuration :: u64 where "spinloopDuration = 1000000 div 80"

record rateJuggler =
  current :: u64
  nextByteCount :: u64
  nextStartTime :: "64 word"
  changing :: bool

definition rate_zero :: rateJuggler where
  "rate_zero = \<lparr>current = 0, nextByteCount = 0, nextStartTime = 0, changing = False\<rparr>"

text \<open>\<open>update\<close>, from one atomic operation to the next. The signed and unsigned difference of two times have the same
  64 bits. \<open>None\<close>: a division by zero.\<close>

datatype update_pc =
    U_done
  | U_add u64 u64                 \<comment> \<open>now, packetLen: before \<^verbatim>\<open>nextByteCount.Add\<close>\<close>
  | U_load u64 u64                \<comment> \<open>now, tot: before \<^verbatim>\<open>nextStartTime.Load\<close>\<close>
  | U_swap u64 u64 u64            \<comment> \<open>now, tot, period: before \<^verbatim>\<open>changing.CompareAndSwap\<close>\<close>
  | U_start u64 u64 u64           \<comment> \<open>before \<^verbatim>\<open>nextStartTime.Store\<close>\<close>
  | U_current u64 u64             \<comment> \<open>tot, period: before \<^verbatim>\<open>current.Store\<close>\<close>
  | U_reset                       \<comment> \<open>before \<^verbatim>\<open>nextByteCount.Store\<close>\<close>
  | U_release                     \<comment> \<open>before \<^verbatim>\<open>changing.Store(false)\<close>\<close>

fun update_step :: "update_pc \<Rightarrow> rateJuggler \<Rightarrow> (update_pc \<times> rateJuggler) option" where
  "update_step U_done r = Some (U_done, r)"
| "update_step (U_add now len) r = (let tot = nextByteCount r + len in Some (U_load now tot, r\<lparr>nextByteCount := tot\<rparr>))"
| "update_step (U_load now tot) r = (let period = now - nextStartTime r in
     Some (if rateMeasurementGranularity \<le> period then U_swap now tot period else U_done, r))"
| "update_step (U_swap now tot period) r =
     (if changing r then Some (U_done, r) else Some (U_start now tot period, r\<lparr>changing := True\<rparr>))"
| "update_step (U_start now tot period) r = Some (U_current tot period, r\<lparr>nextStartTime := now\<rparr>)"
| "update_step (U_current tot period) r =
     (if period = 0 then None else Some (U_reset, r\<lparr>current := tot * 1000000000 div period\<rparr>))"
| "update_step U_reset r = Some (U_release, r\<lparr>nextByteCount := 0\<rparr>)"
| "update_step U_release r = Some (U_done, r\<lparr>changing := False\<rparr>)"

text \<open>The whole call, when nobody else runs.\<close>

fun update_run :: "nat \<Rightarrow> update_pc \<Rightarrow> rateJuggler \<Rightarrow> (update_pc \<times> rateJuggler) option" where
  "update_run 0 pc r = Some (pc, r)"
| "update_run (Suc n) pc r = do { (pc, r) \<leftarrow> update_step pc r; update_run n pc r }"

definition update :: "u64 \<Rightarrow> u64 \<Rightarrow> rateJuggler \<Rightarrow> rateJuggler option" where
  "update now packetLen r = do { (pc, r) \<leftarrow> update_run 7 (U_add now packetLen) r; Some r }"

text \<open>Any number of callers, each at its own point of \<open>update\<close>. A caller that is done may call again.\<close>

inductive rate_step :: "rateJuggler \<times> update_pc list \<Rightarrow> rateJuggler \<times> update_pc list \<Rightarrow> bool" where
  move: "i < length pcs \<Longrightarrow> update_step (pcs ! i) r = Some (pc, r') \<Longrightarrow> rate_step (r, pcs) (r', pcs[i := pc])"
| call: "i < length pcs \<Longrightarrow> pcs ! i = U_done \<Longrightarrow> rate_step (r, pcs) (r, pcs[i := U_add now len])"

inductive_cases rate_stepE: "rate_step (r, pcs) s'"

inductive rate_reach :: "nat \<Rightarrow> rateJuggler \<times> update_pc list \<Rightarrow> bool" for n where
  start: "rate_reach n (rate_zero, replicate n U_done)"
| step: "rate_reach n s \<Longrightarrow> rate_step s s' \<Longrightarrow> rate_reach n s'"

section \<open>Reading\<close>

text \<open>\<open>ReceivePacket\<close>. \<open>ReceiveOther\<close>: any other error.\<close>

datatype receive = ReceivedPacket "byte list" | ERROR_NO_MORE_ITEMS | ERROR_HANDLE_EOF | ERROR_INVALID_DATA | ReceiveOther go_error

text \<open>One turn of the inner loop, with what the calls in front of it answer when it is entered from \<open>retry\<close>:
  the first load of \<open>close\<close>, the clock and the rate.\<close>

record read_turn =
  closeAtRetry :: bool
  startTime :: u64
  rateSeen :: rateJuggler
  closeSeen :: bool
  received :: receive
  timeSeen :: u64

datatype read_phase = AtRetry | Spinning u64 bool     \<comment> \<open>start, shouldSpin\<close>

datatype read_result =
    ReadDone "gslice list" "int list" int "go_error option" "u64 list"   \<comment> \<open>last: what is handed to \<open>update\<close>\<close>
  | ReadBlocked nat nat            \<comment> \<open>still running: waits and spins so far\<close>

definition shouldSpin :: "u64 \<Rightarrow> rateJuggler \<Rightarrow> bool" where
  "shouldSpin start r \<longleftrightarrow> spinloopRateThreshold \<le> current r \<and> start - nextStartTime r \<le> rateMeasurementGranularity * 2"

definition deliver_packet :: "gslice list \<Rightarrow> int list \<Rightarrow> int \<Rightarrow> byte list \<Rightarrow> (gslice list \<times> int list) option" where
  "deliver_packet bufs sizes offset packet = do {
     buf0 \<leftarrow> elem bufs 0;
     out \<leftarrow> sub_from buf0 offset;
     let n = min (slen out) (length packet);
     bufs \<leftarrow> set_elem bufs 0 (put_back buf0 offset (copy out (of_bytes packet)));
     sizes \<leftarrow> set_elem sizes 0 (int n);
     Some (bufs, sizes)
   }"

fun read_loop :: "gslice list \<Rightarrow> int list \<Rightarrow> int \<Rightarrow> read_phase \<Rightarrow> nat \<Rightarrow> nat \<Rightarrow> read_turn list \<Rightarrow> read_result option" where
  "read_loop bufs sizes offset ph waits spins [] = Some (ReadBlocked waits spins)"
| "read_loop bufs sizes offset ph waits spins (t # ts) =
     (if ph = AtRetry \<and> closeAtRetry t then Some (ReadDone bufs sizes 0 (Some ErrClosed) [])
      else
        let (start, spin) = (case ph of AtRetry \<Rightarrow> (startTime t, shouldSpin (startTime t) (rateSeen t)) | Spinning s b \<Rightarrow> (s, b))
        in if closeSeen t then Some (ReadDone bufs sizes 0 (Some ErrClosed) [])
        else case received t of
          ReceivedPacket packet \<Rightarrow> do {
            (bufs, sizes) \<leftarrow> deliver_packet bufs sizes offset packet;
            Some (ReadDone bufs sizes 1 None [of_int (sizes ! 0)])
          }
        | ERROR_NO_MORE_ITEMS \<Rightarrow>
            if \<not> spin \<or> spinloopDuration \<le> timeSeen t - start
            then read_loop bufs sizes offset AtRetry (Suc waits) spins ts
            else read_loop bufs sizes offset (Spinning start spin) waits (Suc spins) ts
        | ERROR_HANDLE_EOF \<Rightarrow> Some (ReadDone bufs sizes 0 (Some ErrClosed) [])
        | ERROR_INVALID_DATA \<Rightarrow> Some (ReadDone bufs sizes 0 (Some (ErrMsg ''Send ring corrupt'')) [])
        | ReceiveOther e \<Rightarrow> Some (ReadDone bufs sizes 0 (Some (ErrWrap ''Read failed'' e)) []))"

definition windows_Read :: "gslice list \<Rightarrow> int list \<Rightarrow> int \<Rightarrow> read_turn list \<Rightarrow> read_result option" where
  "windows_Read bufs sizes offset ts = (case validateReadBuffers 1 bufs sizes of
     Inl e \<Rightarrow> Some (ReadDone bufs sizes 0 (Some e) [])
   | Inr _ \<Rightarrow> read_loop bufs sizes offset AtRetry 0 0 ts)"

section \<open>Writing\<close>

text \<open>\<open>AllocateSendPacket\<close>: on success a packet of the size asked for.\<close>

datatype allocate = Allocated | SEND_HANDLE_EOF | SEND_BUFFER_OVERFLOW | AllocateOther go_error

fun windows_write_loop ::
  "(nat \<Rightarrow> int \<Rightarrow> allocate) \<Rightarrow> int \<Rightarrow> nat \<Rightarrow> gslice list \<Rightarrow> (int \<times> go_error option \<times> byte list list \<times> u64 list) option" where
  "windows_write_loop alloc offset i [] = Some (int i, None, [], [])"
| "windows_write_loop alloc offset i (buf # rest) =
     (let packetSize = int (slen buf) - offset in
      case alloc i packetSize of
        Allocated \<Rightarrow> do {
          p \<leftarrow> sub_from buf offset;
          (n, err, sent, rated) \<leftarrow> windows_write_loop alloc offset (Suc i) rest;
          Some (n, err, vis p # sent, of_int packetSize # rated)
        }
      | SEND_HANDLE_EOF \<Rightarrow> Some (int i, Some ErrClosed, [], [of_int packetSize])
      | SEND_BUFFER_OVERFLOW \<Rightarrow> do {
          (n, err, sent, rated) \<leftarrow> windows_write_loop alloc offset (Suc i) rest;
          Some (n, err, sent, of_int packetSize # rated)
        }
      | AllocateOther e \<Rightarrow> Some (int i, Some (ErrWrap ''Write failed'' e), [], [of_int packetSize]))"

text \<open>The result: count or index, error, the packets sent, and what is handed to \<open>update\<close>.\<close>

definition windows_Write ::
  "bool \<Rightarrow> (nat \<Rightarrow> int \<Rightarrow> allocate) \<Rightarrow> gslice list \<Rightarrow> int \<Rightarrow> (int \<times> go_error option \<times> byte list list \<times> u64 list) option" where
  "windows_Write closed alloc bufs offset =
     (if closed then Some (0, Some ErrClosed, [], []) else windows_write_loop alloc offset 0 bufs)"

section \<open>Shutdown\<close>

text \<open>Where a caller is. \<open>Read\<close>, \<open>Write\<close> and \<open>LUID\<close> enter the wait group, look at \<open>close\<close>, use the session or the adapter,
  and leave. \<open>ForceMTU\<close> looks at \<open>close\<close>, stores the MTU and sends the event.\<close>

datatype caller_pc = Outside | Entered | Using | Leaving | MTUChecked int | MTUSending

datatype closer_pc = NotClosing | WaitingRunning | EndingSession | ClosingAdapter | ClosingEvents | Closed

record win_tun =
  callers :: "caller_pc list"
  running :: nat
  closeFlag :: bool
  closer :: closer_pc
  sessionEnded :: bool
  adapterClosed :: bool
  forcedMTU :: int
  winEvents :: nat               \<comment> \<open>events in the channel, of ten at most\<close>
  winEventsClosed :: bool
  usedAfterEnd :: bool           \<comment> \<open>the session or adapter was used when it was gone\<close>
  winPanicked :: bool

text \<open>\<open>CreateTUNWithRequestedGUID\<close>, when the adapter and session exist, and \<open>n\<close> callers to come.\<close>

definition win_created :: "nat \<Rightarrow> int \<Rightarrow> win_tun" where
  "win_created n mtu = \<lparr>callers = replicate n Outside, running = 0, closeFlag = False, closer = NotClosing, sessionEnded = False,
     adapterClosed = False, forcedMTU = (if 0 < mtu then mtu else 1420), winEvents = 0, winEventsClosed = False,
     usedAfterEnd = False, winPanicked = False\<rparr>"

definition CreateTUNWithRequestedGUID ::
  "go_error option \<Rightarrow> go_error option \<Rightarrow> nat \<Rightarrow> int \<Rightarrow> go_error + win_tun" where
  "CreateTUNWithRequestedGUID adapterErr sessionErr n mtu = (case adapterErr of
     Some e \<Rightarrow> Inl (ErrWrap ''Error creating interface'' e)
   | None \<Rightarrow> (case sessionErr of
       Some e \<Rightarrow> Inl (ErrWrap ''Error starting session'' e)
     | None \<Rightarrow> Inr (win_created n mtu)))"

datatype win_action =
    Enter nat | CheckClose nat | Use nat | Leave nat
  | ForceCheck nat int | ForceStore nat | ForceSend nat | TakeEvent
  | CloseBegin | CloseWaited | CloseSession | CloseAdapter | CloseChannel

definition at_pc :: "win_tun \<Rightarrow> nat \<Rightarrow> caller_pc \<Rightarrow> bool" where
  "at_pc s i pc \<longleftrightarrow> i < length (callers s) \<and> callers s ! i = pc"

definition goto :: "win_tun \<Rightarrow> nat \<Rightarrow> caller_pc \<Rightarrow> win_tun" where
  "goto s i pc = s\<lparr>callers := (callers s)[i := pc]\<rparr>"

fun win_act :: "win_action \<Rightarrow> win_tun \<Rightarrow> win_tun option" where
  "win_act (Enter i) s = (if at_pc s i Outside then Some ((goto s i Entered)\<lparr>running := Suc (running s)\<rparr>) else None)"
| "win_act (CheckClose i) s = (if at_pc s i Entered \<or> at_pc s i Using
     then Some (goto s i (if closeFlag s then Leaving else Using)) else None)"
| "win_act (Use i) s = (if at_pc s i Using then Some (s\<lparr>usedAfterEnd := usedAfterEnd s \<or> sessionEnded s \<or> adapterClosed s\<rparr>) else None)"
| "win_act (Leave i) s = (if at_pc s i Using \<or> at_pc s i Leaving
     then Some ((goto s i Outside)\<lparr>running := running s - 1\<rparr>) else None)"
| "win_act (ForceCheck i mtu) s = (if at_pc s i Outside
     then Some (if closeFlag s then s else goto s i (MTUChecked mtu)) else None)"
| "win_act (ForceStore i) s = (if i < length (callers s) then (case callers s ! i of
     MTUChecked mtu \<Rightarrow> Some ((goto s i (if forcedMTU s \<noteq> mtu then MTUSending else Outside))\<lparr>forcedMTU := mtu\<rparr>)
   | _ \<Rightarrow> None) else None)"
| "win_act (ForceSend i) s = (if at_pc s i MTUSending \<and> (winEventsClosed s \<or> winEvents s < 10)
     then Some ((goto s i Outside)\<lparr>winEvents := Suc (winEvents s), winPanicked := winPanicked s \<or> winEventsClosed s\<rparr>) else None)"
| "win_act TakeEvent s = (if 0 < winEvents s then Some (s\<lparr>winEvents := winEvents s - 1\<rparr>) else None)"
| "win_act CloseBegin s = Some (if closer s = NotClosing then s\<lparr>closer := WaitingRunning, closeFlag := True\<rparr> else s)"
| "win_act CloseWaited s = (if closer s = WaitingRunning \<and> running s = 0 then Some (s\<lparr>closer := EndingSession\<rparr>) else None)"
| "win_act CloseSession s = (if closer s = EndingSession then Some (s\<lparr>closer := ClosingAdapter, sessionEnded := True\<rparr>) else None)"
| "win_act CloseAdapter s = (if closer s = ClosingAdapter then Some (s\<lparr>closer := ClosingEvents, adapterClosed := True\<rparr>) else None)"
| "win_act CloseChannel s = (if closer s = ClosingEvents
     then Some (s\<lparr>closer := Closed, winEventsClosed := True, winPanicked := winPanicked s \<or> winEventsClosed s\<rparr>) else None)"

fun win_run :: "win_action list \<Rightarrow> win_tun \<Rightarrow> win_tun option" where
  "win_run [] s = Some s"
| "win_run (a # as) s = do { s' \<leftarrow> win_act a s; win_run as s' }"

text \<open>\<open>LUID\<close> and \<open>MTU\<close>.\<close>

definition LUID :: "win_tun \<Rightarrow> u64 \<Rightarrow> u64" where
  "LUID s luid = (if closeFlag s then 0 else luid)"

definition windows_MTU :: "win_tun \<Rightarrow> int" where
  "windows_MTU s = forcedMTU s"

section \<open>The rate estimate is safe under concurrency\<close>

text \<open>The callers that hold \<open>changing\<close>.\<close>

fun critical :: "update_pc \<Rightarrow> bool" where
  "critical (U_start _ _ _) = True"
| "critical (U_current _ _) = True"
| "critical U_reset = True"
| "critical U_release = True"
| "critical _ = False"

fun period_ok :: "update_pc \<Rightarrow> bool" where
  "period_ok (U_swap _ _ p) = (rateMeasurementGranularity \<le> p)"
| "period_ok (U_start _ _ p) = (rateMeasurementGranularity \<le> p)"
| "period_ok (U_current _ p) = (rateMeasurementGranularity \<le> p)"
| "period_ok _ = True"

definition rate_inv :: "rateJuggler \<times> update_pc list \<Rightarrow> bool" where
  "rate_inv s \<longleftrightarrow> (case s of (r, pcs) \<Rightarrow>
     length (filter critical pcs) = (if changing r then 1 else 0) \<and> (\<forall>pc\<in>set pcs. period_ok pc))"

lemma length_filter_update:
  "i < length xs \<Longrightarrow> length (filter P (xs[i := x])) + (if P (xs ! i) then 1 else 0) = length (filter P xs) + (if P x then 1 else 0)"
proof (induction xs arbitrary: i)
  case (Cons y xs)
  show ?case by (cases i) (use Cons.IH [of "i - 1"] Cons.prems in auto)
qed simp

lemma period_nonzero: "rateMeasurementGranularity \<le> p \<Longrightarrow> p \<noteq> 0"
  by (auto simp: rateMeasurementGranularity_def)

lemma update_step_safe: "period_ok pc \<Longrightarrow> update_step pc r \<noteq> None"
  using period_nonzero by (cases pc) (auto simp: Let_def)

lemma update_step_inv:
  assumes "update_step pc r = Some (pc', r')" and "period_ok pc" and "critical pc \<Longrightarrow> changing r"
  shows "period_ok pc' \<and> (if critical pc then (changing r' \<longleftrightarrow> critical pc') else (changing r' \<longleftrightarrow> changing r \<or> critical pc') \<and> \<not> (changing r \<and> critical pc'))"
  using assms by (cases pc) (auto simp: Let_def split: if_splits)

lemma rate_inv_step: "rate_step s s' \<Longrightarrow> rate_inv s \<Longrightarrow> rate_inv s'"
proof (induction rule: rate_step.induct)
  case (move i pcs r pc r')
  have n: "length (filter critical pcs) = (if changing r then 1 else 0)" and p: "\<forall>pc\<in>set pcs. period_ok pc"
    using move.prems by (simp_all add: rate_inv_def)
  have c: "changing r" if "critical (pcs ! i)"
    using n that move.hyps(1) by (auto simp: filter_empty_conv split: if_splits)
  note u = update_step_inv [OF move.hyps(2) _ c]
  have "period_ok pc" using u p move.hyps(1) by simp
  moreover have "length (filter critical (pcs[i := pc])) = (if changing r' then 1 else 0)"
    using length_filter_update [OF move.hyps(1), of critical pc] n c u p move.hyps(1) by (auto split: if_splits)
  ultimately show ?case using p by (auto simp: rate_inv_def dest: set_update_subset_insert [THEN subsetD])
next
  case (call i pcs r now len)
  then show ?case
    using length_filter_update [OF call.hyps(1), of critical "U_add now len"]
    by (auto simp: rate_inv_def dest: set_update_subset_insert [THEN subsetD])
qed

lemma rate_reach_inv: "rate_reach n s \<Longrightarrow> rate_inv s"
proof (induction rule: rate_reach.induct)
  case start
  then show ?case by (auto simp: rate_inv_def rate_zero_def)
qed (rule rate_inv_step)

lemma at_most_one:
  "length (filter P xs) \<le> 1 \<Longrightarrow> i < length xs \<Longrightarrow> j < length xs \<Longrightarrow> P (xs ! i) \<Longrightarrow> P (xs ! j) \<Longrightarrow> i = j"
proof (induction xs arbitrary: i j)
  case (Cons x xs)
  have "P x \<Longrightarrow> k < length xs \<Longrightarrow> \<not> P (xs ! k)" for k using Cons.prems(1) by (auto simp: filter_empty_conv)
  then show ?case using Cons by (cases i; cases j) (auto split: if_splits)
qed simp

text \<open>A caller alone.\<close>

lemma update_alone:
  "update now len r = Some (let tot = nextByteCount r + len; period = now - nextStartTime r in
     if rateMeasurementGranularity \<le> period \<and> \<not> changing r
     then \<lparr>current = tot * 1000000000 div period, nextByteCount = 0, nextStartTime = now, changing = False\<rparr>
     else r\<lparr>nextByteCount := tot\<rparr>)"
  using period_nonzero [of "now - nextStartTime r"] by (simp add: update_def numeral_eq_Suc Let_def)

section \<open>The reading loop\<close>

text \<open>Does a turn end the call, and with what.\<close>

definition idle_turn :: "read_turn \<Rightarrow> bool" where
  "idle_turn t \<longleftrightarrow> \<not> closeSeen t \<and> received t = ERROR_NO_MORE_ITEMS"

definition turn_result :: "gslice list \<Rightarrow> int list \<Rightarrow> int \<Rightarrow> read_turn \<Rightarrow> read_result option" where
  "turn_result bufs sizes offset t =
     (if closeSeen t then Some (ReadDone bufs sizes 0 (Some ErrClosed) []) else case received t of
        ReceivedPacket packet \<Rightarrow> map_option (\<lambda>(b, s). ReadDone b s 1 None [of_int (s ! 0)]) (deliver_packet bufs sizes offset packet)
      | ERROR_NO_MORE_ITEMS \<Rightarrow> None
      | ERROR_HANDLE_EOF \<Rightarrow> Some (ReadDone bufs sizes 0 (Some ErrClosed) [])
      | ERROR_INVALID_DATA \<Rightarrow> Some (ReadDone bufs sizes 0 (Some (ErrMsg ''Send ring corrupt'')) [])
      | ReceiveOther e \<Rightarrow> Some (ReadDone bufs sizes 0 (Some (ErrWrap ''Read failed'' e)) []))"

lemma read_loop_result:
  assumes "\<forall>t\<in>set ts. closeAtRetry t \<longrightarrow> closeSeen t"
  shows "(case dropWhile idle_turn ts of
      [] \<Rightarrow> \<exists>w s. read_loop bufs sizes offset ph waits spins ts = Some (ReadBlocked w s) \<and> w + s = waits + spins + length ts
    | t # _ \<Rightarrow> read_loop bufs sizes offset ph waits spins ts = turn_result bufs sizes offset t)"
  using assms
proof (induction ts arbitrary: ph waits spins)
  case (Cons t ts)
  obtain start spin where p: "(case ph of AtRetry \<Rightarrow> (startTime t, shouldSpin (startTime t) (rateSeen t)) | Spinning s b \<Rightarrow> (s, b)) = (start, spin)"
    by (cases "case ph of AtRetry \<Rightarrow> (startTime t, shouldSpin (startTime t) (rateSeen t)) | Spinning s b \<Rightarrow> (s, b)")
  show ?case
  proof (cases "idle_turn t")
    case True
    then have "\<not> closeAtRetry t" using Cons.prems by (auto simp: idle_turn_def)
    then obtain ph' w s where n: "read_loop bufs sizes offset ph waits spins (t # ts) = read_loop bufs sizes offset ph' w s ts" "w + s = Suc (waits + spins)"
      using True p by (cases "\<not> spin \<or> spinloopDuration \<le> timeSeen t - start") (auto simp: idle_turn_def)
    show ?thesis using Cons.IH [of ph' w s] Cons.prems True n
      by (cases "dropWhile idle_turn ts") (simp_all del: read_loop.simps dropWhile_eq_Nil_conv)
  next
    case False
    then have "read_loop bufs sizes offset ph waits spins (t # ts) = turn_result bufs sizes offset t"
    proof (cases "\<exists>packet. received t = ReceivedPacket packet")
      case True
      then obtain packet where r: "received t = ReceivedPacket packet" by blast
      show ?thesis using p Cons.prems r by (cases "deliver_packet bufs sizes offset packet") (auto simp: turn_result_def)
    next
      case no: False
      show ?thesis using p Cons.prems no False by (cases "received t") (auto simp: idle_turn_def turn_result_def)
    qed
    then show ?thesis using False by simp
  qed
qed simp

section \<open>Bounded spinning\<close>

text \<open>A clock that has advanced by at least one nanosecond per turn, as seen from any earlier start.\<close>

definition ticking :: "read_turn list \<Rightarrow> bool" where
  "ticking ts \<longleftrightarrow> (\<forall>j < length ts. \<forall>i \<le> j. of_nat (j - i) \<le> timeSeen (ts ! j) - startTime (ts ! i))"

text \<open>How many spins a loop that entered its spin phase \<open>k\<close> turns ago can have made.\<close>

lemma read_loop_spins:
  assumes "read_loop bufs sizes offset ph waits spins (drop k ts) = Some (ReadBlocked w s)" and "ticking ts" and "k \<le> length ts"
    and "case ph of AtRetry \<Rightarrow> spins \<le> 12500 * waits
      | Spinning st b \<Rightarrow> \<exists>i \<le> k. i < length ts \<and> st = startTime (ts ! i) \<and> spins \<le> 12500 * waits + (k - i) \<and> k - i \<le> 12500"
  shows "s \<le> 12500 * (w + 1)"
  using assms
proof (induction "length ts - k" arbitrary: ph waits spins k)
  case 0
  then show ?case by (auto split: read_phase.splits)
next
  case (Suc n)
  then have k: "k < length ts" "n = length ts - Suc k" by simp_all
  define t where "t = ts ! k"
  have d: "drop k ts = t # drop (Suc k) ts" using k by (simp add: Cons_nth_drop_Suc t_def)
  have step: "read_loop bufs sizes offset ph waits spins (t # drop (Suc k) ts) = Some (ReadBlocked w s)" using Suc.prems(1) d by simp
  obtain st b where p: "(case ph of AtRetry \<Rightarrow> (startTime t, shouldSpin (startTime t) (rateSeen t)) | Spinning s b \<Rightarrow> (s, b)) = (st, b)"
    by (cases "case ph of AtRetry \<Rightarrow> (startTime t, shouldSpin (startTime t) (rateSeen t)) | Spinning s b \<Rightarrow> (s, b)")
  obtain i where i: "i \<le> k" "st = startTime (ts ! i)" "spins \<le> 12500 * waits + (k - i)" "k - i \<le> 12500"
  proof (cases ph)
    case AtRetry
    then show ?thesis using Suc.prems(4) p that [of k] by (simp add: t_def)
  next
    case (Spinning st' b')
    then show ?thesis using Suc.prems(4) p that by auto
  qed
  have c: "(\<not> b \<or> spinloopDuration \<le> timeSeen t - st) \<and> read_loop bufs sizes offset AtRetry (Suc waits) spins (drop (Suc k) ts) = Some (ReadBlocked w s)
    \<or> \<not> spinloopDuration \<le> timeSeen t - st \<and> read_loop bufs sizes offset (Spinning st b) waits (Suc spins) (drop (Suc k) ts) = Some (ReadBlocked w s)"
    using step p by (auto split: if_splits receive.splits prod.splits simp: Option.bind_eq_Some_conv)
  show ?case
  proof (cases "read_loop bufs sizes offset AtRetry (Suc waits) spins (drop (Suc k) ts) = Some (ReadBlocked w s)")
    case True
    then show ?thesis using Suc.hyps(1) [OF k(2) True Suc.prems(2)] k i by simp
  next
    case False
    then have f: "\<not> spinloopDuration \<le> timeSeen t - st" "read_loop bufs sizes offset (Spinning st b) waits (Suc spins) (drop (Suc k) ts) = Some (ReadBlocked w s)"
      using c by auto
    have tk: "of_nat (k - i) \<le> timeSeen t - st" using Suc.prems(2) k(1) i(1,2) by (auto simp: ticking_def t_def)
    have "k - i < 12500"
    proof (rule ccontr)
      assume "\<not> k - i < 12500"
      then have "k - i = 12500" using i(4) by simp
      then show False using tk f(1) by (simp add: spinloopDuration_def)
    qed
    then have "\<exists>i \<le> Suc k. i < length ts \<and> st = startTime (ts ! i) \<and> Suc spins \<le> 12500 * waits + (Suc k - i) \<and> Suc k - i \<le> 12500"
      using i k(1) by (intro exI [of _ i]) auto
    then show ?thesis using Suc.hyps(1) [OF k(2) f(2) Suc.prems(2)] k(1) by simp
  qed
qed

section \<open>Sending\<close>

text \<open>What \<open>Write\<close> promises, over the packets: those for which there is no room are left out, the others are sent in order.\<close>

fun windows_sent :: "(nat \<Rightarrow> int \<Rightarrow> allocate) \<Rightarrow> nat \<Rightarrow> byte list list \<Rightarrow> int \<times> go_error option \<times> byte list list" where
  "windows_sent alloc i [] = (int i, None, [])"
| "windows_sent alloc i (p # ps) = (case alloc i (int (length p)) of
     Allocated \<Rightarrow> let (n, err, fs) = windows_sent alloc (Suc i) ps in (n, err, p # fs)
   | SEND_HANDLE_EOF \<Rightarrow> (int i, Some ErrClosed, [])
   | SEND_BUFFER_OVERFLOW \<Rightarrow> windows_sent alloc (Suc i) ps
   | AllocateOther e \<Rightarrow> (int i, Some (ErrWrap ''Write failed'' e), []))"

lemma windows_write_loop_eq:
  assumes "\<forall>b\<in>set bufs. wf_slice b \<and> off \<le> slen b"
  shows "\<exists>rated. windows_write_loop alloc (int off) i bufs
      = Some (let (n, err, fs) = windows_sent alloc i (map (\<lambda>b. drop off (vis b)) bufs) in (n, err, fs, rated)) \<and>
    (\<exists>k. rated = map (\<lambda>b. of_nat (slen b - off)) (take k bufs))"
  using assms
proof (induction bufs arbitrary: i)
  case (Cons buf rest)
  have wf: "wf_slice buf" "off \<le> slen buf" using Cons.prems by auto
  obtain p where p: "sub_from buf (int off) = Some p" using sub_from_total [OF wf(2,1)] by blast
  have v: "vis p = drop off (vis buf)" using vis_sub_from [OF p] by simp
  have l: "int (slen buf) - int off = int (slen buf - off)" using wf(2) by simp
  have lv: "length (vis buf) = slen buf" using wf(1) by simp
  obtain n err fs where r: "windows_sent alloc (Suc i) (map (\<lambda>b. drop off (vis b)) rest) = (n, err, fs)" by (metis prod_cases3)
  obtain rated k where ih: "windows_write_loop alloc (int off) (Suc i) rest = Some (n, err, fs, rated)"
    "rated = map (\<lambda>b. of_nat (slen b - off)) (take k rest)"
    using Cons.IH [of "Suc i"] Cons.prems unfolding r by simp blast
  have e: "of_nat (slen buf - off) # rated = map (\<lambda>b. of_nat (slen b - off)) (take (Suc k) (buf # rest))" using ih(2) by simp
  show ?case
  proof (cases "alloc i (int (slen buf - off))")
    case Allocated
    then show ?thesis using p v ih(1) r e by (intro exI [of _ "of_nat (slen buf - off) # rated"] conjI exI [of _ "Suc k"]) (simp_all add: l lv)
  next
    case SEND_BUFFER_OVERFLOW
    then show ?thesis using ih(1) r e by (intro exI [of _ "of_nat (slen buf - off) # rated"] conjI exI [of _ "Suc k"]) (simp_all add: l lv)
  next
    case SEND_HANDLE_EOF
    then show ?thesis by (intro exI [of _ "[of_nat (slen buf - off)]"] conjI exI [of _ 1]) (simp_all add: l lv)
  next
    case (AllocateOther e)
    then show ?thesis by (intro exI [of _ "[of_nat (slen buf - off)]"] conjI exI [of _ 1]) (simp_all add: l lv)
  qed
qed simp

lemma windows_sent_facts:
  assumes "windows_sent alloc i ps = (n, err, fs)"
  shows "int i \<le> n \<and> n \<le> int (i + length ps) \<and> (err = None \<longleftrightarrow> n = int (i + length ps)) \<and>
    fs = map snd (filter (\<lambda>(j, p). alloc j (int (length p)) = Allocated) (zip [i..<nat n] ps)) \<and>
    (\<forall>j \<in> {i..<nat n}. alloc j (int (length (ps ! (j - i)))) \<in> {Allocated, SEND_BUFFER_OVERFLOW})"
  using assms
proof (induction ps arbitrary: i n err fs)
  case (Cons p ps)
  show ?case
  proof (cases "alloc i (int (length p)) \<in> {Allocated, SEND_BUFFER_OVERFLOW}")
    case True
    then obtain n' err' fs' where r: "windows_sent alloc (Suc i) ps = (n', err', fs')" "n = n'" "err = err'"
      "fs = (if alloc i (int (length p)) = Allocated then p # fs' else fs')"
      using Cons.prems by (auto split: prod.splits)
    note ih = Cons.IH [OF r(1)]
    have n: "[i..<nat n] = i # [Suc i..<nat n]" using ih r(2) by (intro upt_conv_Cons) linarith
    have "alloc j (int (length ((p # ps) ! (j - i)))) \<in> {Allocated, SEND_BUFFER_OVERFLOW}" if "j \<in> {i..<nat n}" for j
    proof (cases "j = i")
      case False
      then have "j \<in> {Suc i..<nat n'}" "j - i = Suc (j - Suc i)" using that r(2) by auto
      then show ?thesis using ih by simp
    qed (use True in simp)
    moreover have "fs = map snd (filter (\<lambda>(j, p). alloc j (int (length p)) = Allocated) (zip [i..<nat n] (p # ps)))"
      unfolding n r(4) using ih r(2) by simp
    ultimately show ?thesis using ih r(2,3) by simp
  next
    case False
    then show ?thesis using Cons.prems by (cases "alloc i (int (length p))") auto
  qed
qed auto

section \<open>The shutdown protocol\<close>

fun inside :: "caller_pc \<Rightarrow> bool" where
  "inside Entered = True"
| "inside Using = True"
| "inside Leaving = True"
| "inside _ = False"

definition win_inv :: "win_tun \<Rightarrow> bool" where
  "win_inv s \<longleftrightarrow> running s = length (filter inside (callers s)) \<and> (closeFlag s \<longleftrightarrow> closer s \<noteq> NotClosing) \<and>
     (closer s \<notin> {NotClosing, WaitingRunning} \<longrightarrow> Using \<notin> set (callers s)) \<and>
     (sessionEnded s \<longleftrightarrow> closer s \<in> {ClosingAdapter, ClosingEvents, Closed}) \<and>
     (adapterClosed s \<longleftrightarrow> closer s \<in> {ClosingEvents, Closed}) \<and> (winEventsClosed s \<longleftrightarrow> closer s = Closed) \<and> \<not> usedAfterEnd s"

lemma not_in_update: "x \<notin> set xs \<Longrightarrow> x \<noteq> y \<Longrightarrow> x \<notin> set (xs[i := y])"
  using set_update_subset_insert [of xs i y] by auto

lemma win_inv_goto:
  assumes "win_inv s" and "at_pc s i pc" and "n + (if inside pc then 1 else 0) = running s + (if inside pc' then 1 else 0)"
    and "pc' = Using \<Longrightarrow> \<not> closeFlag s"
  shows "win_inv ((goto s i pc')\<lparr>running := n\<rparr>)"
proof -
  have i: "i < length (callers s)" "callers s ! i = pc" using assms(2) by (simp_all add: at_pc_def)
  have "n = length (filter inside ((callers s)[i := pc']))"
    using length_filter_update [OF i(1), of inside pc'] assms(1,3) i(2) by (simp add: win_inv_def split: if_splits)
  moreover have "closer s \<notin> {NotClosing, WaitingRunning} \<longrightarrow> Using \<notin> set ((callers s)[i := pc'])"
    using assms(1,4) not_in_update [of Using "callers s" pc' i] by (auto simp: win_inv_def)
  ultimately show ?thesis using assms(1) by (simp add: win_inv_def goto_def)
qed

lemma win_inv_act: "win_inv s \<Longrightarrow> win_act a s = Some s' \<Longrightarrow> win_inv s'"
proof (induction a s rule: win_act.induct)
  case (1 i s)
  then show ?case using win_inv_goto [of s i Outside "Suc (running s)" Entered] by (auto split: if_splits)
next
  case (2 i s)
  then show ?case
    using win_inv_goto [of s i Entered "running s" Leaving] win_inv_goto [of s i Entered "running s" Using]
      win_inv_goto [of s i Using "running s" Leaving] win_inv_goto [of s i Using "running s" Using]
    by (auto simp: goto_def split: if_splits)
next
  case (4 i s)
  have "0 < running s" if "at_pc s i pc" "inside pc" for pc
    using that 4(1) by (auto simp: win_inv_def at_pc_def filter_empty_conv)
  then show ?case using 4 win_inv_goto [of s i Using "running s - 1" Outside] win_inv_goto [of s i Leaving "running s - 1" Outside]
    by (force split: if_splits)
next
  case (5 i mtu s)
  then show ?case using win_inv_goto [of s i Outside "running s" "MTUChecked mtu"] by (auto simp: goto_def split: if_splits)
next
  case (6 i s)
  then obtain mtu where m: "at_pc s i (MTUChecked mtu)" "s' = (goto s i (if forcedMTU s \<noteq> mtu then MTUSending else Outside))\<lparr>forcedMTU := mtu\<rparr>"
    by (auto simp: at_pc_def split: if_splits caller_pc.splits)
  then have "win_inv (goto s i (if forcedMTU s \<noteq> mtu then MTUSending else Outside))"
    using win_inv_goto [OF 6(1) m(1), of "running s" MTUSending] win_inv_goto [OF 6(1) m(1), of "running s" Outside]
    by (simp add: goto_def)
  then show ?case using m(2) by (simp add: win_inv_def)
next
  case (7 i s)
  then have "at_pc s i MTUSending" "s' = (goto s i Outside)\<lparr>winEvents := Suc (winEvents s), winPanicked := winPanicked s \<or> winEventsClosed s\<rparr>"
    by (simp_all split: if_splits)
  then show ?case using win_inv_goto [of s i MTUSending "running s" Outside] 7(1) by (simp add: goto_def win_inv_def)
next
  case (3 i s)
  then have u: "at_pc s i Using" "s' = s\<lparr>usedAfterEnd := usedAfterEnd s \<or> sessionEnded s \<or> adapterClosed s\<rparr>" by (simp_all split: if_splits)
  then have "Using \<in> set (callers s)" by (auto simp: at_pc_def in_set_conv_nth)
  then have "closer s \<in> {NotClosing, WaitingRunning}" using 3(1) by (auto simp: win_inv_def)
  then have "\<not> sessionEnded s \<and> \<not> adapterClosed s" using 3(1) by (auto simp: win_inv_def)
  then have "s' = s\<lparr>usedAfterEnd := usedAfterEnd s\<rparr>" using u(2) by simp
  then show ?case using 3(1) by simp
next
  case (10 s)
  have "Using \<notin> set (callers s)" if "running s = 0"
    using that 10(1) by (auto simp: win_inv_def filter_empty_conv)
  moreover have "running s = 0 \<and> closer s = WaitingRunning \<and> s' = s\<lparr>closer := EndingSession\<rparr>" using 10(2) by (simp split: if_splits)
  ultimately show ?case using 10(1) by (simp add: win_inv_def)
next
  case (8 s)
  then have "s' = s\<lparr>winEvents := winEvents s - 1\<rparr>" by (simp split: if_splits)
  then show ?case using 8(1) by (simp add: win_inv_def)
next
  case (9 s)
  then show ?case by (auto simp: win_inv_def split: if_splits)
next
  case (11 s)
  then show ?case by (auto simp: win_inv_def split: if_splits)
next
  case (12 s)
  then show ?case by (auto simp: win_inv_def split: if_splits)
next
  case (13 s)
  then show ?case by (auto simp: win_inv_def split: if_splits)
qed

lemma win_run_inv: "win_run as s = Some s' \<Longrightarrow> win_inv s \<Longrightarrow> win_inv s'"
  by (induction as arbitrary: s) (auto elim!: run_elims dest: win_inv_act)

lemma win_created_inv: "win_inv (win_created n mtu)"
  by (auto simp: win_inv_def win_created_def)

text \<open>Every caller that is inside can leave.\<close>

lemma win_drain:
  assumes "win_inv s" and "closer s \<noteq> NotClosing"
  shows "\<exists>as s'. (\<forall>a\<in>set as. \<exists>i. a \<in> {CheckClose i, Leave i}) \<and> win_run as s = Some s' \<and> running s' = 0 \<and> closer s' = closer s"
  using assms
proof (induction "running s" arbitrary: s)
  case 0
  then show ?case by (intro exI [of _ "[]"]) auto
next
  case (Suc n)
  then have "filter inside (callers s) \<noteq> []" by (auto simp: win_inv_def)
  then obtain i where i: "i < length (callers s)" "inside (callers s ! i)" by (auto simp: filter_empty_conv in_set_conv_nth)
  define as where "as = (if callers s ! i = Entered then [CheckClose i] else []) @ [Leave i]"
  have f: "closeFlag s" using Suc.prems by (simp add: win_inv_def)
  obtain s1 where s1: "win_run as s = Some s1" "running s1 = n" "closer s1 = closer s"
    using i f Suc.hyps(2) by (cases "callers s ! i") (simp_all add: as_def at_pc_def goto_def)
  obtain bs s' where s': "\<forall>a\<in>set bs. \<exists>i. a \<in> {CheckClose i, Leave i}" "win_run bs s1 = Some s'" "running s' = 0" "closer s' = closer s"
    using Suc.hyps(1) [of s1] win_run_inv [OF s1(1) Suc.prems(1)] s1(2,3) Suc.prems(2) by auto
  have "win_run (as @ bs) s = Some s'" using s1(1) s'(2) by (auto simp: as_def split: if_splits option.splits elim!: run_elims)
  moreover have "\<forall>a\<in>set (as @ bs). \<exists>i. a \<in> {CheckClose i, Leave i}" using s'(1) by (auto simp: as_def)
  ultimately show ?case using s'(3,4) by blast
qed

definition quiet :: "win_tun \<Rightarrow> bool" where
  "quiet s \<longleftrightarrow> (\<forall>pc\<in>set (callers s). pc = Outside \<or> inside pc) \<and> \<not> winPanicked s"

lemma quiet_goto: "quiet s \<Longrightarrow> pc = Outside \<or> inside pc \<Longrightarrow> quiet (goto s i pc)"
  using set_update_subset_insert [of "callers s" i pc] by (auto simp: quiet_def goto_def)

lemma quiet_running [simp]: "quiet (s\<lparr>running := n\<rparr>) = quiet s"
  by (simp add: quiet_def)

lemma quiet_at: "quiet s \<Longrightarrow> at_pc s i pc \<Longrightarrow> pc = Outside \<or> inside pc"
  by (auto simp: quiet_def at_pc_def)

lemma quiet_cong: "quiet s \<Longrightarrow> callers s' = callers s \<Longrightarrow> winPanicked s' = winPanicked s \<Longrightarrow> quiet s'"
  by (simp add: quiet_def)

lemma quiet_act:
  assumes "win_act a s = Some s'" and "quiet s" and "win_inv s" and "\<forall>i mtu. a \<noteq> ForceCheck i mtu"
  shows "quiet s'"
proof (cases a)
  case (ForceStore i)
  then show ?thesis using assms(1) quiet_at [OF assms(2), of i] by (auto simp: at_pc_def split: if_splits caller_pc.splits)
next
  case (ForceSend i)
  then show ?thesis using assms(1) quiet_at [OF assms(2), of i MTUSending] by (auto split: if_splits)
next
  case (Enter i)
  then show ?thesis using assms(1) quiet_goto [OF assms(2), of Entered i] by (auto split: if_splits)
next
  case (CheckClose i)
  then show ?thesis using assms(1) quiet_goto [OF assms(2), of Leaving i] quiet_goto [OF assms(2), of Using i] by (auto split: if_splits)
next
  case (Leave i)
  then show ?thesis using assms(1) quiet_goto [OF assms(2), of Outside i] by (auto split: if_splits)
next
  case CloseChannel
  then have "\<not> winEventsClosed s" using assms(1,3) by (auto simp: win_inv_def split: if_splits)
  then show ?thesis using CloseChannel assms(1,2) by (auto simp: quiet_def split: if_splits)
qed (use quiet_cong [OF assms(2), of s'] assms(1,4) in \<open>auto split: if_splits\<close>)

lemma quiet_run:
  "win_run as s = Some s' \<Longrightarrow> win_inv s \<Longrightarrow> quiet s \<Longrightarrow> \<forall>i mtu. ForceCheck i mtu \<notin> set as \<Longrightarrow> \<not> winPanicked s'"
proof (induction as arbitrary: s)
  case (Cons a as)
  obtain s1 where s1: "win_act a s = Some s1" "win_run as s1 = Some s'" using Cons.prems(1) by (auto elim!: run_elims)
  have "\<forall>i mtu. a \<noteq> ForceCheck i mtu" "\<forall>i mtu. ForceCheck i mtu \<notin> set as" using Cons.prems(4) by auto
  then show ?case using Cons.IH [OF s1(2) win_inv_act [OF Cons.prems(2) s1(1)]] quiet_act [OF s1(1) Cons.prems(3,2)] by blast
qed (simp add: quiet_def)

section \<open>Properties\<close>

text \<open>C25. However many callers of \<open>update\<close> run at once, and however their atomic operations interleave: \<open>changing\<close> is a lock, held
  exactly when one caller is between taking and releasing it, never by two; and no caller ever divides by zero.\<close>

theorem rate_update_exclusive:
  assumes "rate_reach n (r, pcs)"
  shows "(changing r \<longleftrightarrow> (\<exists>i < length pcs. critical (pcs ! i))) \<and>
    (\<forall>i < length pcs. \<forall>j < length pcs. critical (pcs ! i) \<and> critical (pcs ! j) \<longrightarrow> i = j) \<and>
    (\<forall>i < length pcs. update_step (pcs ! i) r \<noteq> None)"
proof -
  have inv: "length (filter critical pcs) = (if changing r then 1 else 0)" "\<forall>pc\<in>set pcs. period_ok pc"
    using rate_reach_inv [OF assms] by (simp_all add: rate_inv_def)
  have "changing r \<longleftrightarrow> filter critical pcs \<noteq> []" using inv(1) by (auto split: if_splits)
  then have "changing r \<longleftrightarrow> (\<exists>i < length pcs. critical (pcs ! i))"
    by (simp add: filter_empty_conv) (metis in_set_conv_nth)
  moreover have "i = j" if "i < length pcs" "j < length pcs" "critical (pcs ! i)" "critical (pcs ! j)" for i j
    using at_most_one [of critical pcs i j] inv(1) that by (simp split: if_splits)
  moreover have "update_step (pcs ! i) r \<noteq> None" if "i < length pcs" for i
    using update_step_safe inv(2) that by simp
  ultimately show ?thesis by blast
qed

theorem rate_update_exclusive_witness:
  "\<not> changing rate_zero \<and> update_step (U_add 5 7) rate_zero \<noteq> None"
proof -
  have "rate_step (rate_zero, [U_done, U_done]) (rate_zero, [U_done, U_done][1 := U_add 5 7])" by (rule rate_step.call) simp_all
  moreover have "rate_reach 2 (rate_zero, [U_done, U_done])" using rate_reach.start [of 2] by (simp add: numeral_2_eq_2)
  ultimately have "rate_reach 2 (rate_zero, [U_done, U_add 5 7])" using rate_reach.step by fastforce
  from rate_update_exclusive [OF this] show ?thesis by (auto simp: less_Suc_eq)
qed

text \<open>A lone call of \<open>update\<close> returns and computes in 64 bits what the rate is meant to be: half a second or more after the last
  measurement, \<open>current\<close> is the byte count of the period times a thousand million, divided by the period in nanoseconds,
  as natural numbers whenever that product is below two to the 64; the count starts again at zero. Before that, only the
  count grows.\<close>

theorem update_exact:
  assumes "\<not> changing r" and "(unat (nextByteCount r) + unat len) * 10 ^ 9 < 2 ^ 64"
  shows "\<exists>r'. update now len r = Some r' \<and> \<not> changing r' \<and>
    (if 500000000 \<le> unat (now - nextStartTime r)
     then unat (current r') = (unat (nextByteCount r) + unat len) * 10 ^ 9 div unat (now - nextStartTime r) \<and>
       nextByteCount r' = 0 \<and> nextStartTime r' = now
     else current r' = current r \<and> unat (nextByteCount r') = unat (nextByteCount r) + unat len \<and> nextStartTime r' = nextStartTime r)"
proof -
  have n: "unat (nextByteCount r + len) = unat (nextByteCount r) + unat len"
    using assms(2) by (intro unat_plus_carry) simp
  have "unat ((nextByteCount r + len) * 1000000000) = (unat (nextByteCount r) + unat len) * 10 ^ 9"
    using assms(2) by (simp add: unat_word_ariths n)
  moreover have "rateMeasurementGranularity \<le> now - nextStartTime r \<longleftrightarrow> 500000000 \<le> unat (now - nextStartTime r)"
    by (simp add: rateMeasurementGranularity_def word_le_nat_alt)
  ultimately show ?thesis using assms(1) n by (simp add: update_alone unat_div Let_def)
qed

theorem update_exact_witness:
  "\<exists>r'. update 1000000000 125 (rate_zero\<lparr>nextByteCount := 1000\<rparr>) = Some r' \<and> unat (current r') = 1125"
  using update_exact [of "rate_zero\<lparr>nextByteCount := 1000\<rparr>" 125 1000000000] by (auto simp: rate_zero_def)

text \<open>\<open>Read\<close>, for good arguments and a \<open>close\<close> flag that is never taken back: it goes on exactly as long as the flag is unset and there is no packet;
  the first turn that is different decides: a set flag or the end of the session is \<open>ErrClosed\<close>, a packet is delivered at the offset, any other
  error is handed up.\<close>

theorem windows_Read_decides:
  assumes "validateReadBuffers 1 bufs sizes = Inr ()" and "\<forall>t\<in>set ts. closeAtRetry t \<longrightarrow> closeSeen t"
  shows "(if \<forall>t\<in>set ts. \<not> closeSeen t \<and> received t = ERROR_NO_MORE_ITEMS
     then \<exists>w s. windows_Read bufs sizes offset ts = Some (ReadBlocked w s) \<and> w + s = length ts
     else \<exists>pre t post. ts = pre @ t # post \<and> (\<forall>t\<in>set pre. \<not> closeSeen t \<and> received t = ERROR_NO_MORE_ITEMS) \<and>
       (closeSeen t \<or> received t \<noteq> ERROR_NO_MORE_ITEMS) \<and> windows_Read bufs sizes offset ts = turn_result bufs sizes offset t \<and>
       (closeSeen t \<longrightarrow> turn_result bufs sizes offset t = Some (ReadDone bufs sizes 0 (Some ErrClosed) [])))"
proof -
  note r = read_loop_result [OF assms(2), of bufs sizes offset AtRetry 0 0]
  have w: "windows_Read bufs sizes offset ts = read_loop bufs sizes offset AtRetry 0 0 ts"
    using assms(1) by (simp add: windows_Read_def)
  show ?thesis
  proof (cases "dropWhile idle_turn ts")
    case Nil
    then have "\<forall>t\<in>set ts. \<not> closeSeen t \<and> received t = ERROR_NO_MORE_ITEMS" by (auto simp: idle_turn_def)
    then show ?thesis using r unfolding w Nil by simp
  next
    case (Cons t post)
    then have t: "\<not> idle_turn t" using hd_dropWhile [of idle_turn ts] by simp
    define pre where "pre = takeWhile idle_turn ts"
    have e: "ts = pre @ t # post" using takeWhile_dropWhile_id [of idle_turn ts] by (simp add: pre_def Cons)
    have p: "\<forall>t\<in>set pre. \<not> closeSeen t \<and> received t = ERROR_NO_MORE_ITEMS"
      using set_takeWhileD [of _ idle_turn ts] by (auto simp: pre_def idle_turn_def)
    have "\<not> (\<forall>t\<in>set ts. \<not> closeSeen t \<and> received t = ERROR_NO_MORE_ITEMS)" using t e by (auto simp: idle_turn_def)
    moreover have "windows_Read bufs sizes offset ts = turn_result bufs sizes offset t" using r unfolding w Cons by simp
    moreover have "closeSeen t \<longrightarrow> turn_result bufs sizes offset t = Some (ReadDone bufs sizes 0 (Some ErrClosed) [])"
      by (simp add: turn_result_def)
    ultimately show ?thesis using e p t unfolding idle_turn_def by auto
  qed
qed

definition ex_turns :: "read_turn list" where
  "ex_turns = [\<lparr>closeAtRetry = False, startTime = 0, rateSeen = rate_zero, closeSeen = False, received = ERROR_NO_MORE_ITEMS, timeSeen = 3\<rparr>,
     \<lparr>closeAtRetry = True, startTime = 5, rateSeen = rate_zero, closeSeen = True, received = ReceivedPacket [1], timeSeen = 9\<rparr>]"

theorem windows_Read_decides_witness:
  "windows_Read [of_bytes [0, 0]] [0] 0 ex_turns = Some (ReadDone [of_bytes [0, 0]] [0] 0 (Some ErrClosed) [])"
proof -
  obtain pre t post where "ex_turns = pre @ t # post" "\<forall>t\<in>set pre. \<not> closeSeen t \<and> received t = ERROR_NO_MORE_ITEMS"
    "closeSeen t \<or> received t \<noteq> ERROR_NO_MORE_ITEMS" "windows_Read [of_bytes [0, 0]] [0] 0 ex_turns = turn_result [of_bytes [0, 0]] [0] 0 t"
    "closeSeen t \<longrightarrow> turn_result [of_bytes [0, 0]] [0] 0 t = Some (ReadDone [of_bytes [0, 0]] [0] 0 (Some ErrClosed) [])"
    using windows_Read_decides [of "[of_bytes [0, 0]]" "[0]" ex_turns 0]
    by (auto simp: ex_turns_def validateReadBuffers_def)
  then show ?thesis by (cases pre; cases "tl pre") (auto simp: ex_turns_def turn_result_def)
qed


definition ex_spin :: "read_turn list" where
  "ex_spin = [\<lparr>closeAtRetry = False, startTime = 0, rateSeen = rate_zero\<lparr>current := 200000000\<rparr>, closeSeen = False,
       received = ERROR_NO_MORE_ITEMS, timeSeen = 3\<rparr>,
     \<lparr>closeAtRetry = False, startTime = 4, rateSeen = rate_zero, closeSeen = False, received = ERROR_NO_MORE_ITEMS, timeSeen = 20000\<rparr>]"








text \<open>\<open>ForceMTU\<close> is outside the wait group: \<open>Close\<close> can close the event channel between its check and its send.\<close>

lemma forceMTU_sends_on_closed_channel:
  "\<exists>s. win_run [ForceCheck 0 1500, CloseBegin, CloseWaited, CloseSession, CloseAdapter, CloseChannel, ForceStore 0, ForceSend 0]
      (win_created 1 0) = Some s \<and> winPanicked s"
  by (simp add: win_created_def at_pc_def goto_def)

end
