(* ===== verification/Tuntest.thy ===== *)
theory Tuntest
  imports Checksum Netlink
begin

text \<open>
  The test package \<^verbatim>\<open>tuntest/tuntest.go\<close>: the ping packets it makes, with the package's own checksum routine,
  and the device made of two unbuffered channels. Which channel operation a \<^verbatim>\<open>select\<close> takes is a parameter.
\<close>

section \<open>Ping packets\<close>

fun tt_sum :: "byte list \<Rightarrow> u32 \<Rightarrow> u32" where
  "tt_sum (a # b # rest) v = tt_sum rest (v + of_nat (be_nat [a, b]))"
| "tt_sum [b] v = v + push_bit 8 (ucast b)"
| "tt_sum [] v = v"

lemma unat_fold32: "unat (drop_bit 16 v + (v AND 0xffff) :: u32) = unat v div 2 ^ 16 + unat v mod 2 ^ 16"
proof -
  have m: "v AND 0xffff = take_bit 16 v" by (simp add: take_bit_eq_mask mask_eq_exp_minus_1)
  have "unat v < 2 ^ 32" using unat_less_power [of v] by simp
  then have "unat v div 2 ^ 16 < 2 ^ 16" by (simp add: div_less_iff_less_mult)
  moreover have "unat v mod 2 ^ 16 < 2 ^ 16" by simp
  moreover have "unat (drop_bit 16 v) = unat v div 2 ^ 16"
    using \<open>unat v < 2 ^ 32\<close> by (simp only: unsigned_drop_bit_eq) (simp add: drop_bit_eq_div take_bit_nat_eq_self)
  moreover have "unat (take_bit 16 v) = unat v mod 2 ^ 16"
    by (simp only: unsigned_take_bit_eq) (simp add: take_bit_eq_mod)
  ultimately show ?thesis unfolding m by (simp add: unat_word_ariths)
qed

text \<open>\<^verbatim>\<open>for v > 0xffff\<close>: the value decreases.\<close>

function tt_fold :: "u32 \<Rightarrow> u32" where
  "tt_fold v = (if v > 0xffff then tt_fold (drop_bit 16 v + (v AND 0xffff)) else v)"
  by pat_completeness auto
termination
proof (relation "measure unat")
  fix v :: u32
  assume "v > 0xffff"
  then have "2 ^ 16 \<le> unat v" by (simp add: word_less_nat_alt)
  then have "0 < unat v div 2 ^ 16" by (simp add: div_greater_zero_iff)
  moreover have "q + r < n" if "0 < q" "n = 65536 * q + r" for q r n :: nat using that by linarith
  from this [of "unat v div 65536" "unat v" "unat v mod 65536"] calculation
  show "(drop_bit 16 v + (v AND 0xffff), v) \<in> measure unat"
    unfolding in_measure unat_fold32 by simp
qed simp

declare tt_fold.simps [simp del]

definition tt_checksum :: "byte list \<Rightarrow> u16 \<Rightarrow> u16" where
  "tt_checksum buf initial = NOT (ucast (tt_fold (tt_sum buf (ucast initial))))"

text \<open>\<open>dst\<close> and \<open>src\<close>: the bytes of the addresses, four for IPv4.\<close>

definition genICMPv4 :: "byte list \<Rightarrow> byte list \<Rightarrow> byte list \<Rightarrow> byte list" where
  "genICMPv4 payload dst src =
     (let icmp = splice (replicate 8 0) 0 [8, 0];
          chksum = NOT (tt_checksum icmp (tt_checksum payload 0));
          icmp = splice icmp 2 (be16 chksum);
          ip = splice (replicate 20 0) 0 [0x45];
          ip = splice ip 2 (be16 (of_nat (20 + 8 + length payload)));
          ip = splice (splice ip 8 [65]) 9 [1];
          ip = splice ip 12 (take 8 src);
          ip = splice ip 16 (take 4 dst);
          chksum = NOT (tt_checksum ip 0);
          ip = splice ip 10 (be16 chksum)
      in ip @ icmp @ payload)"

definition Ping :: "byte list \<Rightarrow> byte list \<Rightarrow> byte list" where
  "Ping dst src = genICMPv4 (be16 1337 @ be16 0) dst src"

section \<open>The channel device\<close>

text \<open>\<open>bufferedEvents\<close>: what waits in the event channel.\<close>

record ChannelTUN =
  ch_closed :: bool
  bufferedEvents :: "Event list"
  ch_eventsClosed :: bool

definition NewChannelTUN :: ChannelTUN where
  "NewChannelTUN = \<lparr>ch_closed = False, bufferedEvents = [EventUp], ch_eventsClosed = False\<rparr>"

text \<open>\<open>Read\<close>: the \<^verbatim>\<open>select\<close> takes the closed channel or a message of \<^verbatim>\<open>Outbound\<close>.\<close>

datatype ch_select = SelectClosed | SelectMessage "byte list"

definition ch_Read :: "ch_select \<Rightarrow> gslice list \<Rightarrow> int list \<Rightarrow> int \<Rightarrow> (gslice list \<times> int list \<times> int \<times> go_error option) option" where
  "ch_Read sel packets sizes offset = (case sel of
     SelectClosed \<Rightarrow> Some (packets, sizes, 0, Some ErrClosed)
   | SelectMessage msg \<Rightarrow> do {
       p0 \<leftarrow> elem packets 0;
       out \<leftarrow> sub_from p0 offset;
       packets \<leftarrow> set_elem packets 0 (put_back p0 offset (copy out (of_bytes msg)));
       sizes \<leftarrow> set_elem sizes 0 (int (min (slen out) (length msg)));
       Some (packets, sizes, 1, None)
     })"

text \<open>\<open>Write\<close>: \<open>takes i\<close> says that the \<^verbatim>\<open>select\<close> for packet \<open>i\<close> hands it to the reader of \<^verbatim>\<open>Inbound\<close>. \<open>None\<close>: the panic of a negative length,
  of an offset out of range, or of the second close of a channel.\<close>

fun ch_write_loop :: "(nat \<Rightarrow> bool) \<Rightarrow> int \<Rightarrow> nat \<Rightarrow> gslice list \<Rightarrow> (int \<times> go_error option \<times> byte list list) option" where
  "ch_write_loop takes offset i [] = Some (int i, None, [])"
| "ch_write_loop takes offset i (data # rest) =
     (if int (slen data) - offset < 0 then None
      else do {
        d \<leftarrow> sub_from data offset;
        if takes i then do {
          (n, err, msgs) \<leftarrow> ch_write_loop takes offset (Suc i) rest;
          Some (n, err, vis d # msgs)
        } else Some (int i, Some ErrClosed, [])
      })"

definition io_EOF :: go_error where "io_EOF = ErrMsg ''EOF''"

definition ch_Write ::
  "(nat \<Rightarrow> bool) \<Rightarrow> gslice list \<Rightarrow> int \<Rightarrow> ChannelTUN \<Rightarrow> ((int \<times> go_error option \<times> byte list list) \<times> ChannelTUN) option" where
  "ch_Write takes packets offset c =
     (if offset = -1 then
        (if ch_closed c \<or> ch_eventsClosed c then None
         else Some ((0, Some io_EOF, []), c\<lparr>ch_closed := True, ch_eventsClosed := True\<rparr>))
      else map_option (\<lambda>r. (r, c)) (ch_write_loop takes offset 0 packets))"

definition ch_Close :: "ChannelTUN \<Rightarrow> ChannelTUN option" where
  "ch_Close c = map_option snd (ch_Write (\<lambda>_. False) [] (-1) c)"

section \<open>Lemmas\<close>

lemma unat_tt_sum: "unat v + be16_sum buf < 2 ^ 32 \<Longrightarrow> unat (tt_sum buf v) = unat v + be16_sum buf"
proof (induction buf v rule: tt_sum.induct)
  case (1 a b rest v)
  have p: "be16_sum [a, b] = be_nat [a, b]" by (rule be16_sum_two) simp
  have s: "be16_sum (a # b # rest) = be_nat [a, b] + be16_sum rest" using be16_sum_append [of "[a, b]" rest] p by simp
  have "unat (v + of_nat (be_nat [a, b])) = unat v + be_nat [a, b]"
    using 1(2) be_nat_bound [of "[a, b]"] unfolding s by (simp add: unat_word_ariths unat_of_nat del: be_nat.simps)
  then show ?case using 1 unfolding s by (simp del: be_nat.simps)
next
  case (2 b v)
  have b: "unat b < 256" using unat_less_power [of b] by simp
  have u: "unat (ucast b :: u32) = unat b" using b by (simp add: unsigned_ucast_eq take_bit_nat_eq_self)
  have "unat (push_bit 8 (ucast b) :: u32) = 256 * unat b" using b u by (simp add: push_bit_eq_mult unat_word_ariths)
  then show ?case using 2 by (simp add: unat_word_ariths)
qed simp

lemma tt_fold_oc: "unat (tt_fold v) = oc (unat v)"
proof (induction v rule: tt_fold.induct)
  case (1 v)
  show ?case
  proof (cases "v > 0xffff")
    case True
    then show ?thesis using 1 oc_cong [OF fold_rel [of "unat v"]] by (simp add: tt_fold.simps [of v] unat_fold32)
  next
    case False
    then have "unat v \<le> 65535" by (simp add: word_less_nat_alt)
    then show ?thesis using False oc_unique [OF oc_rel_refl [of "unat v"]] by (simp add: tt_fold.simps [of v])
  qed
qed

lemma tt_checksum_oc:
  assumes "unat initial + be16_sum buf < 2 ^ 32"
  shows "unat (NOT (tt_checksum buf initial)) = oc (unat initial + be16_sum buf)"
proof -
  have u: "unat (ucast initial :: u32) = unat initial" using unat_less_power [of initial] by (simp add: unsigned_ucast_eq take_bit_nat_eq_self)
  have "unat (tt_fold (tt_sum buf (ucast initial))) = oc (unat initial + be16_sum buf)"
    using assms by (simp add: tt_fold_oc unat_tt_sum u)
  then show ?thesis using oc_bound [of "unat initial + be16_sum buf"]
    by (simp add: tt_checksum_def unsigned_ucast_eq take_bit_nat_eq_self)
qed

lemma be16_sum_le: "be16_sum buf \<le> 65535 * ((length buf + 1) div 2)"
proof (induction buf rule: be16_sum.induct)
  case (3 a b rest)
  show ?case using 3 unat_less_power [of a] unat_less_power [of b] by simp
next
  case (2 b)
  then show ?case using unat_less_power [of b] by simp
qed simp

lemma tt_checksum_eq:
  assumes "length buf < 131072"
  shows "tt_checksum buf initial = NOT (checksum en buf (ucast initial))"
proof -
  have "unat initial < 65536" using unat_less_power [of initial] by simp
  moreover have "(length buf + 1) div 2 \<le> 65536" using assms by simp
  then have "be16_sum buf \<le> 65535 * 65536" using be16_sum_le [of buf] by (meson le_trans mult_le_mono2)
  ultimately have "unat initial + be16_sum buf < 2 ^ 32" by simp
  then have "unat (NOT (tt_checksum buf initial)) = unat (checksum en buf (ucast initial))"
    by (simp add: tt_checksum_oc go_checksum.csum_oc unsigned_ucast_eq take_bit_nat_eq_self)
  then have "NOT (tt_checksum buf initial) = checksum en buf (ucast initial)" by (simp add: word_unat_eq_iff)
  then have "NOT (NOT (tt_checksum buf initial)) = NOT (checksum en buf (ucast initial))" by simp
  then show ?thesis by simp
qed

text \<open>A ping, field by field.\<close>

definition ip_header :: "nat \<Rightarrow> byte list \<Rightarrow> byte list \<Rightarrow> byte list \<Rightarrow> byte list" where
  "ip_header n c src dst = ([0x45, 0] @ be16 (of_nat n) @ [0, 0, 0, 0, 65, 1]) @ c @ src @ dst"

lemma genICMPv4_eq:
  assumes "length dst = 4" and "length src = 4"
  shows "\<exists>c. length c = 2 \<and> genICMPv4 payload dst src =
    ip_header (28 + length payload) (be16 (NOT (tt_checksum (ip_header (28 + length payload) [0, 0] src dst) 0))) src dst @
      [8, 0] @ c @ [0, 0, 0, 0] @ payload"
proof -
  define l where "l = be16 (of_nat (28 + length payload) :: u16)"
  have l': "be16 (of_nat (20 + 8 + length payload)) = l" by (simp add: l_def)
  obtain l1 l2 where l: "l = [l1, l2]" by (auto simp: l_def be16_def numeral_2_eq_2 length_Suc_conv)
  obtain s1 s2 s3 s4 where s: "src = [s1, s2, s3, s4]" using assms(2) by (auto simp: numeral_eq_Suc length_Suc_conv)
  obtain d1 d2 d3 d4 where d: "dst = [d1, d2, d3, d4]" using assms(1) by (auto simp: numeral_eq_Suc length_Suc_conv)
  define c where "c = be16 (NOT (tt_checksum [8, 0, 0, 0, 0, 0, 0, 0] (tt_checksum payload 0)))"
  have "length c = 2" by (simp add: c_def)
  moreover from this obtain c1 c2 where c': "c = [c1, c2]" by (auto simp: numeral_2_eq_2 length_Suc_conv)
  define h where "h = [0x45, 0, l1, l2, 0, 0, 0, 0, 65, 1, 0, 0, s1, s2, s3, s4, d1, d2, d3, d4]"
  define k where "k = be16 (NOT (tt_checksum h 0))"
  obtain k1 k2 where k: "k = [k1, k2]" by (auto simp: k_def be16_def numeral_2_eq_2 length_Suc_conv)
  have h: "ip_header (28 + length payload) [0, 0] src dst = h"
    unfolding ip_header_def l_def [symmetric] l s d by (simp add: h_def)
  have "splice (replicate 8 0) 0 [8, 0] = [8, 0, 0, 0, 0, 0, 0, 0 :: byte]" by (simp add: splice_def numeral_eq_Suc)
  moreover have "splice (splice (splice (splice (splice (splice (replicate 20 0) 0 [0x45]) 2 l) 8 [65]) 9 [1]) 12 (take 8 src)) 16 (take 4 dst) = h"
    by (simp add: splice_def numeral_eq_Suc l s d h_def)
  moreover have "splice h 10 k = ip_header (28 + length payload) k src dst"
    unfolding ip_header_def l_def [symmetric] l s d k by (simp add: h_def splice_def numeral_eq_Suc)
  moreover have "splice [8, 0, 0, 0, 0, 0, 0, 0] 2 c = [8, 0] @ c @ [0, 0, 0, 0]" by (simp add: splice_def numeral_eq_Suc c')
  ultimately show ?thesis
    unfolding genICMPv4_def Let_def l' h k_def [symmetric] by (intro exI [of _ c]) (simp add: c_def [symmetric] k_def [symmetric])
qed

text \<open>The writing loop of the channel device.\<close>

lemma ch_write_loop_eq:
  assumes "\<forall>b\<in>set packets. wf_slice b \<and> off \<le> slen b"
  shows "\<exists>n \<le> length packets. ch_write_loop takes (int off) i packets = Some (int (i + n), if n = length packets then None else Some ErrClosed,
      map (\<lambda>b. drop off (vis b)) (take n packets)) \<and> (\<forall>j < n. takes (i + j)) \<and> (n < length packets \<longrightarrow> \<not> takes (i + n))"
  using assms
proof (induction packets arbitrary: i)
  case (Cons b rest)
  have wf: "wf_slice b" "off \<le> slen b" using Cons.prems by auto
  obtain d where d: "sub_from b (int off) = Some d" "vis d = drop off (vis b)"
    using sub_from_total [OF wf(2,1)] vis_sub_from by fastforce
  show ?case
  proof (cases "takes i")
    case True
    obtain n where n: "n \<le> length rest" "ch_write_loop takes (int off) (Suc i) rest = Some (int (Suc i + n), if n = length rest then None else Some ErrClosed,
      map (\<lambda>b. drop off (vis b)) (take n rest))" "\<forall>j < n. takes (Suc i + j)" "n < length rest \<longrightarrow> \<not> takes (Suc i + n)"
      using Cons.IH [of "Suc i"] Cons.prems by auto
    have "\<forall>j < Suc n. takes (i + j)" using n(3) True by (auto simp: less_Suc_eq_0_disj)
    then show ?thesis using True d wf n by (intro exI [of _ "Suc n"]) auto
  next
    case False
    then show ?thesis using d wf by (intro exI [of _ 0]) auto
  qed
qed simp

section \<open>Properties\<close>

text \<open>C34. The checksum of the test package, computed in 32 bits with a loop that folds until the value fits, terminates and is the
  complement of the package's own unrolled \<open>checksum\<close>, for every initial value and every buffer of less than 128 KiB.\<close>

theorem tt_checksum_is_checksum:
  assumes "length buf < 131072"
  shows "tt_checksum buf initial = NOT (checksum en buf (ucast initial))"
  using tt_checksum_eq [OF assms] .

theorem tt_checksum_is_checksum_witness:
  "tt_checksum [0x45, 0, 0, 0x20, 1] 7 = NOT (checksum BigEndian [0x45, 0, 0, 0x20, 1] (ucast (7 :: u16)))"
  by (rule tt_checksum_is_checksum) simp

text \<open>The checksum of a ping is complemented twice: the header stores the sum, and does not verify.\<close>

lemma ping_header_does_not_verify:
  "take 2 (drop 10 (Ping [10, 0, 0, 2] [10, 0, 0, 1])) = be16 (checksum en (splice (take 20 (Ping [10, 0, 0, 2] [10, 0, 0, 1])) 10 [0, 0]) 0) \<and>
   checksum en (take 20 (Ping [10, 0, 0, 2] [10, 0, 0, 1])) 0 \<noteq> 0xffff"
proof -
  define h where "h = ip_header 32 [0, 0] [10, 0, 0, 1] [10, 0, 0, 2]"
  define w where "w = checksum en h 0"
  have w: "NOT (tt_checksum h 0) = w" using tt_checksum_eq [of h 0 en] by (simp add: h_def ip_header_def w_def)
  obtain c where "Ping [10, 0, 0, 2] [10, 0, 0, 1] = ip_header 32 (be16 w) [10, 0, 0, 1] [10, 0, 0, 2] @ [8, 0] @ c @ [0, 0, 0, 0] @ be16 1337 @ be16 0"
    using genICMPv4_eq [of "[10, 0, 0, 2]" "[10, 0, 0, 1]" "be16 1337 @ be16 0"] w by (auto simp: Ping_def h_def)
  then have t: "take 20 (Ping [10, 0, 0, 2] [10, 0, 0, 1]) = ip_header 32 (be16 w) [10, 0, 0, 1] [10, 0, 0, 2]"
    "take 2 (drop 10 (Ping [10, 0, 0, 2] [10, 0, 0, 1])) = be16 w"
    by (simp_all add: ip_header_def)
  have s: "splice (ip_header 32 (be16 w) [10, 0, 0, 1] [10, 0, 0, 2]) 10 [0, 0] = h"
    by (simp add: ip_header_def h_def splice_def)
  have "be16_sum h = 0x9A24" by (simp add: h_def ip_header_def)
  then have "unat w = 0x9A24" by (simp add: w_def go_checksum.csum_oc oc_def)
  then have "be16_sum (ip_header 32 (be16 w) [10, 0, 0, 1] [10, 0, 0, 2]) = 0x13448" by (simp add: ip_header_def)
  then show ?thesis unfolding t s w_def [symmetric] by (simp add: go_checksum.csum_ones_iff)
qed

text \<open>The shape of a ping: for IPv4 addresses and a payload that fits, an IPv4 packet of version and header length 0x45 whose total length field is its
  length, with protocol ICMP, the two addresses in place, an echo request, and the payload at its end.\<close>

theorem genICMPv4_shape:
  assumes "length dst = 4" and "length src = 4" and "length payload < 65508"
  shows "let p = genICMPv4 payload dst src in length p = 28 + length payload \<and> p ! 0 = 0x45 \<and> be_nat (take 2 (drop 2 p)) = length p \<and>
    p ! 9 = 1 \<and> take 4 (drop 12 p) = src \<and> take 4 (drop 16 p) = dst \<and> p ! 20 = 8 \<and> drop 28 p = payload"
proof -
  obtain k c where "length k = 2" "length c = 2" "genICMPv4 payload dst src = ip_header (28 + length payload) k src dst @ [8, 0] @ c @ [0, 0, 0, 0] @ payload"
    using genICMPv4_eq [OF assms(1,2), of payload] length_be16 by blast
  moreover have "unat (of_nat (28 + length payload) :: u16) = 28 + length payload"
    using assms(3) by (simp only: unat_of_nat) simp
  ultimately show ?thesis using assms(1,2) by (simp add: ip_header_def Let_def nth_append)
qed

theorem genICMPv4_shape_witness:
  "let p = genICMPv4 [1, 2] [10, 0, 0, 2] [10, 0, 0, 1] in length p = 30 \<and> take 4 (drop 12 p) = [10, 0, 0, 1]"
  using genICMPv4_shape [of "[10, 0, 0, 2]" "[10, 0, 0, 1]" "[1, 2]"] by (simp add: Let_def)

text \<open>A packet written to the channel device is the message that \<open>Inbound\<close> delivers, and a message read from it arrives at the offset: \<open>Write\<close>, with the
  offset in every buffer, hands over the packets behind the offset, in order, until the device is closed, and returns how many; \<open>Read\<close> copies the
  message as far as there is room, says how much, and changes nothing else.\<close>

theorem ch_transfer:
  assumes "\<forall>b\<in>set packets. wf_slice b \<and> off \<le> slen b" and "wf_slice buf" and "off2 \<le> slen buf"
  shows "(\<exists>n \<le> length packets. ch_Write takes packets (int off) c = Some ((int n, if n = length packets then None else Some ErrClosed,
      map (\<lambda>b. drop off (vis b)) (take n packets)), c) \<and> (\<forall>i < n. takes i) \<and> (n < length packets \<longrightarrow> \<not> takes n)) \<and>
    (let n = min (slen buf - off2) (length msg) in
     \<exists>buf'. ch_Read (SelectMessage msg) (buf # bufs) (s # sizes) (int off2) = Some (buf' # bufs, int n # sizes, 1, None) \<and>
      vis buf' = take off2 (vis buf) @ take n msg @ drop (off2 + n) (vis buf) \<and> slen buf' = slen buf)"
proof -
  obtain n where w: "n \<le> length packets" "ch_write_loop takes (int off) 0 packets = Some (int n, if n = length packets then None else Some ErrClosed,
      map (\<lambda>b. drop off (vis b)) (take n packets))" "\<forall>i < n. takes i" "n < length packets \<longrightarrow> \<not> takes n"
    using ch_write_loop_eq [OF assms(1), of takes 0] by auto
  define m where "m = take (slen buf - off2) msg"
  obtain out where o: "sub_from buf (int off2) = Some out" using sub_from_total [OF assms(3,2)] by auto
  have v: "wf_slice out" "vis out = drop off2 (vis buf)" "slen out = slen buf - off2"
    using wf_sub_from [OF o assms(2)] vis_sub_from [OF o] sub_from_eq [OF o] by auto
  have lm: "length m \<le> slen out" "length m = min (slen buf - off2) (length msg)" by (simp_all add: m_def v(3))
  have c: "copy out (of_bytes msg) = set_vis out (splice (vis out) 0 m)"
    unfolding copy_def m_def using splice_set_vis [OF v(1), of 0 m] lm(1) by (simp add: m_def v(3))
  have "length (splice (vis out) 0 m) = slen out" using lm(1) v(1) by simp
  from put_back_vis [OF assms(2,3) o this]
  have b: "put_back buf (int off2) (copy out (of_bytes msg)) = set_vis buf (take off2 (vis buf) @ splice (vis out) 0 m)" by (simp add: c)
  have l: "length (take off2 (vis buf) @ splice (vis out) 0 m) = slen buf" using lm(1) v assms(2,3) by simp
  have e: "take off2 (vis buf) @ splice (vis out) 0 m = take off2 (vis buf) @ m @ drop (off2 + length m) (vis buf)"
    using v(2) by (simp add: splice_def add.commute)
  have "take (length m) msg = m" "\<And>k. take (min (length msg) k) msg = take k msg" by (simp_all add: m_def min_def)
  then show ?thesis using w o b l e lm(2) v(3)
    by (auto simp: ch_Write_def ch_Read_def elem_def set_elem_def Let_def)
qed

theorem ch_transfer_witness:
  "\<exists>n err msgs. ch_Write (\<lambda>i. i < 1) [of_bytes [9, 1], of_bytes [9, 2]] (int 1) NewChannelTUN = Some ((int n, err, msgs), NewChannelTUN) \<and> n \<le> 2"
proof -
  define ps where "ps = [of_bytes [9, 1], of_bytes [9, 2 :: byte]]"
  have "\<forall>b\<in>set ps. wf_slice b \<and> 1 \<le> slen b" "length ps = 2" by (simp_all add: ps_def)
  with ch_transfer [OF this(1), of "of_bytes [0]" 0 "\<lambda>i. i < 1" NewChannelTUN "[]" "[]" 0 "[]"] show ?thesis unfolding ps_def [symmetric] by auto
qed

text \<open>The second \<open>Close\<close> panics.\<close>

lemma ch_Close_twice: "\<exists>c. ch_Close NewChannelTUN = Some c \<and> ch_Close c = None"
  by (simp add: ch_Close_def ch_Write_def NewChannelTUN_def)

end
