(* ===== verification/Device_Calls.thy ===== *)
theory Device_Calls
  imports Linux_Tun
begin

text \<open>
  A Linux device over its life (\<^verbatim>\<open>tun_linux.go\<close>): whatever calls are made of it after \<open>initFromFlags\<close>, in whatever order and with
  whatever answers of the kernel, the state keeps the shape the fields are declared with, and no call panics.
\<close>

section \<open>The shape of the state\<close>

definition tun_typed :: "NativeTun \<Rightarrow> bool" where
  "tun_typed tun \<longleftrightarrow> wf_slice (readBuff tun) \<and> slen (readBuff tun) = 10 + 65535 \<and> tun_ready tun \<and>
     batchSize tun = (if vnetHdr tun then IdealBatchSize else 1) \<and> (udpGSO tun \<longrightarrow> vnetHdr tun) \<and>
     sorted_wrt (<) (toWrite tun) \<and> set (toWrite tun) \<subseteq> {0..<IdealBatchSize}"

lemma initFromFlags_typed:
  assumes "initFromFlags getiff setTCP setUDP new_tun = (tun, Inr ())"
  shows "tun_typed tun"
  using assms new_tun_ready unfolding initFromFlags_def tun_typed_def tun_ready_def
  by (auto simp: new_tun_def split: sum.splits option.splits if_splits)

section \<open>Calls\<close>

text \<open>What a caller may ask of the device: slices as the runtime hands them out, a batch of at most 128 packets, and an offset inside
  the buffers where the code slices them without a check.\<close>

datatype tun_call =
    CallRead "nat \<Rightarrow> go_error + byte list" "gslice list" "int list" int
  | CallWrite "nat \<Rightarrow> byte list \<Rightarrow> go_error option" "gslice list" int
  | AsyncError go_error     \<comment> \<open>a goroutine reports an error\<close>

fun call_ok :: "NativeTun \<Rightarrow> tun_call \<Rightarrow> bool" where
  "call_ok tun (CallRead file_read bufs sizes off) \<longleftrightarrow> (\<forall>b\<in>set bufs. wf_slice b) \<and>
     (bufs \<noteq> [] \<longrightarrow> 0 \<le> off \<and> off \<le> int (slen (bufs ! 0))) \<and> (\<forall>n f. file_read n = Inr f \<longrightarrow> length f \<le> n)"
| "call_ok tun (CallWrite writer bufs off) \<longleftrightarrow> (\<forall>b\<in>set bufs. wf_slice b) \<and> length bufs \<le> 128 \<and>
     (\<not> vnetHdr tun \<longrightarrow> (\<forall>b\<in>set bufs. 0 \<le> off \<and> off \<le> int (slen b)))"
| "call_ok tun (AsyncError e) \<longleftrightarrow> True"

fun tun_call_run :: "endian \<Rightarrow> tun_call \<Rightarrow> NativeTun \<Rightarrow> NativeTun option" where
  "tun_call_run en (CallRead file_read bufs sizes off) tun = map_option fst (Read en file_read tun bufs sizes off)"
| "tun_call_run en (CallWrite writer bufs off) tun = map_option fst (Write en writer tun bufs off)"
| "tun_call_run en (AsyncError e) tun = Some (tun\<lparr>errorsCh := errorsCh tun @ [e]\<rparr>)"

fun tun_calls_run :: "endian \<Rightarrow> tun_call list \<Rightarrow> NativeTun \<Rightarrow> NativeTun option" where
  "tun_calls_run en [] tun = Some tun"
| "tun_calls_run en (c # cs) tun = do { tun' \<leftarrow> tun_call_run en c tun; tun_calls_run en cs tun' }"

text \<open>No call changes what \<open>initFromFlags\<close> found out.\<close>

definition same_mode :: "NativeTun \<Rightarrow> NativeTun \<Rightarrow> bool" where
  "same_mode tun tun' \<longleftrightarrow> vnetHdr tun' = vnetHdr tun \<and> batchSize tun' = batchSize tun \<and> udpGSO tun' = udpGSO tun"

lemma same_mode_ok: "same_mode tun tun' \<Longrightarrow> call_ok tun' c = call_ok tun c"
  by (cases c) (simp_all add: same_mode_def)

section \<open>Every call keeps the shape\<close>

lemma read_into:
  assumes "wf_slice s" "length f \<le> slen s"
  shows "wf_slice (s\<lparr>sarr := splice (sarr s) 0 f\<rparr>)" "sub (s\<lparr>sarr := splice (sarr s) 0 f\<rparr>) 0 (int (length f)) \<noteq> None"
    "sub (s\<lparr>sarr := splice (sarr s) 0 f\<rparr>) 0 (int (length f)) = Some inp \<Longrightarrow> wf_slice inp"
  using assms by (auto simp: wf_slice_def sub_def splice_def)

lemma Read_typed:
  assumes t: "tun_typed tun" and ok: "call_ok tun (CallRead file_read bufs sizes off)"
  shows "returns (Read en file_read tun bufs sizes off) (\<lambda>(tun', _). tun_typed tun' \<and> same_mode tun tun')"
proof (cases "validateReadBuffers (BatchSize tun) bufs sizes")
  case (Inl e)
  then show ?thesis using t by (simp add: Read_def returns_def same_mode_def)
next
  case (Inr u)
  have wb: "\<forall>b\<in>set bufs. wf_slice b" using ok by simp
  have "bufs \<noteq> []" "bufs \<noteq> [] \<Longrightarrow> sizes \<noteq> []" using Inr t by (auto simp: validateReadBuffers_def BatchSize_def tun_typed_def IdealBatchSize_def split: if_splits)
  then have ne: "bufs \<noteq> []" "sizes \<noteq> []" by simp_all
  define b where "b = bufs ! 0"
  have b: "elem bufs 0 = Some b" "wf_slice b" "0 \<le> off" "off \<le> int (slen b)" using ne ok by (auto simp: elem_def b_def)
  then obtain into where into: "sub_from b off = Some into" by (auto simp: sub_from_def sub_def wf_slice_def)
  have rb: "wf_slice (readBuff tun)" "slen (readBuff tun) = 10 + 65535" using t by (simp_all add: tun_typed_def)
  have keep: "tun_typed (tun\<lparr>errorsCh := es\<rparr>) \<and> same_mode tun (tun\<lparr>errorsCh := es\<rparr>)"
    "wf_slice r \<Longrightarrow> slen r = 10 + 65535 \<Longrightarrow> tun_typed (tun\<lparr>readBuff := r\<rparr>) \<and> same_mode tun (tun\<lparr>readBuff := r\<rparr>)" for es r
    using t by (simp_all add: tun_typed_def same_mode_def tun_ready_def)
  have self: "tun_typed tun \<and> same_mode tun tun" using t by (simp add: same_mode_def)
  show ?thesis
  proof (cases "errorsCh tun"; cases "file_read (slen (if vnetHdr tun then readBuff tun else into))")
    fix f assume a: "errorsCh tun = []" "file_read (slen (if vnetHdr tun then readBuff tun else into)) = Inr f"
    then have lf: "length f \<le> slen (if vnetHdr tun then readBuff tun else into)" using ok by simp
    show ?thesis
    proof (cases "vnetHdr tun")
      case True
      define r where "r = (readBuff tun)\<lparr>sarr := splice (sarr (readBuff tun)) 0 f\<rparr>"
      have lf: "length f \<le> slen (readBuff tun)" using lf True by simp
      have r: "wf_slice r" "slen r = 10 + 65535" using read_into(1) [OF rb(1) lf] rb(2) by (simp_all add: r_def)
      obtain inp where inp: "sub r 0 (int (length f)) = Some inp" "wf_slice inp"
        using read_into(2,3) [OF rb(1) lf] by (fastforce simp: r_def)
      obtain h where "handleVirtioRead en inp bufs sizes off = Some h"
        using handleVirtioRead_delivered [OF inp(2) wb, of en sizes off] by (auto simp: returns_iff)
      then show ?thesis using Inr a True b(1) into inp(1) keep(2) [OF r]
        by (cases h) (simp add: Read_def returns_def r_def [symmetric])
    next
      case False
      then show ?thesis using Inr a ne b(1) into self by (simp add: Read_def returns_def Let_def set_elem_def)
    qed
  qed (use Inr b(1) into keep(1) self in \<open>auto simp: Read_def returns_def Let_def\<close>)
qed

lemma Write_keeps:
  assumes "Write en writer tun bufs off = Some (tun', r)"
  shows "same_mode tun tun' \<and> readBuff tun' = readBuff tun"
  using assms unfolding Write_def
  by (auto simp: same_mode_def reset_tables_def Let_def split: bind_splits if_splits)

lemma Write_plain:
  assumes bufs: "\<forall>b\<in>set bufs. wf_slice b \<and> 0 \<le> off \<and> off \<le> int (slen b)" and "\<not> vnetHdr tun"
  shows "\<exists>k errs frames. Write en writer tun bufs off =
    Some (reset_tables (tun\<lparr>toWrite := map int [0..<length bufs]\<rparr>), bufs, k, errs, frames)"
proof (cases "bufs = []")
  case True
  then show ?thesis using assms(2) by (simp add: Write_def Let_def writeBatch_def)
next
  case False
  then obtain o' where o': "off = int o'" using bufs nonneg_int_cases by (cases bufs) fastforce+
  have "writeBatch writer bufs (map int [0..<length bufs]) (int o') \<noteq> None"
    by (subst writeBatch_eq) (use bufs o' in auto)
  then obtain r where "writeBatch writer bufs (map int [0..<length bufs]) off = Some r" unfolding o' by blast
  then show ?thesis using assms(2) by (cases r) (simp add: Write_def Let_def)
qed

lemma Write_typed:
  assumes t: "tun_typed tun" and ok: "call_ok tun (CallWrite writer bufs off)"
  shows "returns (Write en writer tun bufs off) (\<lambda>(tun', _). tun_typed tun' \<and> same_mode tun tun')"
proof -
  have wb: "\<forall>b\<in>set bufs. wf_slice b" and n: "length bufs \<le> 128" using ok by simp_all
  have tr: "tun_ready tun" using t by (simp add: tun_typed_def)
  obtain tun' r where w: "Write en writer tun bufs off = Some (tun', r)" and o: "tun_ready tun'" "sorted_wrt (<) (toWrite tun')" "set (toWrite tun') \<subseteq> {0..<128}"
  proof (cases "vnetHdr tun")
    case True
    have fresh: "tables_fresh (tcpGROTab tun) (udpGROTab tun)" using tr by (simp add: tun_ready_def)
    obtain st errs i where h: "handleGRO en off (udpGSO tun) \<lparr>gBufs = bufs, gTcp = tcpGROTab tun, gUdp = udpGROTab tun, gToWrite = []\<rparr> = Some (st, errs)"
        and inv: "\<exists>st1. gro_inv (nat off) bufs i st1 \<and> gToWrite st1 = gToWrite st" "i \<le> length bufs"
      using handleGRO_returns [OF wb fresh n, of en off "udpGSO tun"] by (fastforce simp: returns_iff split: if_splits)
    have "sorted_wrt (<) (gToWrite st)" "set (gToWrite st) \<subseteq> {0..<128}" using inv n by (fastforce simp: gro_inv_def)+
    moreover obtain tun' r where w: "Write en writer tun bufs off = Some (tun', r)" "tun_ready tun'"
      using Write_gro_returns [OF wb n tr True, of en writer off] by (auto simp: returns_iff)
    moreover have "toWrite tun' = gToWrite st" using w(1) True h by (auto simp: Write_def reset_tables_def Let_def split: bind_splits if_splits)
    ultimately show thesis using that by simp
  next
    case False
    obtain k errs frames where "Write en writer tun bufs off = Some (reset_tables (tun\<lparr>toWrite := map int [0..<length bufs]\<rparr>), bufs, k, errs, frames)"
      using Write_plain [of bufs off tun en writer] ok False by auto
    moreover have "tun_ready (reset_tables (tun\<lparr>toWrite := map int [0..<length bufs]\<rparr>))"
      using tr by (intro reset_ready) (auto simp: tun_ready_def tables_fresh_def)
    ultimately show thesis using n by (intro that) (auto simp: reset_tables_def sorted_wrt_map)
  qed
  have "same_mode tun tun' \<and> readBuff tun' = readBuff tun" using Write_keeps w by blast
  then show ?thesis using t w o by (simp add: returns_def tun_typed_def same_mode_def IdealBatchSize_def)
qed

lemma tun_calls_typed:
  assumes "tun_typed tun" and "\<forall>c\<in>set cs. call_ok tun c"
  shows "returns (tun_calls_run en cs tun) (\<lambda>tun'. tun_typed tun' \<and> same_mode tun tun')"
  using assms
proof (induction cs arbitrary: tun)
  case Nil
  then show ?case by (simp add: returns_def same_mode_def)
next
  case (Cons c cs)
  have one: "returns (tun_call_run en c tun) (\<lambda>tun'. tun_typed tun' \<and> same_mode tun tun')"
  proof (cases c)
    case (CallRead file_read bufs sizes off)
    then show ?thesis using Read_typed [OF Cons.prems(1), of file_read bufs sizes off en] Cons.prems(2) by (auto simp: returns_iff)
  next
    case (CallWrite writer bufs off)
    then show ?thesis using Write_typed [OF Cons.prems(1), of writer bufs off en] Cons.prems(2) by (auto simp: returns_iff)
  qed (use Cons.prems(1) in \<open>simp add: returns_def tun_typed_def same_mode_def tun_ready_def\<close>)
  show ?case unfolding tun_calls_run.simps
  proof (rule returns_call [OF one])
    fix tun' assume "tun_typed tun' \<and> same_mode tun tun'"
    then show "returns (tun_calls_run en cs tun') (\<lambda>tun'. tun_typed tun' \<and> same_mode tun tun')"
      using Cons.IH [of tun'] Cons.prems(2) same_mode_ok [of tun tun'] by (auto simp: returns_iff same_mode_def)
  qed
qed

text \<open>The only way for \<open>Read\<close> to panic: an offset outside the first buffer, also with virtio headers, where the slice is not used and
  \<open>handleVirtioRead\<close> would report the offset as an error.\<close>

lemma Read_offset_panics:
  assumes "errorsCh tun = []" and "validateReadBuffers (BatchSize tun) (b # bufs) sizes = Inr ()" and "offset < 0 \<or> int (slen b) < offset"
  shows "Read en file_read tun (b # bufs) sizes offset = None"
  using assms by (auto simp: Read_def elem_def sub_from_def sub_def)

lemma Read_panics_iff:
  assumes t: "tun_typed tun" and "\<forall>b\<in>set bufs. wf_slice b" and "\<forall>n f. file_read n = Inr f \<longrightarrow> length f \<le> n"
  shows "Read en file_read tun bufs sizes off = None \<longleftrightarrow>
    validateReadBuffers (BatchSize tun) bufs sizes = Inr () \<and> errorsCh tun = [] \<and> (off < 0 \<or> int (slen (bufs ! 0)) < off)"
proof (cases "validateReadBuffers (BatchSize tun) bufs sizes = Inr () \<and> errorsCh tun = []")
  case False
  then have "Read en file_read tun bufs sizes off \<noteq> None"
    by (cases "validateReadBuffers (BatchSize tun) bufs sizes"; cases "errorsCh tun") (simp_all add: Read_def)
  then show ?thesis using False by blast
next
  case True
  then obtain b rest where b: "bufs = b # rest"
    using t by (cases bufs) (auto simp: validateReadBuffers_def BatchSize_def tun_typed_def IdealBatchSize_def split: if_splits)
  show ?thesis
  proof (cases "off < 0 \<or> int (slen b) < off")
    case True
    then show ?thesis using Read_offset_panics \<open>_ \<and> errorsCh tun = []\<close> by (simp add: b)
  next
    case False
    then have "call_ok tun (CallRead file_read bufs sizes off)" using assms(2,3) by (auto simp: b)
    from Read_typed [OF t this, of en] show ?thesis using False by (auto simp: returns_iff b)
  qed
qed

section \<open>Properties\<close>



end
