(* ===== verification/Example_Load.thy ===== *)
theory Example_Load
  imports Tun_Prelude
begin

text \<open>
  The load generators (\<^verbatim>\<open>example/linux-pair-load/main.go\<close>, \<^verbatim>\<open>example/windows-pair-load/main.go\<close>): the download handler of the server, the
  retry loops of the client, and the client with its workers as a machine of interleaved steps. What the network and the clock
  answer is a parameter.
\<close>

section \<open>The server\<close>

text \<open>\<^verbatim>\<open>chunk\<close>, and the loop of the handler over what remains; \<open>w k\<close> is the outcome of the \<open>k\<close>-th write. The result is the
  list of writes, each a prefix of the chunk.\<close>

definition chunk :: "byte list" where
  "chunk = map of_nat [0..<256 * 1024]"

function download_loop :: "(nat \<Rightarrow> bool) \<Rightarrow> nat \<Rightarrow> int \<Rightarrow> byte list list" where
  "download_loop w k remaining = (if remaining > 0 then
     let n = (if 256 * 1024 > remaining then remaining else 256 * 1024)
     in take (nat n) chunk # (if w k then download_loop w (Suc k) (remaining - n) else [])
   else [])"
  by auto
termination by (relation "measure (\<lambda>(_, _, remaining). nat remaining)") (auto simp: Let_def)

declare download_loop.simps [simp del]

text \<open>\<open>int64(*responseMiB) << 20\<close> and the announced \<^verbatim>\<open>Content-Length\<close> with the writes of the body.\<close>

definition total_bytes :: "int \<Rightarrow> 64 word" where
  "total_bytes responseMiB = push_bit 20 (of_int responseMiB)"

definition download :: "int \<Rightarrow> (nat \<Rightarrow> bool) \<Rightarrow> int \<times> byte list list" where
  "download responseMiB w = (sint (total_bytes responseMiB), download_loop w 0 (sint (total_bytes responseMiB)))"

lemma length_chunk [simp]: "length chunk = 262144"
  by (simp add: chunk_def)

lemma nth_chunk: "i < 262144 \<Longrightarrow> chunk ! i = of_nat i"
  by (simp add: chunk_def)

lemma sint_total_bytes:
  assumes "0 \<le> m" "m < 2 ^ 43"
  shows "sint (total_bytes m) = m * 2 ^ 20"
proof -
  have "total_bytes m = of_int (m * 2 ^ 20)" by (simp add: total_bytes_def push_bit_eq_mult)
  moreover have "0 \<le> m * 2 ^ 20" "m * 2 ^ 20 < 2 ^ 63" using assms by simp_all
  moreover from this have "signed_take_bit 63 (m * 2 ^ 20) = m * 2 ^ 20" by (intro signed_take_bit_int_eq_self) auto
  ultimately show ?thesis by (simp only: signed_of_int) simp
qed

text \<open>The body counts up, modulo 256, because the chunk is a multiple of 256 bytes long.\<close>

lemma download_loop_body:
  assumes "\<forall>k. w k" and "0 \<le> r"
  shows "concat (download_loop w k r) = map of_nat [0..<nat r] \<and> (\<forall>c\<in>set (download_loop w k r). c \<noteq> [] \<and> length c \<le> 262144)"
  using assms
proof (induction w k r rule: download_loop.induct)
  case (1 w k r)
  define n where "n = (if 256 * 1024 > r then r else 256 * 1024)"
  show ?case
  proof (cases "0 < r")
    case True
    then have n: "0 < n" "n \<le> r" "n \<le> 262144" by (simp_all add: n_def)
    have e: "download_loop w k r = take (nat n) chunk # download_loop w (Suc k) (r - n)"
      using True 1(2) by (subst download_loop.simps) (simp add: n_def Let_def)
    have ih: "concat (download_loop w (Suc k) (r - n)) = map of_nat [0..<nat (r - n)] \<and>
        (\<forall>c\<in>set (download_loop w (Suc k) (r - n)). c \<noteq> [] \<and> length c \<le> 262144)"
      by (rule 1(1) [OF True n_def]) (use 1(2) n in auto)
    have "map of_nat [0..<nat r] = (take (nat n) chunk @ map of_nat [0..<nat (r - n)] :: byte list)"
    proof (rule nth_equalityI)
      show "length (map of_nat [0..<nat r] :: byte list) = length (take (nat n) chunk @ map of_nat [0..<nat (r - n)])" using n by simp
    next
      fix i assume i: "i < length (map of_nat [0..<nat r] :: byte list)"
      show "(map of_nat [0..<nat r] :: byte list) ! i = (take (nat n) chunk @ map of_nat [0..<nat (r - n)]) ! i"
      proof (cases "i < nat n")
        case True
        then show ?thesis using i n by (simp add: nth_append nth_chunk)
      next
        case False
        then have r: "262144 \<le> r" and n': "n = 262144" using i n by (auto simp: n_def split: if_splits)
        have "(of_nat i :: byte) = of_nat (i - 262144) + of_nat 262144" using False n' by (simp add: of_nat_diff)
        then show ?thesis using False i r by (simp add: n' nth_append min_def)
      qed
    qed
    moreover have "take (nat n) chunk \<noteq> [] \<and> length (take (nat n) chunk) \<le> 262144" using n by (simp add: chunk_def)
    ultimately show ?thesis using ih by (simp add: e)
  qed (use 1(3) in \<open>simp add: download_loop.simps\<close>)
qed

section \<open>Retrying until a deadline\<close>

text \<open>\<open>now i\<close> is the reading of the clock before attempt \<open>i\<close>, \<open>attempt i\<close> its outcome. The result is the value, or the error that the
  loop has kept; both nil when there was no attempt. The loop ends only if the clock runs on.\<close>

partial_function (option) retry_loop ::
  "(nat \<Rightarrow> int) \<Rightarrow> (nat \<Rightarrow> go_error + 'a) \<Rightarrow> int \<Rightarrow> nat \<Rightarrow> go_error option \<Rightarrow> (go_error option + 'a) option" where
  "retry_loop now attempt deadline i lastErr =
     (if now i < deadline then
        (case attempt i of
           Inr v \<Rightarrow> Some (Inr v)
         | Inl e \<Rightarrow> retry_loop now attempt deadline (Suc i) (Some e))
      else Some (Inl lastErr))"

declare retry_loop.simps [simp del]

definition getWithRetry :: "int \<Rightarrow> (nat \<Rightarrow> int) \<Rightarrow> (nat \<Rightarrow> go_error + 'r) \<Rightarrow> int \<Rightarrow> (go_error option + 'r) option" where
  "getWithRetry start now get timeout = retry_loop now get (start + timeout) 0 None"

definition listenTCP4Retry :: "int \<Rightarrow> (nat \<Rightarrow> int) \<Rightarrow> (nat \<Rightarrow> go_error + 'l) \<Rightarrow> int \<Rightarrow> (go_error option + 'l) option" where
  "listenTCP4Retry start now listen timeout = retry_loop now listen (start + timeout) 0 None"

definition waitForServer :: "int \<Rightarrow> (nat \<Rightarrow> int) \<Rightarrow> (nat \<Rightarrow> go_error + 'r) \<Rightarrow> (go_error option) option" where
  "waitForServer start now get = do {
     r \<leftarrow> retry_loop now get (start + 10 * 1000000000) 0 None;
     Some (case r of Inr resp \<Rightarrow> None | Inl e \<Rightarrow> Some (ErrMsg ''server did not become ready''))
   }"

text \<open>\<^verbatim>\<open>time.Sleep(200 * time.Millisecond)\<close> sleeps at least that long.\<close>

definition clock_runs :: "(nat \<Rightarrow> int) \<Rightarrow> bool" where
  "clock_runs now \<longleftrightarrow> (\<forall>i. now i + 200000000 \<le> now (Suc i))"

lemma clock_runs_on: "clock_runs now \<Longrightarrow> now i + 200000000 * int k \<le> now (i + k)"
proof (induction k)
  case (Suc k)
  then have "now i + 200000000 * int k \<le> now (i + k)" "now (i + k) + 200000000 \<le> now (Suc (i + k))" by (auto simp: clock_runs_def)
  then show ?case by simp
qed simp

text \<open>Attempts \<open>i\<close> up to \<open>n\<close> fail; then one succeeds, or the deadline has passed.\<close>

definition retried :: "(nat \<Rightarrow> int) \<Rightarrow> (nat \<Rightarrow> go_error + 'a) \<Rightarrow> int \<Rightarrow> nat \<Rightarrow> go_error option \<Rightarrow> nat \<Rightarrow> go_error option + 'a \<Rightarrow> bool" where
  "retried now attempt deadline i lastErr n r \<longleftrightarrow> i \<le> n \<and> (\<forall>j. i \<le> j \<and> j < n \<longrightarrow> now j < deadline \<and> (\<exists>e. attempt j = Inl e)) \<and>
     (case r of
        Inr v \<Rightarrow> now n < deadline \<and> attempt n = Inr v
      | Inl e \<Rightarrow> deadline \<le> now n \<and> (if n = i then e = lastErr else \<exists>e'. e = Some e' \<and> attempt (n - 1) = Inl e'))"

lemma retry_loop_ends:
  assumes "clock_runs now"
  shows "\<exists>n r. retry_loop now attempt deadline i lastErr = Some r \<and> retried now attempt deadline i lastErr n r"
proof (induction "nat (deadline - now i)" arbitrary: i lastErr rule: less_induct)
  case less
  show ?case
  proof (cases "now i < deadline")
    case False
    then show ?thesis
      by (intro exI [of _ i] exI [of _ "Inl lastErr"]) (auto simp: retry_loop.simps [of now attempt deadline i] retried_def)
  next
    case True
    show ?thesis
    proof (cases "attempt i")
      case (Inr v)
      then show ?thesis using True
        by (intro exI [of _ i] exI [of _ "Inr v"]) (auto simp: retry_loop.simps [of now attempt deadline i] retried_def)
    next
      case (Inl e)
      have "now i + 200000000 \<le> now (Suc i)" using assms by (simp add: clock_runs_def)
      then have "nat (deadline - now (Suc i)) < nat (deadline - now i)" using True by simp
      from less [OF this, of "Some e"] obtain n r where
        r: "retry_loop now attempt deadline (Suc i) (Some e) = Some r" "retried now attempt deadline (Suc i) (Some e) n r" by blast
      have "now j < deadline \<and> (\<exists>e. attempt j = Inl e)" if "i \<le> j" "j < n" for j
        using that r(2) True Inl by (cases "j = i") (simp_all add: retried_def)
      then have "retried now attempt deadline i lastErr n r"
        using r(2) Inl unfolding retried_def by (auto split: sum.splits if_splits)
      then show ?thesis using r(1) True Inl by (auto simp: retry_loop.simps [of now attempt deadline i])
    qed
  qed
qed

lemma retried_bound:
  assumes "clock_runs now" and "start \<le> now 0" and "retried now attempt (start + timeout) 0 lastErr n r" and "0 < n"
  shows "200000000 * (int n - 1) < timeout"
proof -
  have "now (n - 1) < start + timeout" using assms(3,4) by (simp add: retried_def)
  moreover have "now 0 + 200000000 * int (n - 1) \<le> now (n - 1)" using clock_runs_on [OF assms(1), of 0 "n - 1"] by simp
  ultimately show ?thesis using assms(2,4) by (simp add: of_nat_diff)
qed

section \<open>The client\<close>

text \<open>Every worker makes its requests one after the other, sends the size of each body, and at its end sends nil or the error that ended
  it. \<open>runClient\<close> takes one answer from every worker, closes the channel of sizes, adds them up and compares.\<close>

datatype load_error = RequestFailed nat nat go_error | ByteCount u64 u64

datatype worker =
    Requesting nat                        \<comment> \<open>at the head of the loop, with so many requests done\<close>
  | HasBytes nat u64                      \<comment> \<open>before \<^verbatim>\<open>bytesCh <- n\<close>\<close>
  | Reporting "load_error option"         \<comment> \<open>before \<^verbatim>\<open>errCh <- ...\<close>\<close>
  | WorkerDone

text \<open>Sizes and capacities: those of \<^verbatim>\<open>errCh\<close> differ between the two programs.\<close>

record load_setup =
  requests :: nat
  errCap :: nat
  bytesCap :: nat
  wantBytes :: u64

record load_state =
  pcs :: "worker list"
  errCh :: "load_error option list"
  bytesCh :: "u64 list"
  bytesClosed :: bool
  received :: nat
  failed :: "load_error option"
  totalBytes :: u64
  loadResult :: "(load_error + unit) option"   \<comment> \<open>what \<open>runClient\<close> returned\<close>
  sentOnClosed :: bool                          \<comment> \<open>a panic\<close>

text \<open>\<^verbatim>\<open>make(chan ..., n)\<close> panics for a negative \<open>n\<close>; \<^verbatim>\<open>range\<close> over a negative number does nothing. \<open>windows\<close> tells the programs
  apart; the products wrap.\<close>

definition load_start :: "bool \<Rightarrow> int \<Rightarrow> int \<Rightarrow> int \<Rightarrow> (load_setup \<times> load_state) option" where
  "load_start windows workers requestsPerWorker responseMiB =
     (let totalRequests = sint (of_int workers * of_int requestsPerWorker :: u64);
          cap = (if windows then workers else totalRequests)
      in if cap < 0 \<or> totalRequests < 0 then None
         else Some (\<lparr>requests = nat requestsPerWorker, errCap = nat cap, bytesCap = nat totalRequests,
                      wantBytes = of_int totalRequests * total_bytes responseMiB\<rparr>,
                    \<lparr>pcs = replicate (nat workers) (Requesting 0), errCh = [], bytesCh = [], bytesClosed = False, received = 0,
                      failed = None, totalBytes = 0, loadResult = None, sentOnClosed = False\<rparr>))"

datatype load_action =
    Answer nat "go_error + u64"    \<comment> \<open>the request of worker \<open>i\<close> ends: error, other status, or body of so many bytes\<close>
  | SendBytes nat
  | RequestsDone nat
  | SendResult nat
  | Receive                        \<comment> \<open>the main goroutine from here on\<close>
  | CloseBytes
  | AddBytes
  | Compare

definition note_result :: "load_error option \<Rightarrow> load_state \<Rightarrow> load_state" where
  "note_result e s = s\<lparr>received := Suc (received s), failed := (if e \<noteq> None \<and> failed s = None then e else failed s)\<rparr>"

text \<open>One step, when its goroutine can take it: a send needs room in the channel, or a receiver when it has no capacity.\<close>

fun load_act :: "load_setup \<Rightarrow> load_action \<Rightarrow> load_state \<Rightarrow> load_state option" where
  "load_act p (Answer i out) s = (if i < length (pcs s) then (case pcs s ! i of
       Requesting k \<Rightarrow> if k < requests p then Some (case out of
           Inl e \<Rightarrow> s\<lparr>pcs := (pcs s)[i := Reporting (Some (RequestFailed i k e))]\<rparr>
         | Inr n \<Rightarrow> s\<lparr>pcs := (pcs s)[i := HasBytes k n]\<rparr>) else None
     | _ \<Rightarrow> None) else None)"
| "load_act p (SendBytes i) s = (if i < length (pcs s) then (case pcs s ! i of
       HasBytes k n \<Rightarrow> if bytesClosed s then Some (s\<lparr>sentOnClosed := True\<rparr>)
         else if length (bytesCh s) < bytesCap p then Some (s\<lparr>pcs := (pcs s)[i := Requesting (Suc k)], bytesCh := bytesCh s @ [n]\<rparr>) else None
     | _ \<Rightarrow> None) else None)"
| "load_act p (RequestsDone i) s = (if i < length (pcs s) then (case pcs s ! i of
       Requesting k \<Rightarrow> if k < requests p then None else Some (s\<lparr>pcs := (pcs s)[i := Reporting None]\<rparr>)
     | _ \<Rightarrow> None) else None)"
| "load_act p (SendResult i) s = (if i < length (pcs s) then (case pcs s ! i of
       Reporting e \<Rightarrow> if length (errCh s) < errCap p then Some (s\<lparr>pcs := (pcs s)[i := WorkerDone], errCh := errCh s @ [e]\<rparr>)
         else if errCap p = 0 \<and> received s < length (pcs s) then Some (note_result e (s\<lparr>pcs := (pcs s)[i := WorkerDone]\<rparr>))
         else None
     | _ \<Rightarrow> None) else None)"
| "load_act p Receive s = (if received s < length (pcs s) then (case errCh s of
       e # rest \<Rightarrow> Some (note_result e (s\<lparr>errCh := rest\<rparr>))
     | [] \<Rightarrow> None) else None)"
| "load_act p CloseBytes s = (if received s = length (pcs s) \<and> \<not> bytesClosed s then Some (s\<lparr>bytesClosed := True\<rparr>) else None)"
| "load_act p AddBytes s = (if bytesClosed s then (case bytesCh s of
       n # rest \<Rightarrow> Some (s\<lparr>bytesCh := rest, totalBytes := totalBytes s + n\<rparr>)
     | [] \<Rightarrow> None) else None)"
| "load_act p Compare s = (if bytesClosed s \<and> bytesCh s = [] \<and> loadResult s = None
     then Some (s\<lparr>loadResult := Some (case failed s of
         Some e \<Rightarrow> Inl e
       | None \<Rightarrow> if totalBytes s \<noteq> wantBytes p then Inl (ByteCount (totalBytes s) (wantBytes p)) else Inr ())\<rparr>)
     else None)"

fun load_run :: "load_setup \<Rightarrow> load_action list \<Rightarrow> load_state \<Rightarrow> load_state option" where
  "load_run p [] s = Some s"
| "load_run p (a # as) s = do { s' \<leftarrow> load_act p a s; load_run p as s' }"

text \<open>The states a run of steps leads to, with the answers the requests got on the way.\<close>

fun answer_of :: "load_action \<Rightarrow> (go_error + u64) list" where
  "answer_of (Answer i out) = [out]"
| "answer_of _ = []"

inductive load_reach :: "load_setup \<Rightarrow> load_state \<Rightarrow> (go_error + u64) list \<Rightarrow> load_state \<Rightarrow> bool" for p s0 where
  start: "load_reach p s0 [] s0"
| step: "load_reach p s0 outs s \<Longrightarrow> load_act p a s = Some s' \<Longrightarrow> load_reach p s0 (outs @ answer_of a) s'"

lemma load_run_snoc: "load_run p (as @ [a]) s = Option.bind (load_run p as s) (load_act p a)"
  by (induction as arbitrary: s) (auto split: Option.bind_split)

lemma load_run_reach: "load_run p as s0 = Some s \<Longrightarrow> load_reach p s0 (concat (map answer_of as)) s"
proof (induction as arbitrary: s rule: rev_induct)
  case (snoc a as)
  then obtain s1 where "load_run p as s0 = Some s1" "load_act p a s1 = Some s" by (auto simp: load_run_snoc split: Option.bind_splits)
  then show ?case using load_reach.step [OF snoc.IH] by simp
qed (auto intro: load_reach.start)

section \<open>The invariant of the client\<close>

text \<open>How many sizes a worker can have sent.\<close>

fun sent_bound :: "nat \<Rightarrow> worker \<Rightarrow> nat" where
  "sent_bound R (Requesting k) = k"
| "sent_bound R (HasBytes k n) = k"
| "sent_bound R w = R"

fun worker_ok :: "nat \<Rightarrow> worker \<Rightarrow> bool" where
  "worker_ok R (Requesting k) \<longleftrightarrow> k \<le> R"
| "worker_ok R (HasBytes k n) \<longleftrightarrow> k < R"
| "worker_ok R w \<longleftrightarrow> True"

definition done_workers :: "load_state \<Rightarrow> nat" where
  "done_workers s = length (filter (\<lambda>w. w = WorkerDone) (pcs s))"

definition load_inv :: "load_setup \<Rightarrow> load_state \<Rightarrow> bool" where
  "load_inv p s \<longleftrightarrow> \<not> sentOnClosed s \<and> (\<forall>w\<in>set (pcs s). worker_ok (requests p) w) \<and>
     received s + length (errCh s) = done_workers s \<and> (bytesClosed s \<longrightarrow> received s = length (pcs s)) \<and>
     (\<not> bytesClosed s \<longrightarrow> length (bytesCh s) \<le> sum_list (map (sent_bound (requests p)) (pcs s))) \<and>
     (loadResult s \<noteq> None \<longrightarrow> bytesClosed s \<and> bytesCh s = [])"

lemma done_workers_le: "done_workers s \<le> length (pcs s)"
  by (simp add: done_workers_def)

lemma done_update:
  assumes "i < length (pcs s)" "pcs s ! i \<noteq> WorkerDone"
  shows "length (filter (\<lambda>w. w = WorkerDone) ((pcs s)[i := w])) = done_workers s + (if w = WorkerDone then 1 else 0)"
proof -
  have "pcs s = take i (pcs s) @ pcs s ! i # drop (Suc i) (pcs s)" "(pcs s)[i := w] = take i (pcs s) @ w # drop (Suc i) (pcs s)"
    using assms(1) by (simp_all add: id_take_nth_drop upd_conv_take_nth_drop)
  then have "filter (\<lambda>w. w = WorkerDone) ((pcs s)[i := w]) = filter (\<lambda>w. w = WorkerDone) (take i (pcs s)) @ (if w = WorkerDone then [w] else []) @ filter (\<lambda>w. w = WorkerDone) (drop (Suc i) (pcs s))"
    "filter (\<lambda>w. w = WorkerDone) (pcs s) = filter (\<lambda>w. w = WorkerDone) (take i (pcs s)) @ filter (\<lambda>w. w = WorkerDone) (drop (Suc i) (pcs s))"
    using assms(2) by (simp, metis (mono_tags, lifting) filter.simps(2) filter_append)
  then show ?thesis by (simp add: done_workers_def)
qed

lemma not_done:
  assumes "i < length (pcs s)" "pcs s ! i \<noteq> WorkerDone"
  shows "done_workers s < length (pcs s)"
  using done_update [OF assms, of WorkerDone] length_filter_le [of "\<lambda>w. w = WorkerDone" "(pcs s)[i := WorkerDone]"] by simp

lemma sum_update_nat:
  fixes f :: "'a \<Rightarrow> nat"
  assumes "i < length xs"
  shows "sum_list (map f (xs[i := x])) + f (xs ! i) = sum_list (map f xs) + f x"
  using assms by (induction xs arbitrary: i) (auto split: nat.splits simp: nth_Cons')

text \<open>A worker that goes on and sends nothing.\<close>

lemma load_inv_worker:
  assumes inv: "load_inv p s" and i: "i < length (pcs s)" "pcs s ! i \<noteq> WorkerDone" "w \<noteq> WorkerDone"
    and w: "worker_ok (requests p) w" "sent_bound (requests p) (pcs s ! i) \<le> sent_bound (requests p) w"
  shows "load_inv p (s\<lparr>pcs := (pcs s)[i := w]\<rparr>)"
proof -
  have "sum_list (map (sent_bound (requests p)) (pcs s)) \<le> sum_list (map (sent_bound (requests p)) ((pcs s)[i := w]))"
    using sum_update_nat [OF i(1), of "sent_bound (requests p)" w] w(2) by simp
  moreover have "done_workers (s\<lparr>pcs := (pcs s)[i := w]\<rparr>) = done_workers s"
    using done_update [OF i(1,2), of w] i(3) by (simp add: done_workers_def)
  ultimately show ?thesis using inv w(1) by (auto simp: load_inv_def dest!: set_update_subset_insert [THEN subsetD])
qed

text \<open>While a worker runs, the channel of sizes is open, and has room for what the worker still sends.\<close>

lemma load_inv_open:
  assumes inv: "load_inv p s" and i: "i < length (pcs s)" "pcs s ! i \<noteq> WorkerDone"
  shows "\<not> bytesClosed s" "received s < length (pcs s)" "length (errCh s) < length (pcs s)"
proof -
  have "received s + length (errCh s) < length (pcs s)" using inv not_done [OF i] by (simp add: load_inv_def)
  then show "\<not> bytesClosed s" "received s < length (pcs s)" "length (errCh s) < length (pcs s)" using inv by (auto simp: load_inv_def)
qed

lemma sum_sent_bound: "\<forall>w\<in>set ws. worker_ok R w \<Longrightarrow> sum_list (map (sent_bound R) ws) \<le> length ws * R"
proof (induction ws)
  case (Cons w ws)
  then show ?case by (cases w) auto
qed simp

lemma load_inv_room:
  assumes inv: "load_inv p s" and i: "i < length (pcs s)" "pcs s ! i = HasBytes k n"
  shows "length (bytesCh s) < length (pcs s) * requests p"
proof -
  have k: "k < requests p" using inv i nth_mem [OF i(1)] by (force simp: load_inv_def)
  have ok: "\<forall>w\<in>set ((pcs s)[i := Reporting None]). worker_ok (requests p) w" using inv by (auto simp: load_inv_def dest!: set_update_subset_insert [THEN subsetD])
  have "sum_list (map (sent_bound (requests p)) (pcs s)) < sum_list (map (sent_bound (requests p)) ((pcs s)[i := Reporting None]))"
    using sum_update_nat [OF i(1), of "sent_bound (requests p)" "Reporting None"] k i(2) by simp
  also have "\<dots> \<le> length (pcs s) * requests p" using sum_sent_bound [OF ok] by simp
  finally show ?thesis using inv load_inv_open(1) [OF inv i(1)] i(2) by (simp add: load_inv_def)
qed

lemma load_inv_act:
  assumes inv: "load_inv p s" and a: "load_act p a s = Some s'"
  shows "load_inv p s'"
proof -
  note I = inv [unfolded load_inv_def]
  show ?thesis
  proof (cases a)
    case (Answer i out)
    then obtain k where k: "i < length (pcs s)" "pcs s ! i = Requesting k" "k < requests p"
      using a by (auto split: if_splits worker.splits)
    have "s' = s\<lparr>pcs := (pcs s)[i := (case out of Inl e \<Rightarrow> Reporting (Some (RequestFailed i k e)) | Inr n \<Rightarrow> HasBytes k n)]\<rparr>"
      using a Answer k by (auto split: sum.splits)
    then show ?thesis using load_inv_worker [OF inv k(1)] k(2,3) by (auto split: sum.splits)
  next
    case (SendBytes i)
    then obtain k n where k: "i < length (pcs s)" "pcs s ! i = HasBytes k n"
      using a by (auto split: if_splits worker.splits)
    note o = load_inv_open [OF inv k(1)]
    have s': "s' = s\<lparr>pcs := (pcs s)[i := Requesting (Suc k)], bytesCh := bytesCh s @ [n]\<rparr>"
      using a SendBytes k o(1) by (auto split: if_splits)
    have kR: "k < requests p" using I k nth_mem [OF k(1)] by force
    have "sum_list (map (sent_bound (requests p)) ((pcs s)[i := Requesting (Suc k)])) = Suc (sum_list (map (sent_bound (requests p)) (pcs s)))"
      using sum_update_nat [OF k(1), of "sent_bound (requests p)" "Requesting (Suc k)"] k(2) by simp
    moreover have "done_workers s' = done_workers s" using done_update [OF k(1), of "Requesting (Suc k)"] k(2) by (simp add: s' done_workers_def)
    ultimately show ?thesis using I o k(2) kR by (auto simp: s' load_inv_def dest!: set_update_subset_insert [THEN subsetD])
  next
    case (RequestsDone i)
    then obtain k where k: "i < length (pcs s)" "pcs s ! i = Requesting k" "s' = s\<lparr>pcs := (pcs s)[i := Reporting None]\<rparr>"
      using a by (auto split: if_splits worker.splits)
    moreover have "k \<le> requests p" using I k nth_mem [OF k(1)] by force
    ultimately show ?thesis using load_inv_worker [OF inv k(1), of "Reporting None"] by simp
  next
    case (SendResult i)
    then obtain e where e: "i < length (pcs s)" "pcs s ! i = Reporting e"
      using a by (auto split: if_splits worker.splits)
    note o = load_inv_open [OF inv e(1)]
    have d: "done_workers (s\<lparr>pcs := (pcs s)[i := WorkerDone]\<rparr>) = Suc (done_workers s)"
      using done_update [OF e(1), of WorkerDone] e(2) by (simp add: done_workers_def)
    have "sum_list (map (sent_bound (requests p)) ((pcs s)[i := WorkerDone])) = sum_list (map (sent_bound (requests p)) (pcs s))"
      using sum_update_nat [OF e(1), of "sent_bound (requests p)" WorkerDone] e(2) by simp
    then show ?thesis using a I SendResult e o d
      by (auto simp: load_inv_def note_result_def done_workers_def split: if_splits dest!: set_update_subset_insert [THEN subsetD])
  qed (use a I in \<open>auto simp: load_inv_def note_result_def done_workers_def split: if_splits list.splits\<close>)
qed

section \<open>The client always comes to an end\<close>

text \<open>What is left to do.\<close>

fun work_left :: "nat \<Rightarrow> worker \<Rightarrow> nat" where
  "work_left R (Requesting k) = 3 * (R - k) + 3"
| "work_left R (HasBytes k n) = 3 * (R - k) + 2"
| "work_left R (Reporting e) = 2"
| "work_left R WorkerDone = 0"

definition load_left :: "load_setup \<Rightarrow> load_state \<Rightarrow> nat" where
  "load_left p s = sum_list (map (work_left (requests p)) (pcs s)) + length (errCh s) + length (bytesCh s) +
     (if bytesClosed s then 0 else 1) + (if loadResult s = None then 1 else 0)"

lemma load_left_update:
  assumes "i < length (pcs s)" and "work_left R w + d < work_left R (pcs s ! i)"
  shows "sum_list (map (work_left R) ((pcs s)[i := w])) + d < sum_list (map (work_left R) (pcs s))"
  using sum_update_nat [OF assms(1), of "work_left R" w] assms(2) by simp

lemma load_left_act:
  assumes inv: "load_inv p s" and a: "load_act p a s = Some s'"
  shows "load_left p s' < load_left p s"
proof (cases a)
  case (Answer i out)
  then obtain k where k: "i < length (pcs s)" "pcs s ! i = Requesting k" "k < requests p" using a by (auto split: if_splits worker.splits)
  define w where "w = (case out of Inl e \<Rightarrow> Reporting (Some (RequestFailed i k e)) | Inr n \<Rightarrow> HasBytes k n)"
  have "s' = s\<lparr>pcs := (pcs s)[i := w]\<rparr>" using a Answer k by (auto simp: w_def split: sum.splits)
  moreover have "work_left (requests p) w + 0 < work_left (requests p) (pcs s ! i)" using k by (auto simp: w_def split: sum.splits)
  ultimately show ?thesis using load_left_update [OF k(1), of "requests p" w 0] by (simp add: load_left_def)
next
  case (SendBytes i)
  then obtain k n where k: "i < length (pcs s)" "pcs s ! i = HasBytes k n" using a by (auto split: if_splits worker.splits)
  moreover have "k < requests p" using inv k nth_mem [OF k(1)] by (force simp: load_inv_def)
  ultimately show ?thesis using a SendBytes load_inv_open(1) [OF inv k(1)] load_left_update [OF k(1), of "requests p" "Requesting (Suc k)" 1]
    by (auto simp: load_left_def split: if_splits)
next
  case (RequestsDone i)
  then obtain k where k: "i < length (pcs s)" "pcs s ! i = Requesting k" "s' = s\<lparr>pcs := (pcs s)[i := Reporting None]\<rparr>"
    using a by (auto split: if_splits worker.splits)
  then show ?thesis using load_left_update [OF k(1), of "requests p" "Reporting None" 0] by (simp add: load_left_def)
next
  case (SendResult i)
  then obtain e where e: "i < length (pcs s)" "pcs s ! i = Reporting e" using a by (auto split: if_splits worker.splits)
  then show ?thesis using a SendResult load_left_update [OF e(1), of "requests p" WorkerDone 1]
    by (auto simp: load_left_def note_result_def split: if_splits)
qed (use a in \<open>auto simp: load_left_def note_result_def split: if_splits list.splits\<close>)

lemma load_run_inv: "load_inv p s \<Longrightarrow> load_run p as s = Some s' \<Longrightarrow> load_inv p s' \<and> load_left p s' + length as \<le> load_left p s"
proof (induction as arbitrary: s)
  case (Cons a as)
  then obtain s1 where s1: "load_act p a s = Some s1" "load_run p as s1 = Some s'" by (auto split: Option.bind_splits)
  then show ?case using Cons.IH [OF load_inv_act [OF Cons.prems(1) s1(1)] s1(2)] load_left_act [OF Cons.prems(1) s1(1)] by simp
qed simp

text \<open>As long as there is no result, some goroutine can go on.\<close>

definition caps_fit :: "load_setup \<Rightarrow> load_state \<Rightarrow> bool" where
  "caps_fit p s \<longleftrightarrow> length (pcs s) * requests p \<le> bytesCap p \<and> (errCap p = 0 \<or> length (pcs s) \<le> errCap p)"

lemma load_progress:
  assumes inv: "load_inv p s" and cap: "caps_fit p s" and "loadResult s = None"
  shows "\<exists>a s'. load_act p a s = Some s'"
proof (cases "\<exists>i<length (pcs s). pcs s ! i \<noteq> WorkerDone")
  case True
  then obtain i where i: "i < length (pcs s)" "pcs s ! i \<noteq> WorkerDone" by blast
  note o = load_inv_open [OF inv i]
  show ?thesis
  proof (cases "pcs s ! i")
    case (Requesting k)
    show ?thesis
    proof (cases "k < requests p")
      case True
      then show ?thesis using i Requesting by (intro exI [of _ "Answer i (Inr 0)"]) simp
    next
      case False
      then show ?thesis using i Requesting by (intro exI [of _ "RequestsDone i"]) simp
    qed
  next
    case (HasBytes k n)
    then show ?thesis using i o load_inv_room [OF inv i(1)] cap by (intro exI [of _ "SendBytes i"]) (auto simp: caps_fit_def)
  next
    case (Reporting e)
    then show ?thesis using i o cap by (intro exI [of _ "SendResult i"]) (auto simp: caps_fit_def)
  qed (use i in simp)
next
  case False
  then have "filter (\<lambda>w. w = WorkerDone) (pcs s) = pcs s" by (metis (mono_tags, lifting) filter_True in_set_conv_nth)
  then have r: "received s + length (errCh s) = length (pcs s)" using inv by (simp add: load_inv_def done_workers_def)
  show ?thesis
  proof (cases "errCh s")
    case (Cons e rest)
    then show ?thesis using r by (intro exI [of _ Receive]) simp
  next
    case Nil
    show ?thesis
    proof (cases "bytesClosed s")
      case False
      then show ?thesis using r Nil by (intro exI [of _ CloseBytes]) simp
    next
      case True
      then show ?thesis using assms(3) by (cases "bytesCh s") (force intro: exI [of _ AddBytes] exI [of _ Compare])+
    qed
  qed
qed

lemma pcs_length: "load_act p a s = Some s' \<Longrightarrow> length (pcs s') = length (pcs s)"
  by (cases a) (auto simp: note_result_def split: if_splits worker.splits list.splits sum.splits)

lemma load_run_length: "load_run p as s = Some s' \<Longrightarrow> length (pcs s') = length (pcs s)"
  by (induction as arbitrary: s) (auto split: Option.bind_splits simp: pcs_length)

section \<open>What the client adds up\<close>

definition bodies :: "(go_error + u64) list \<Rightarrow> u64 list" where
  "bodies outs = concat (map (\<lambda>r. case r of Inl e \<Rightarrow> [] | Inr n \<Rightarrow> [n]) outs)"

fun unsent :: "worker \<Rightarrow> u64" where
  "unsent (HasBytes k n) = n"
| "unsent w = 0"

definition load_verdict :: "load_setup \<Rightarrow> load_state \<Rightarrow> load_error + unit" where
  "load_verdict p s = (case failed s of
     Some e \<Rightarrow> Inl e
   | None \<Rightarrow> if totalBytes s \<noteq> wantBytes p then Inl (ByteCount (totalBytes s) (wantBytes p)) else Inr ())"

definition load_hist :: "load_setup \<Rightarrow> (go_error + u64) list \<Rightarrow> load_state \<Rightarrow> bool" where
  "load_hist p outs s \<longleftrightarrow>
     totalBytes s + sum_list (bytesCh s) + sum_list (map unsent (pcs s)) = sum_list (bodies outs) \<and>
     ((\<exists>e. Inl e \<in> set outs) \<longleftrightarrow> failed s \<noteq> None \<or> (\<exists>e. Some e \<in> set (errCh s)) \<or> (\<exists>e. Reporting (Some e) \<in> set (pcs s))) \<and>
     (loadResult s = None \<or> loadResult s = Some (load_verdict p s))"

lemma sum_update_group:
  fixes f :: "'a \<Rightarrow> 'b :: ab_group_add"
  assumes "i < length xs"
  shows "sum_list (map f (xs[i := x])) = sum_list (map f xs) - f (xs ! i) + f x"
  using assms by (induction xs arbitrary: i) (auto split: nat.splits simp: nth_Cons' algebra_simps)

lemma update_set:
  assumes "i < length xs"
  shows "(y \<in> set (xs[i := x]) \<or> y = xs ! i) \<longleftrightarrow> (y \<in> set xs \<or> y = x)"
proof
  assume "y \<in> set xs \<or> y = x"
  then show "y \<in> set (xs[i := x]) \<or> y = xs ! i"
    using assms by (auto simp: in_set_conv_nth nth_list_update)
qed (use assms set_update_subset_insert [of xs i x] in auto)

lemma load_hist_act:
  assumes inv: "load_inv p s" and h: "load_hist p outs s" and a: "load_act p a s = Some s'"
  shows "load_hist p (outs @ answer_of a) s'"
proof -
  note H = h [unfolded load_hist_def]
  have running: "loadResult s = None" if "i < length (pcs s)" "pcs s ! i \<noteq> WorkerDone" for i
    using load_inv_open(1) [OF inv that] inv by (auto simp: load_inv_def)
  show ?thesis
  proof (cases a)
    case (Answer i out)
    then obtain k where k: "i < length (pcs s)" "pcs s ! i = Requesting k" "k < requests p" using a by (auto split: if_splits worker.splits)
    define w where "w = (case out of Inl e \<Rightarrow> Reporting (Some (RequestFailed i k e)) | Inr n \<Rightarrow> HasBytes k n)"
    have s': "s' = s\<lparr>pcs := (pcs s)[i := w]\<rparr>" using a Answer k by (auto simp: w_def split: sum.splits)
    have "sum_list (map unsent ((pcs s)[i := w])) = sum_list (map unsent (pcs s)) + unsent w"
      using sum_update_group [OF k(1), of unsent w] k(2) by simp
    moreover have "(\<exists>e. Reporting (Some e) \<in> set ((pcs s)[i := w])) \<longleftrightarrow> (\<exists>e. Reporting (Some e) \<in> set (pcs s)) \<or> (\<exists>e. out = Inl e)"
    proof (cases out)
      case (Inl e)
      then show ?thesis using set_update_memI [OF k(1), of w] by (auto simp: w_def)
    next
      case (Inr n)
      then have "Reporting (Some e) \<in> set ((pcs s)[i := w]) \<longleftrightarrow> Reporting (Some e) \<in> set (pcs s)" for e
        using update_set [OF k(1), of "Reporting (Some e)" w] k(2) by (simp add: w_def)
      then show ?thesis using Inr by simp
    qed
    ultimately show ?thesis using H running [OF k(1)] k(2) Answer
      by (auto simp: load_hist_def s' bodies_def w_def algebra_simps load_verdict_def split: sum.splits)
  next
    case (SendBytes i)
    then obtain k n where k: "i < length (pcs s)" "pcs s ! i = HasBytes k n" using a by (auto split: if_splits worker.splits)
    have s': "s' = s\<lparr>pcs := (pcs s)[i := Requesting (Suc k)], bytesCh := bytesCh s @ [n]\<rparr>"
      using a SendBytes k load_inv_open(1) [OF inv k(1)] by (auto split: if_splits)
    have "totalBytes s + sum_list (bytesCh s @ [n]) + sum_list (map unsent ((pcs s)[i := Requesting (Suc k)])) = totalBytes s + sum_list (bytesCh s) + sum_list (map unsent (pcs s))"
      using sum_update_group [OF k(1), of unsent "Requesting (Suc k)"] k(2) by (simp add: algebra_simps)
    moreover have "(\<exists>e. Reporting (Some e) \<in> set ((pcs s)[i := Requesting (Suc k)])) \<longleftrightarrow> (\<exists>e. Reporting (Some e) \<in> set (pcs s))"
      using update_set [OF k(1), of _ "Requesting (Suc k)"] k(2) by auto
    ultimately show ?thesis using H running [OF k(1)] k(2) SendBytes unfolding load_hist_def by (simp add: s' del: sum_list_append)
  next
    case (RequestsDone i)
    then obtain k where k: "i < length (pcs s)" "pcs s ! i = Requesting k" "s' = s\<lparr>pcs := (pcs s)[i := Reporting None]\<rparr>"
      using a by (auto split: if_splits worker.splits)
    have "sum_list (map unsent ((pcs s)[i := Reporting None])) = sum_list (map unsent (pcs s))"
      using sum_update_group [OF k(1), of unsent "Reporting None"] k(2) by simp
    moreover have "(\<exists>e. Reporting (Some e) \<in> set ((pcs s)[i := Reporting None])) \<longleftrightarrow> (\<exists>e. Reporting (Some e) \<in> set (pcs s))"
      using update_set [OF k(1), of _ "Reporting None"] k(2) by auto
    ultimately show ?thesis using H running [OF k(1)] k(2) RequestsDone by (auto simp: load_hist_def k(3))
  next
    case (SendResult i)
    then obtain e where e: "i < length (pcs s)" "pcs s ! i = Reporting e" using a by (auto split: if_splits worker.splits)
    have "sum_list (map unsent ((pcs s)[i := WorkerDone])) = sum_list (map unsent (pcs s))"
      using sum_update_group [OF e(1), of unsent WorkerDone] e(2) by simp
    moreover have "(\<exists>x. Reporting (Some x) \<in> set (pcs s)) \<longleftrightarrow> (\<exists>x. Reporting (Some x) \<in> set ((pcs s)[i := WorkerDone])) \<or> e \<noteq> None"
      using update_set [OF e(1), of _ WorkerDone] e(2) by (cases e) auto
    ultimately show ?thesis using H running [OF e(1)] e(2) SendResult a
      by (auto simp: load_hist_def note_result_def split: if_splits)
  next
    case Receive
    then obtain e rest where e: "received s < length (pcs s)" "errCh s = e # rest" "s' = note_result e (s\<lparr>errCh := rest\<rparr>)"
      using a by (auto split: if_splits list.splits)
    then have "loadResult s = None" using inv by (auto simp: load_inv_def)
    then show ?thesis using H e Receive by (cases e) (auto simp: load_hist_def note_result_def)
  next
    case CloseBytes
    then have "loadResult s = None" "s' = s\<lparr>bytesClosed := True\<rparr>" using a inv by (auto simp: load_inv_def split: if_splits)
    then show ?thesis using CloseBytes H by (simp add: load_hist_def)
  next
    case AddBytes
    then obtain n rest where n: "bytesCh s = n # rest" "s' = s\<lparr>bytesCh := rest, totalBytes := totalBytes s + n\<rparr>"
      using a by (auto split: if_splits list.splits)
    moreover have "loadResult s = None" using inv n(1) by (auto simp: load_inv_def)
    ultimately show ?thesis using H AddBytes by (simp add: load_hist_def add.assoc)
  next
    case Compare
    then have "s' = s\<lparr>loadResult := Some (load_verdict p s)\<rparr>" using a by (simp add: load_verdict_def split: if_splits)
    moreover have "load_verdict p (s\<lparr>loadResult := x\<rparr>) = load_verdict p s" for x
      by (cases "failed s") (simp_all add: load_verdict_def)
    ultimately show ?thesis using H Compare by (simp add: load_hist_def)
  qed
qed

lemma load_start_facts:
  assumes "load_start windows N R m = Some (p, s)"
  shows "load_inv p s" "load_hist p [] s" "length (pcs s) = nat N" "requests p = nat R"
    "load_left p s = nat N * (3 * nat R + 3) + 2" "loadResult s = None"
  using assms
  by (auto simp: load_start_def Let_def load_inv_def load_hist_def done_workers_def bodies_def load_left_def sum_list_replicate
    split: if_splits dest!: in_set_replicate [THEN iffD1])

lemma load_start_caps:
  assumes "load_start windows N R m = Some (p, s)" and "0 \<le> N" "0 \<le> R" "N * R < 2 ^ 63"
  shows "caps_fit p s"
proof -
  have "sint (of_int N * of_int R :: u64) = N * R"
  proof -
    have "of_int N * of_int R = (of_int (N * R) :: u64)" by simp
    moreover have "signed_take_bit 63 (N * R) = N * R"
      using assms(4) order_trans [OF _ mult_nonneg_nonneg [OF assms(2,3)], of "- (2 ^ 63)"] by (intro signed_take_bit_int_eq_self) simp_all
    ultimately show ?thesis by (simp only: signed_of_int) simp
  qed
  moreover have "N = 0 \<or> R = 0 \<or> N \<le> N * R" using assms(2,3) by (cases "R = 0") (auto simp: mult_le_cancel_left1)
  ultimately show ?thesis using assms
    by (auto simp: load_start_def Let_def caps_fit_def nat_mult_distrib zero_le_mult_iff split: if_splits)
qed

lemma load_reach_hist: "load_reach p s0 outs s \<Longrightarrow> load_inv p s0 \<Longrightarrow> load_hist p [] s0 \<Longrightarrow> load_inv p s \<and> load_hist p outs s"
  by (induction rule: load_reach.induct) (auto intro: load_inv_act load_hist_act)

section \<open>Properties\<close>

text \<open>C28. Whatever the network answers and however the goroutines interleave, the load client of both programs comes to its end: with
  non-negative flags no goroutine ever sends on the closed channel, every run is finite with a bound on its steps, and a run that
  cannot go on has returned a result. \<open>runClient\<close> succeeds exactly when no request failed and the bodies add up to the bytes expected.\<close>

theorem load_client_ends:
  assumes "load_start windows N R m = Some (p, s0)" and "0 \<le> N" "0 \<le> R" "N * R < 2 ^ 63" and "load_run p as s0 = Some s"
  shows "\<not> sentOnClosed s \<and> length as \<le> nat N * (3 * nat R + 3) + 2 \<and>
    ((\<forall>a. load_act p a s = None) \<longrightarrow> loadResult s \<noteq> None) \<and>
    (loadResult s \<noteq> None \<longrightarrow> (loadResult s = Some (Inr ()) \<longleftrightarrow>
       (\<forall>e. Inl e \<notin> set (concat (map answer_of as))) \<and> sum_list (bodies (concat (map answer_of as))) = wantBytes p))"
proof -
  note f = load_start_facts [OF assms(1)]
  have r: "load_inv p s" "load_left p s + length as \<le> load_left p s0" using load_run_inv [OF f(1) assms(5)] by simp_all
  have h: "load_hist p (concat (map answer_of as)) s" using load_reach_hist [OF load_run_reach [OF assms(5)] f(1,2)] by simp
  have c: "caps_fit p s" using load_start_caps [OF assms(1-4)] load_run_length [OF assms(5)] by (simp add: caps_fit_def)
  have pr: "loadResult s \<noteq> None" if "\<forall>a. load_act p a s = None" using load_progress [OF r(1) c] that by force
  have verdict: "loadResult s = Some (Inr ()) \<longleftrightarrow> (\<forall>e. Inl e \<notin> set (concat (map answer_of as))) \<and> sum_list (bodies (concat (map answer_of as))) = wantBytes p"
    if "loadResult s \<noteq> None"
  proof -
    have b: "bytesCh s = []" "received s = length (pcs s)" using r(1) that by (auto simp: load_inv_def)
    have "received s + length (errCh s) = done_workers s" using r(1) by (simp add: load_inv_def)
    then have "length (errCh s) = 0" and f: "length (filter (\<lambda>w. w = WorkerDone) (pcs s)) = length (pcs s)"
      using b(2) done_workers_le [of s] unfolding done_workers_def by linarith+
    have d: "w = WorkerDone" if "w \<in> set (pcs s)" for w
      using length_filter_less [of w "pcs s" "\<lambda>w. w = WorkerDone"] f that by auto
    have "unsent x = 0" if "x \<in> set (pcs s)" for x using d [OF that] by simp
    then have m: "map unsent (pcs s) = map (\<lambda>_. 0) (pcs s)" by (intro map_cong) auto
    have "sum_list (map unsent (pcs s)) = 0" unfolding m by simp
    moreover have "\<forall>e. Reporting e \<notin> set (pcs s)" using d by blast
    ultimately show ?thesis using h that b(1) \<open>length (errCh s) = 0\<close>
      by (auto simp: load_hist_def load_verdict_def split: option.splits if_splits)
  qed
  have "\<not> sentOnClosed s" "length as \<le> nat N * (3 * nat R + 3) + 2" using r f(5) by (simp_all add: load_inv_def)
  then show ?thesis using pr verdict by blast
qed

theorem load_client_ends_witness:
  "\<exists>p s0 s. load_start False 1 1 1 = Some (p, s0) \<and>
    load_run p [Answer 0 (Inr 1048576), SendBytes 0, RequestsDone 0, SendResult 0, Receive, CloseBytes, AddBytes, Compare] s0 = Some s \<and>
    loadResult s = Some (Inr ()) \<and> (\<forall>a. load_act p a s = None \<or> sum_list (bodies (answer_of a)) = 0) \<and> wantBytes p = sum_list (bodies [Inr 1048576])"
proof -
  define p where "p = \<lparr>requests = 1, errCap = 1, bytesCap = 1, wantBytes = 1048576 :: u64\<rparr>"
  define s0 where "s0 = \<lparr>pcs = [Requesting 0], errCh = [], bytesCh = [], bytesClosed = False, received = 0,
    failed = None, totalBytes = 0, loadResult = None, sentOnClosed = False\<rparr>"
  define acts :: "load_action list" where "acts = [Answer 0 (Inr 1048576), SendBytes 0, RequestsDone 0, SendResult 0, Receive, CloseBytes, AddBytes, Compare]"
  have st: "load_start False 1 1 1 = Some (p, s0)" by (simp add: load_start_def p_def s0_def total_bytes_def)
  obtain s where s: "load_run p acts s0 = Some s" "loadResult s = Some (Inr ())" "pcs s = [WorkerDone]"
    by (simp add: acts_def p_def s0_def note_result_def)
  have w: "wantBytes p = sum_list (bodies [Inr 1048576])"
    using load_client_ends [OF st _ _ _ s(1)] s(2) by (simp add: acts_def)
  have "load_act p a s = None \<or> sum_list (bodies (answer_of a)) = 0" for a
    using s(3) by (cases a) (auto simp: bodies_def less_Suc_eq)
  then show ?thesis using st s(1,2) w unfolding acts_def by blast
qed

text \<open>C29. The retry loops end: when the clock runs on while the loop sleeps, \<open>getWithRetry\<close> makes at most one attempt per 200 milliseconds of
  the timeout and one more, and returns the first success, or after the deadline the last error; it returns neither a response nor an error
  when the deadline has passed before the first attempt.\<close>

theorem getWithRetry_ends:
  assumes "clock_runs now" and "start \<le> now 0"
  shows "\<exists>n r. getWithRetry start now get timeout = Some r \<and> (n = 0 \<or> 200000000 * (int n - 1) < timeout) \<and>
    (\<forall>j<n. now j < start + timeout \<and> (\<exists>e. get j = Inl e)) \<and>
    (case r of
       Inr v \<Rightarrow> now n < start + timeout \<and> get n = Inr v
     | Inl None \<Rightarrow> n = 0 \<and> start + timeout \<le> now 0
     | Inl (Some e) \<Rightarrow> 0 < n \<and> start + timeout \<le> now n \<and> get (n - 1) = Inl e) \<and>
    listenTCP4Retry start now get timeout = Some r"
proof -
  obtain n r where r: "retry_loop now get (start + timeout) 0 None = Some r" "retried now get (start + timeout) 0 None n r"
    using retry_loop_ends [OF assms(1), of get "start + timeout" 0 None] by blast
  have "n = 0 \<or> 200000000 * (int n - 1) < timeout" using retried_bound [OF assms r(2)] by blast
  then show ?thesis using r
    by (intro exI [of _ n] exI [of _ r]) (auto simp: getWithRetry_def listenTCP4Retry_def retried_def split: sum.splits option.splits if_splits)
qed

theorem getWithRetry_ends_witness:
  "\<exists>r. getWithRetry 0 (\<lambda>i. 300000000 * int i) (\<lambda>i. if i < 2 then Inl ErrClosed else Inr True) 10000000000 = Some r \<and> r = Inr True"
proof -
  define now :: "nat \<Rightarrow> int" where "now = (\<lambda>i. 300000000 * int i)"
  define get :: "nat \<Rightarrow> go_error + bool" where "get = (\<lambda>i. if i < 2 then Inl ErrClosed else Inr True)"
  have c: "clock_runs now" "0 \<le> now 0" by (simp_all add: now_def clock_runs_def)
  obtain r where r: "getWithRetry 0 now get 10000000000 = Some r" using getWithRetry_ends [OF c, of get 10000000000] by blast
  moreover have "getWithRetry 0 now get 10000000000 = Some (Inr True)"
    by (simp add: getWithRetry_def retry_loop.simps now_def get_def)
  ultimately show ?thesis unfolding now_def get_def by simp
qed

text \<open>The download handler sends what it announces: with at most 2^43 - 1 MiB configured and no failing write, the body has exactly
  \<^verbatim>\<open>Content-Length\<close> bytes, in non-empty writes of at most 256 KiB, and counts up modulo 256.\<close>

theorem download_body:
  assumes "0 \<le> m" and "m < 2 ^ 43"
  shows "case download m (\<lambda>_. True) of (contentLength, writes) \<Rightarrow>
    contentLength = m * 2 ^ 20 \<and> concat writes = map of_nat [0..<nat (m * 2 ^ 20)] \<and> (\<forall>c\<in>set writes. c \<noteq> [] \<and> length c \<le> 256 * 1024)"
proof -
  have "0 \<le> m * 2 ^ 20" using assms by simp
  from download_loop_body [OF _ this, of "\<lambda>_. True" 0] show ?thesis by (simp add: download_def sint_total_bytes [OF assms])
qed

theorem download_body_witness: "fst (download 16 (\<lambda>_. True)) = 16777216"
  using download_body [of 16] by (simp split: prod.splits)

end
