(* ===== verification/Example_Netsh.thy ===== *)
theory Example_Netsh
  imports Bsd_Lifecycle
begin

text \<open>
  The helpers of the Windows examples (\<^verbatim>\<open>example/windows/main.go\<close>, \<^verbatim>\<open>example/windows-pair-load/main.go\<close>): the subnet mask of a prefix
  length, and the interface index read from the table that \<^verbatim>\<open>netsh\<close> prints.
\<close>

section \<open>Subnet masks\<close>

text \<open>A negative shift count panics, one of 32 or more gives zero.\<close>

definition cidrPrefixToMask :: "int \<Rightarrow> string option" where
  "cidrPrefixToMask prefix = (if 32 - prefix < 0 then None
     else let mask = push_bit (nat (32 - prefix)) 0xFFFFFFFF :: u32;
              octet = (\<lambda>k. decimal (unat (drop_bit k mask AND 0xFF)))
          in Some (octet 24 @ ''.'' @ octet 16 @ ''.'' @ octet 8 @ ''.'' @ octet 0))"

section \<open>The table of interfaces\<close>

text \<open>\<^verbatim>\<open>strings.Split(s, "\n")\<close>, \<^verbatim>\<open>strings.Contains\<close>, \<^verbatim>\<open>strings.Fields\<close> and \<^verbatim>\<open>strconv.Atoi\<close>; white space is that of ASCII.\<close>

fun split_on :: "char \<Rightarrow> string \<Rightarrow> string list" where
  "split_on c [] = [[]]"
| "split_on c (x # xs) = (case split_on c xs of
     [] \<Rightarrow> [[x]]
   | l # ls \<Rightarrow> if x = c then [] # l # ls else (x # l) # ls)"

fun contains :: "string \<Rightarrow> string \<Rightarrow> bool" where
  "contains [] w \<longleftrightarrow> w = []"
| "contains (c # cs) w \<longleftrightarrow> take (length w) (c # cs) = w \<or> contains cs w"

definition is_space :: "char \<Rightarrow> bool" where
  "is_space c \<longleftrightarrow> (of_char c :: nat) \<in> {9, 10, 11, 12, 13, 32}"

function split_fields :: "string \<Rightarrow> string list" where
  "split_fields [] = []"
| "split_fields (c # cs) = (if is_space c then split_fields cs
     else (c # takeWhile (\<lambda>x. \<not> is_space x) cs) # split_fields (dropWhile (\<lambda>x. \<not> is_space x) cs))"
  by pat_completeness auto
termination by (relation "measure length") (auto simp: less_Suc_eq_le length_dropWhile_le)

definition atoi :: "string \<Rightarrow> int option" where
  "atoi s = (let neg = (s \<noteq> [] \<and> hd s = CHR ''-'');
                 ds = (if s \<noteq> [] \<and> hd s \<in> {CHR ''-'', CHR ''+''} then tl s else s);
                 v = (if neg then - int (digits_value ds) else int (digits_value ds))
             in if ds = [] \<or> \<not> (\<forall>c\<in>set ds. is_digit c) \<or> v < - (2 ^ 63) \<or> 2 ^ 63 \<le> v then None else Some v)"

fun index_of_lines :: "string \<Rightarrow> string list \<Rightarrow> int option" where
  "index_of_lines name [] = None"
| "index_of_lines name (line # rest) =
     (if \<not> contains line name then index_of_lines name rest
      else case split_fields line of
        [] \<Rightarrow> index_of_lines name rest
      | f # _ \<Rightarrow> (case atoi f of Some idx \<Rightarrow> Some idx | None \<Rightarrow> index_of_lines name rest))"

definition getInterfaceIndex :: "go_error + string \<Rightarrow> string \<Rightarrow> go_error + int" where
  "getInterfaceIndex out name = (case out of
     Inl e \<Rightarrow> Inl (ErrWrap ''failed to list interfaces'' e)
   | Inr text \<Rightarrow> (case index_of_lines name (split_on (char_of (10 :: nat)) text) of
        Some idx \<Rightarrow> Inr idx
      | None \<Rightarrow> Inl (ErrMsg (''interface '' @ name @ '' not found''))))"

section \<open>Lemmas\<close>

lemma atoi_decimal: "n < 2 ^ 63 \<Longrightarrow> atoi (decimal n) = Some (int n)"
proof -
  assume n: "n < 2 ^ 63"
  obtain c cs where c: "decimal n = c # cs" using decimal_digits by (cases "decimal n") auto
  then have "c \<noteq> CHR ''-'' \<and> c \<noteq> CHR ''+''" using decimal_digits [of n] digit_no_sign by auto
  moreover have "int n < 2 ^ 63" using n by simp
  ultimately show ?thesis using decimal_digits [of n] by (simp add: atoi_def Let_def c)
qed

lemma digit_not_space: "is_digit c \<Longrightarrow> \<not> is_space c"
  by (auto simp: is_digit_def is_space_def)

lemma fields_first:
  assumes "\<forall>c\<in>set sp. is_space c" and "w \<noteq> []" "\<forall>c\<in>set w. \<not> is_space c" and "rest = [] \<or> is_space (hd rest)"
  shows "\<exists>fs. split_fields (sp @ w @ rest) = w # fs"
  using assms(1)
proof (induction sp)
  case Nil
  obtain c cs where w: "w = c # cs" using assms(2) by (cases w) auto
  then have "takeWhile (\<lambda>x. \<not> is_space x) (cs @ rest) = cs" using assms(3,4) by (cases rest) (auto simp: takeWhile_append)
  then show ?case using assms(3) w by simp
qed simp

lemma split_on_nonempty: "split_on c xs \<noteq> []"
  by (cases xs) (auto split: list.splits)

lemma split_on_line: "c \<notin> set l \<Longrightarrow> split_on c (l @ c # xs) = l # split_on c xs"
proof (induction l)
  case Nil
  then show ?case using split_on_nonempty [of c xs] by (cases "split_on c xs") auto
qed auto

lemma split_on_last: "c \<notin> set l \<Longrightarrow> split_on c l = [l]"
  by (induction l) auto

lemma split_join: "\<forall>l\<in>set ls. c \<notin> set l \<Longrightarrow> split_on c (concat (map (\<lambda>l. l @ [c]) ls)) = ls @ [[]]"
  by (induction ls) (auto simp: split_on_line)

lemma contains_append: "contains (a @ w @ b) w"
proof (induction a)
  case Nil
  have "take (length w) (w @ b) = w" by simp
  then show ?case by (cases "w @ b") simp_all
qed simp

lemma index_of_lines_first:
  assumes "\<forall>l\<in>set before. contains l name \<longrightarrow> split_fields l = [] \<or> atoi (hd (split_fields l)) = None" and "contains line name" "split_fields line = f # fs" "atoi f = Some i"
  shows "index_of_lines name (before @ line # after) = Some i"
  using assms(1)
proof (induction before)
  case (Cons l ls)
  then show ?case by (cases "split_fields l") auto
qed (use assms(2-4) in simp)

section \<open>The table as it is printed\<close>

text \<open>A row: indentation, index, the other columns, the name; every line ends with carriage return and line feed.\<close>

record if_row =
  rowIndent :: string
  rowIndex :: nat
  rowColumns :: string
  rowName :: string

definition row_line :: "if_row \<Rightarrow> string" where
  "row_line r = rowIndent r @ decimal (rowIndex r) @ rowColumns r @ rowName r @ [char_of (13 :: nat)]"

definition table_text :: "string list \<Rightarrow> if_row list \<Rightarrow> string" where
  "table_text head rows = concat (map (\<lambda>l. l @ [char_of (10 :: nat)]) (head @ map row_line rows))"

definition row_ok :: "if_row \<Rightarrow> bool" where
  "row_ok r \<longleftrightarrow> (\<forall>c\<in>set (rowIndent r). is_space c) \<and> rowColumns r \<noteq> [] \<and> is_space (hd (rowColumns r)) \<and> rowIndex r < 2 ^ 63 \<and>
     (\<forall>c\<in>set (row_line r). c \<noteq> char_of (10 :: nat))"

lemma row_fields:
  assumes "row_ok r"
  shows "\<exists>fs. split_fields (row_line r) = decimal (rowIndex r) # fs"
proof -
  have d: "decimal (rowIndex r) \<noteq> []" "\<forall>c\<in>set (decimal (rowIndex r)). \<not> is_space c" using decimal_digits [of "rowIndex r"] digit_not_space by auto
  show ?thesis unfolding row_line_def using assms
    by (intro fields_first d) (auto simp: row_ok_def)
qed

section \<open>Properties\<close>

text \<open>The subnet mask of a prefix length between 0 and 32 is printed as four decimal octets that have, read as one number, the first
  \<open>prefix\<close> bits set and no others; a longer prefix panics.\<close>

theorem cidrPrefixToMask_bits:
  assumes "0 \<le> prefix"
  shows "if prefix \<le> 32 then (\<exists>a b c d. cidrPrefixToMask prefix = Some (decimal a @ ''.'' @ decimal b @ ''.'' @ decimal c @ ''.'' @ decimal d) \<and>
      a < 256 \<and> b < 256 \<and> c < 256 \<and> d < 256 \<and> a * 2 ^ 24 + b * 2 ^ 16 + c * 2 ^ 8 + d = 2 ^ 32 - 2 ^ nat (32 - prefix))
    else cidrPrefixToMask prefix = None"
proof (cases "prefix \<le> 32")
  case True
  define mask :: u32 where "mask = push_bit (nat (32 - prefix)) 0xFFFFFFFF"
  define oct where "oct = (\<lambda>k. unat (drop_bit k mask AND 0xFF))"
  have o: "oct k = unat mask div 2 ^ k mod 256" for k
  proof -
    have "drop_bit k mask AND 0xFF = take_bit 8 (drop_bit k mask)" by (simp add: take_bit_eq_mask mask_numeral)
    moreover have "unat (drop_bit k mask) = drop_bit k (unat mask)"
      using unat_less_power [of mask] by (simp add: unsigned_drop_bit_eq take_bit_nat_eq_self)
    ultimately have "oct k = take_bit 8 (drop_bit k (unat mask))"
      by (simp only: oct_def unsigned_take_bit_eq)
    then show ?thesis by (simp only: take_bit_eq_mod drop_bit_eq_div) simp
  qed
  have sum: "(m div 2 ^ 24 mod 256) * 2 ^ 24 + (m div 2 ^ 16 mod 256) * 2 ^ 16 + (m div 2 ^ 8 mod 256) * 2 ^ 8 + m mod 256 = m" if "m < 2 ^ 32" for m :: nat
  proof -
    have l: "m div 16777216 < 256" using that by (simp add: div_less_iff_less_mult)
    have d: "m div 256 div 256 = m div 65536" "m div 65536 div 256 = m div 16777216" by (simp_all flip: div_mult2_eq)
    have "m = m div 256 * 256 + m mod 256" "m div 256 = m div 256 div 256 * 256 + m div 256 mod 256"
      "m div 65536 = m div 65536 div 256 * 256 + m div 65536 mod 256" by simp_all
    then have "m div 16777216 * 16777216 + m div 65536 mod 256 * 65536 + m div 256 mod 256 * 256 + m mod 256 = m"
      unfolding d by linarith
    then show ?thesis using l by simp
  qed
  define k where "k = nat (32 - prefix)"
  have "k \<le> 32" using assms by (simp add: k_def)
  then have k: "k \<le> 32" "(2 :: nat) ^ k \<le> 2 ^ 32" by (simp_all only: power_increasing one_le_numeral)
  have "mask = of_nat (2 ^ k * (2 ^ 32 - 1))" by (simp add: mask_def k_def [symmetric] push_bit_eq_mult mult.commute)
  then have "unat mask = (2 ^ k * (2 ^ 32 - 1)) mod 2 ^ 32" by (simp only: unsigned_of_nat take_bit_eq_mod) simp
  also have "2 ^ k * (2 ^ 32 - 1) = (2 ^ k - 1) * 2 ^ 32 + (2 ^ 32 - 2 ^ k :: nat)"
    using k(2) one_le_power [of "2 :: nat" k] by (simp add: algebra_simps)
  also have "\<dots> mod 2 ^ 32 = 2 ^ 32 - 2 ^ k" by (simp only: mod_mult_self3) (simp add: mod_less)
  finally have m: "unat mask = 2 ^ 32 - 2 ^ k" .
  have "oct 24 * 2 ^ 24 + oct 16 * 2 ^ 16 + oct 8 * 2 ^ 8 + oct 0 = 2 ^ 32 - 2 ^ k"
    using sum [of "unat mask"] unat_less_power [of mask] by (simp only: o m) simp
  moreover have "oct i < 256" for i by (simp add: o)
  moreover have "cidrPrefixToMask prefix = Some (decimal (oct 24) @ ''.'' @ decimal (oct 16) @ ''.'' @ decimal (oct 8) @ ''.'' @ decimal (oct 0))"
    using True by (simp add: cidrPrefixToMask_def Let_def oct_def mask_def)
  ultimately show ?thesis using True unfolding k_def by (simp only: if_True) blast
qed (use assms in \<open>simp add: cidrPrefixToMask_def\<close>)

theorem cidrPrefixToMask_bits_witness:
  "\<exists>a b c d. cidrPrefixToMask 24 = Some (decimal a @ ''.'' @ decimal b @ ''.'' @ decimal c @ ''.'' @ decimal d) \<and>
    a * 2 ^ 24 + b * 2 ^ 16 + c * 2 ^ 8 + d = 4294967040"
  using cidrPrefixToMask_bits [of 24] by auto

text \<open>C40. \<open>getInterfaceIndex\<close> finds its interface in the table that \<^verbatim>\<open>netsh\<close> prints: when the lines above the rows do not contain the name,
  and no row above the interface's does either, it returns the index of the row.\<close>

theorem getInterfaceIndex_finds:
  assumes "\<forall>l\<in>set head. \<not> contains l (rowName r) \<and> char_of (10 :: nat) \<notin> set l" and "\<forall>q\<in>set (above_rows @ r # below). row_ok q"
    and "\<forall>q\<in>set above_rows. \<not> contains (row_line q) (rowName r)"
  shows "getInterfaceIndex (Inr (table_text head (above_rows @ r # below))) (rowName r) = Inr (int (rowIndex r))"
proof -
  obtain fs where f: "split_fields (row_line r) = decimal (rowIndex r) # fs" using row_fields assms(2) by fastforce
  have c: "contains (row_line r) (rowName r)"
    using contains_append [of "rowIndent r @ decimal (rowIndex r) @ rowColumns r" "rowName r"] by (simp add: row_line_def)
  have i: "atoi (decimal (rowIndex r)) = Some (int (rowIndex r))" using assms(2) by (intro atoi_decimal) (simp add: row_ok_def)
  have "split_on (char_of (10 :: nat)) (table_text head (above_rows @ r # below)) = (head @ map row_line above_rows) @ row_line r # (map row_line below @ [[]])"
    unfolding table_text_def by (subst split_join) (use assms(1,2) in \<open>auto simp: row_ok_def\<close>)
  moreover have "index_of_lines (rowName r) ((head @ map row_line above_rows) @ row_line r # (map row_line below @ [[]])) = Some (int (rowIndex r))"
    by (rule index_of_lines_first [OF _ c f i]) (use assms(1,3) in auto)
  ultimately show ?thesis by (simp add: getInterfaceIndex_def)
qed

definition ex_row :: "nat \<Rightarrow> string \<Rightarrow> if_row" where
  "ex_row i n = \<lparr>rowIndent = ''  '', rowIndex = i, rowColumns = ''  25  1500  connected  '', rowName = n\<rparr>"

lemma newline_char: "char_of (10 :: nat) = CHR 0x0A" "char_of (13 :: nat) = CHR 0x0D"
  by (simp_all add: char_of_eq_iff)

lemma ex_row_ok: "row_ok (ex_row 7 ''tun01'')" "row_ok (ex_row 9 ''tun0'')" "row_ok (ex_row 12 ''Ethernet'')"
  by (simp_all add: row_ok_def row_line_def ex_row_def is_space_def decimal.simps newline_char char_of_eq_iff)

theorem getInterfaceIndex_finds_witness:
  "getInterfaceIndex (Inr (table_text [''Idx  Name''] [ex_row 12 ''Ethernet'', ex_row 9 ''tun0''])) ''tun0'' = Inr 9"
proof -
  have "\<not> contains (row_line (ex_row 12 ''Ethernet'')) ''tun0''"
    by (simp add: row_line_def ex_row_def decimal.simps newline_char)
  then show ?thesis
    using getInterfaceIndex_finds [of "[''Idx  Name'']" "ex_row 9 ''tun0''" "[ex_row 12 ''Ethernet'']" "[]"] ex_row_ok
    by (simp add: newline_char) (simp add: ex_row_def)
qed

text \<open>The name is only looked for: an interface whose name contains it, further up, is taken for it.\<close>

theorem getInterfaceIndex_substring:
  "getInterfaceIndex (Inr (table_text [] [ex_row 7 ''tun01'', ex_row 9 ''tun0''])) ''tun0'' = Inr 7"
proof -
  obtain fs where f: "split_fields (row_line (ex_row 7 ''tun01'')) = decimal 7 # fs" using row_fields [OF ex_row_ok(1)] by (auto simp: ex_row_def)
  have c: "contains (row_line (ex_row 7 ''tun01'')) ''tun0''" by (simp add: row_line_def ex_row_def decimal.simps)
  have "split_on (char_of (10 :: nat)) (table_text [] [ex_row 7 ''tun01'', ex_row 9 ''tun0'']) = [] @ row_line (ex_row 7 ''tun01'') # [row_line (ex_row 9 ''tun0''), []]"
    unfolding table_text_def by (subst split_join) (use ex_row_ok in \<open>auto simp: row_ok_def\<close>)
  moreover have "index_of_lines ''tun0'' ([] @ row_line (ex_row 7 ''tun01'') # [row_line (ex_row 9 ''tun0''), []]) = Some 7"
    by (rule index_of_lines_first [OF _ c f]) (use atoi_decimal [of 7] in simp_all)
  ultimately show ?thesis by (simp add: getInterfaceIndex_def)
qed

end
