(* ===== verification/Example_Setup.thy ===== *)
theory Example_Setup
  imports Example_Netsh "HOL-Library.Sublist"
begin

text \<open>
  The main functions of the four example programs (\<^verbatim>\<open>example/*/main.go\<close>): they create devices, configure them with the commands of
  the system, start the goroutines that do the work, wait, and undo the configuration. A call of the system is an element of a log;
  what it answers is a parameter that may look at the log. \<^verbatim>\<open>log.Fatal\<close> and \<^verbatim>\<open>os.Exit\<close> end the process without running deferred
  functions: the result None. What is only logged is left out.
\<close>

section \<open>Calls\<close>

datatype host_call =
    Run "string list"               \<comment> \<open>\<^verbatim>\<open>exec.Command(...).CombinedOutput()\<close>\<close>
  | OpenTun string int              \<comment> \<open>\<open>CreateTUN\<close>\<close>
  | TunName string                  \<comment> \<open>\<open>Name\<close> of the device created under this name\<close>
  | CloseTun string
  | Privileged                      \<comment> \<open>\<^verbatim>\<open>os.Geteuid\<close>, or opening the physical drive: fails without the right\<close>
  | Go string                       \<comment> \<open>a goroutine\<close>
  | Ask string                      \<comment> \<open>another function of the program or of its libraries\<close>
  | StartCmd "string list"
  | RunCmd "string list"
  | KillCmd "string list"
  | WaitCmd "string list"
  | Receive string                  \<comment> \<open>from the channel of this name\<close>

type_synonym host_log = "(host_call \<times> go_error option) list"

record host_env =
  hfails :: "host_log \<Rightarrow> host_call \<Rightarrow> go_error option"
  htext :: "host_log \<Rightarrow> host_call \<Rightarrow> string"

type_synonym 'a prog = "(host_log, 'a option) state"

abbreviation done_with :: "'a \<Rightarrow> 'a prog" where
  "done_with x \<equiv> State_Monad.return (Some x)"

abbreviation fatal :: "'a prog" where
  "fatal \<equiv> State_Monad.return None"

definition next_step :: "'a prog \<Rightarrow> ('a \<Rightarrow> 'b prog) \<Rightarrow> 'b prog" where
  "next_step m f = do { r \<leftarrow> m; case r of None \<Rightarrow> fatal | Some v \<Rightarrow> f v }"

definition attempt :: "host_env \<Rightarrow> host_call \<Rightarrow> (go_error + string) prog" where
  "attempt env c = State (\<lambda>l. (Some (case hfails env l c of Some e \<Rightarrow> Inl e | None \<Rightarrow> Inr (htext env l c)), l @ [(c, hfails env l c)]))"

text \<open>An error that is logged or dropped; an error that is fatal, with the text of the answer.\<close>

definition try_call :: "host_env \<Rightarrow> host_call \<Rightarrow> unit prog" where
  "try_call env c = next_step (attempt env c) (\<lambda>_. done_with ())"

definition must_text :: "host_env \<Rightarrow> host_call \<Rightarrow> string prog" where
  "must_text env c = next_step (attempt env c) (\<lambda>r. case r of Inl e \<Rightarrow> fatal | Inr t \<Rightarrow> done_with t)"

definition must :: "host_env \<Rightarrow> host_call \<Rightarrow> unit prog" where
  "must env c = next_step (must_text env c) (\<lambda>_. done_with ())"

fun must_all :: "host_env \<Rightarrow> host_call list \<Rightarrow> unit prog" where
  "must_all env [] = done_with ()"
| "must_all env (c # cs) = next_step (must env c) (\<lambda>_. must_all env cs)"

fun try_all :: "host_env \<Rightarrow> host_call list \<Rightarrow> unit prog" where
  "try_all env [] = done_with ()"
| "try_all env (c # cs) = next_step (try_call env c) (\<lambda>_. try_all env cs)"

text \<open>\<^verbatim>\<open>defer\<close> of calls whose errors nobody looks at: they run when the rest returns, not when it exits.\<close>

definition deferred :: "host_env \<Rightarrow> host_call list \<Rightarrow> unit prog \<Rightarrow> unit prog" where
  "deferred env cs m = next_step m (\<lambda>_. try_all env cs)"

text \<open>\<^verbatim>\<open>%d\<close> of an \<open>int\<close>.\<close>

definition itoa :: "int \<Rightarrow> string" where
  "itoa i = (if i < 0 then ''-'' @ decimal (nat (- i)) else decimal (nat i))"

section \<open>Linux: two devices in two namespaces\<close>

definition cleanupNamespaces :: "host_call list" where
  "cleanupNamespaces = [Run [''ip'', ''netns'', ''del'', ''tunload-ns-a''], Run [''ip'', ''netns'', ''del'', ''tunload-ns-b'']]"

definition configureNamespace :: "string \<Rightarrow> string \<Rightarrow> string \<Rightarrow> host_call list" where
  "configureNamespace namespace ifName addr =
     [Run [''ip'', ''netns'', ''exec'', namespace, ''ip'', ''link'', ''set'', ''dev'', ''lo'', ''up''],
      Run [''ip'', ''netns'', ''exec'', namespace, ''ip'', ''addr'', ''add'', addr, ''dev'', ifName],
      Run [''ip'', ''netns'', ''exec'', namespace, ''ip'', ''link'', ''set'', ''dev'', ifName, ''up'']]"

definition pair_commands :: "string \<Rightarrow> string \<Rightarrow> host_call list" where
  "pair_commands leftActual rightActual =
     [Run [''ip'', ''netns'', ''add'', ''tunload-ns-a''], Run [''ip'', ''netns'', ''add'', ''tunload-ns-b''],
      Run [''ip'', ''link'', ''set'', ''dev'', leftActual, ''netns'', ''tunload-ns-a''],
      Run [''ip'', ''link'', ''set'', ''dev'', rightActual, ''netns'', ''tunload-ns-b'']] @
     configureNamespace ''tunload-ns-a'' leftActual ''10.231.0.1/24'' @ configureNamespace ''tunload-ns-b'' rightActual ''10.231.0.2/24''"

text \<open>What comes after the select of \<open>waitProcess\<close>: when the two seconds pass first, the process is killed and waited for.\<close>

definition waitProcess :: "host_env \<Rightarrow> string list \<Rightarrow> unit prog" where
  "waitProcess env cmd = next_step (try_call env (Go ''wait'')) (\<lambda>_. next_step (attempt env (WaitCmd cmd)) (\<lambda>r.
     if r = Inl (ErrMsg ''two seconds passed'') then try_all env [KillCmd cmd, Receive ''done''] else done_with ()))"

text \<open>\<^verbatim>\<open>errors.Is(err, os.ErrClosed)\<close>.\<close>

fun is_closed :: "go_error \<Rightarrow> bool" where
  "is_closed (ErrWrap m e) = is_closed e"
| "is_closed e = (e = ErrClosed)"

text \<open>The error of \<^verbatim>\<open>tun.Copy\<close>, fatal unless it says that a device is closed.\<close>

definition receive_copy_error :: "host_env \<Rightarrow> unit prog" where
  "receive_copy_error env = next_step (attempt env (Receive ''copyErrCh'')) (\<lambda>r. case r of
     Inl e \<Rightarrow> if is_closed e then done_with () else fatal
   | Inr _ \<Rightarrow> done_with ())"

definition runMain :: "host_env \<Rightarrow> int \<Rightarrow> int \<Rightarrow> int \<Rightarrow> unit prog" where
  "runMain env workers requestsPerWorker responseMiB =
     next_step (must env Privileged) (\<lambda>_.
     deferred env [Ask ''stop''] (
     next_step (try_all env cleanupNamespaces) (\<lambda>_.
     deferred env cleanupNamespaces (
     next_step (must env (OpenTun ''tunload0'' 1500)) (\<lambda>_.
     deferred env [CloseTun ''tunload0''] (
     next_step (must env (OpenTun ''tunload1'' 1500)) (\<lambda>_.
     deferred env [CloseTun ''tunload1''] (
     next_step (must_text env (TunName ''tunload0'')) (\<lambda>leftActual.
     next_step (must_text env (TunName ''tunload1'')) (\<lambda>rightActual.
     next_step (must_all env (pair_commands leftActual rightActual)) (\<lambda>_.
     next_step (try_all env [Go ''logEvents left'', Go ''logEvents right'', Go ''tun.Copy'']) (\<lambda>_.
     next_step (must_text env (Ask ''os.Executable'')) (\<lambda>exe.
     let serverCmd = [''ip'', ''netns'', ''exec'', ''tunload-ns-b'', exe, ''-mode=serve'', ''-response-mib='' @ itoa responseMiB];
         clientCmd = [''ip'', ''netns'', ''exec'', ''tunload-ns-a'', exe, ''-mode=client'', ''-workers='' @ itoa workers,
           ''-requests-per-worker='' @ itoa requestsPerWorker, ''-response-mib='' @ itoa responseMiB]
     in next_step (must env (StartCmd serverCmd)) (\<lambda>_.
        next_step (attempt env (RunCmd clientCmd)) (\<lambda>r. case r of
          Inl e \<Rightarrow> next_step (try_call env (KillCmd serverCmd)) (\<lambda>_. fatal)
        | Inr _ \<Rightarrow>
          next_step (try_call env (Ask ''stop'')) (\<lambda>_.
          next_step (waitProcess env serverCmd) (\<lambda>_.
          next_step (try_all env [CloseTun ''tunload0'', CloseTun ''tunload1'']) (\<lambda>_.
          receive_copy_error env))))))))))))))))))"

section \<open>Windows: two devices\<close>

text \<open>The mask of a constant prefix: there is one.\<close>

definition mask_of :: "int \<Rightarrow> string" where
  "mask_of bits = (case cidrPrefixToMask bits of Some m \<Rightarrow> m | None \<Rightarrow> [])"

definition configureInterface :: "string \<Rightarrow> string \<Rightarrow> int \<Rightarrow> string \<Rightarrow> host_call list" where
  "configureInterface name addr ifaceIdx peerIP =
     [Run [''netsh'', ''interface'', ''ip'', ''set'', ''address'', ''name='' @ name, ''source=static'', ''addr='' @ addr, ''mask='' @ mask_of 32, ''gateway=none''],
      Run [''netsh'', ''interface'', ''set'', ''interface'', ''name='' @ name, ''admin=ENABLED''],
      Run [''netsh'', ''interface'', ''ipv4'', ''add'', ''route'', peerIP @ ''/32'', ''interface='' @ itoa ifaceIdx, ''store=active'']]"

definition cleanupInterface :: "string \<Rightarrow> int \<Rightarrow> string \<Rightarrow> string \<Rightarrow> host_call list" where
  "cleanupInterface name ifaceIdx addr peerIP =
     [Run [''netsh'', ''interface'', ''ipv4'', ''delete'', ''route'', peerIP @ ''/32'', ''interface='' @ itoa ifaceIdx, ''store=active''],
      Run [''netsh'', ''interface'', ''ip'', ''delete'', ''address'', ''name='' @ name, ''addr='' @ addr]]"

abbreviation show_interfaces :: host_call where
  "show_interfaces \<equiv> Run [''netsh'', ''interface'', ''ipv4'', ''show'', ''interfaces'']"

definition must_index :: "host_env \<Rightarrow> string \<Rightarrow> int prog" where
  "must_index env name = next_step (attempt env show_interfaces) (\<lambda>out. case getInterfaceIndex out name of
     Inl e \<Rightarrow> fatal
   | Inr idx \<Rightarrow> done_with idx)"

definition windows_pair_main :: "host_env \<Rightarrow> unit prog" where
  "windows_pair_main env =
     next_step (must env Privileged) (\<lambda>_.
     next_step (must env (OpenTun ''tunload0'' 1500)) (\<lambda>_.
     deferred env [CloseTun ''tunload0''] (
     next_step (must env (OpenTun ''tunload1'' 1500)) (\<lambda>_.
     deferred env [CloseTun ''tunload1''] (
     next_step (must_text env (TunName ''tunload0'')) (\<lambda>leftActual.
     next_step (must_text env (TunName ''tunload1'')) (\<lambda>rightActual.
     next_step (must_index env leftActual) (\<lambda>leftIdx.
     next_step (must_index env rightActual) (\<lambda>rightIdx.
     next_step (must_all env (configureInterface leftActual ''10.232.0.1'' leftIdx ''10.232.0.2'')) (\<lambda>_.
     deferred env (cleanupInterface leftActual leftIdx ''10.232.0.1'' ''10.232.0.2'') (
     next_step (must_all env (configureInterface rightActual ''10.232.0.2'' rightIdx ''10.232.0.1'')) (\<lambda>_.
     deferred env (cleanupInterface rightActual rightIdx ''10.232.0.2'' ''10.232.0.1'') (
     next_step (try_all env [Go ''logEvents left'', Go ''logEvents right'', Go ''tun.Copy'']) (\<lambda>_.
     next_step (must_all env [Ask ''startHTTPServer'', Ask ''waitForServer'', Ask ''runClient'']) (\<lambda>_.
     next_step (try_all env [Ask ''Shutdown'', Ask ''cancel'', CloseTun ''tunload0'', CloseTun ''tunload1'', Receive ''serverErrCh'']) (\<lambda>_.
     receive_copy_error env))))))))))))))))"

section \<open>The two examples with a virtual device\<close>

definition linux_cmds :: "string \<Rightarrow> host_call list" where
  "linux_cmds actualName =
     [Run [''ip'', ''link'', ''set'', ''dev'', actualName, ''up''],
      Run [''ip'', ''-4'', ''addr'', ''add'', ''10.200.1.2/24'', ''dev'', actualName],
      Run [''ip'', ''-6'', ''addr'', ''add'', ''fd00:200:1::2/64'', ''dev'', actualName],
      Run [''ip'', ''-4'', ''route'', ''add'', ''10.200.2.0/24'', ''dev'', actualName],
      Run [''ip'', ''-6'', ''route'', ''add'', ''fd00:200:2::/64'', ''dev'', actualName]]"

definition linux_cleanupCmds :: "string \<Rightarrow> host_call list" where
  "linux_cleanupCmds actualName =
     [Run [''ip'', ''-6'', ''route'', ''del'', ''fd00:200:2::/64'', ''dev'', actualName],
      Run [''ip'', ''-4'', ''route'', ''del'', ''10.200.2.0/24'', ''dev'', actualName],
      Run [''ip'', ''-6'', ''addr'', ''del'', ''fd00:200:1::2/64'', ''dev'', actualName],
      Run [''ip'', ''-4'', ''addr'', ''del'', ''10.200.1.2/24'', ''dev'', actualName],
      Run [''ip'', ''link'', ''set'', ''dev'', actualName, ''down'']]"

definition name_or :: "string \<Rightarrow> go_error + string \<Rightarrow> string" where
  "name_or nativeTunName r = (case r of Inl _ \<Rightarrow> nativeTunName | Inr name \<Rightarrow> name)"

definition linux_example_main :: "host_env \<Rightarrow> unit prog" where
  "linux_example_main env =
     next_step (must env Privileged) (\<lambda>_.
     next_step (must env (OpenTun ''tun0'' 1500)) (\<lambda>_.
     deferred env [CloseTun ''tun0''] (
     next_step (attempt env (TunName ''tun0'')) (\<lambda>r.
     let actualName = name_or ''tun0'' r
     in next_step (must_all env (linux_cmds actualName)) (\<lambda>_.
        next_step (must env (Ask ''serverOpts.Build'')) (\<lambda>_.
        deferred env [Ask ''vtunServer.Close''] (
        next_step (try_all env [Go ''native events'', Receive ''vtunServer.Events'', Go ''tun.Copy'', Go ''startHTTPServer'', Receive ''sigCh'']) (\<lambda>_.
        try_all env (linux_cleanupCmds actualName)))))))))"

definition netsh_cmds :: "string \<Rightarrow> int \<Rightarrow> host_call list" where
  "netsh_cmds actualName ifaceIdx =
     [Run [''netsh'', ''interface'', ''ip'', ''set'', ''address'', ''name='' @ actualName, ''source=static'', ''addr=10.200.1.2'',
        ''mask='' @ mask_of 24, ''gateway=none''],
      Run [''netsh'', ''interface'', ''set'', ''interface'', ''name='' @ actualName, ''admin=ENABLED''],
      Run [''netsh'', ''interface'', ''ipv4'', ''add'', ''route'', ''10.200.2.0/24'', ''interface='' @ itoa ifaceIdx, ''store=active'']]"

definition cleanupNetshCmds :: "string \<Rightarrow> int \<Rightarrow> host_call list" where
  "cleanupNetshCmds actualName ifaceIdx =
     [Run [''netsh'', ''interface'', ''ipv4'', ''delete'', ''route'', ''10.200.2.0/24'', ''interface='' @ itoa ifaceIdx, ''store=active''],
      Run [''netsh'', ''interface'', ''ip'', ''delete'', ''address'', ''name='' @ actualName, ''addr=10.200.1.2'']]"

definition windows_example_main :: "host_env \<Rightarrow> unit prog" where
  "windows_example_main env =
     next_step (must env Privileged) (\<lambda>_.
     next_step (must env (OpenTun ''tun0'' 1500)) (\<lambda>_.
     deferred env [CloseTun ''tun0''] (
     next_step (attempt env (TunName ''tun0'')) (\<lambda>r.
     let actualName = name_or ''tun0'' r
     in next_step (try_call env (Ask ''RunningVersion'')) (\<lambda>_.
        next_step (must_index env actualName) (\<lambda>ifaceIdx.
        next_step (must_all env (netsh_cmds actualName ifaceIdx)) (\<lambda>_.
        next_step (must env (Ask ''serverOpts.Build'')) (\<lambda>_.
        deferred env [Ask ''vtunServer.Close''] (
        next_step (try_all env [Go ''native events'', Receive ''vtunServer.Events'', Go ''tun.Copy'', Go ''startHTTPServer'', Receive ''sigCh'']) (\<lambda>_.
        try_all env (cleanupNetshCmds actualName ifaceIdx)))))))))))"

section \<open>What a program does to the system\<close>

text \<open>The calls that change it: commands, and the opening and closing of devices.\<close>

fun changes :: "host_call \<Rightarrow> bool" where
  "changes (Run _) = True"
| "changes (OpenTun _ _) = True"
| "changes (CloseTun _) = True"
| "changes _ = False"

definition effects :: "host_log \<Rightarrow> host_call list" where
  "effects l = filter changes (map fst l)"

text \<open>A program that does \<open>F\<close> and then, on return only, the deferred calls \<open>D\<close>, for some \<open>F\<close> and \<open>D\<close> with \<open>B F D\<close>; one that
  exits has done a beginning of \<open>F\<close>.\<close>

definition follows :: "'a prog \<Rightarrow> (host_call list \<Rightarrow> host_call list \<Rightarrow> bool) \<Rightarrow> bool" where
  "follows m B \<longleftrightarrow> (\<forall>l. \<exists>s F D. snd (run_state m l) = l @ s \<and> B F D \<and>
     (case fst (run_state m l) of Some _ \<Rightarrow> effects s = F @ D | None \<Rightarrow> prefix (effects s) F))"

lemma follows_done: "B [] [] \<Longrightarrow> follows (done_with x) B"
  by (auto simp: follows_def effects_def intro!: exI [of _ "[]"])

lemma follows_attempt:
  assumes "\<And>r. follows (f r) (\<lambda>F D. B (filter changes [c] @ F) D)"
  shows "follows (next_step (attempt env c) f) B"
  unfolding follows_def
proof
  fix l
  define r where "r = (case hfails env l c of Some e \<Rightarrow> Inl e | None \<Rightarrow> Inr (htext env l c))"
  obtain s F D where s: "snd (run_state (f r) (l @ [(c, hfails env l c)])) = (l @ [(c, hfails env l c)]) @ s" "B (filter changes [c] @ F) D"
    "case fst (run_state (f r) (l @ [(c, hfails env l c)])) of Some _ \<Rightarrow> effects s = F @ D | None \<Rightarrow> prefix (effects s) F"
    using assms unfolding follows_def by blast
  have e: "run_state (next_step (attempt env c) f) l = run_state (f r) (l @ [(c, hfails env l c)])"
    by (simp add: next_step_def attempt_def r_def)
  show "\<exists>s F D. snd (run_state (next_step (attempt env c) f) l) = l @ s \<and> B F D \<and>
     (case fst (run_state (next_step (attempt env c) f) l) of Some _ \<Rightarrow> effects s = F @ D | None \<Rightarrow> prefix (effects s) F)"
    using s unfolding e
    by (intro exI [of _ "(c, hfails env l c) # s"] exI [of _ "filter changes [c] @ F"] exI [of _ D])
      (auto simp: effects_def split: option.splits)
qed

lemma next_step_assoc [simp]: "next_step (next_step m g) f = next_step m (\<lambda>x. next_step (g x) f)"
proof -
  have "run_state (next_step (next_step m g) f) l = run_state (next_step m (\<lambda>x. next_step (g x) f)) l" for l
    by (auto simp: next_step_def split: prod.splits option.splits)
  then show ?thesis by (intro state.expand) auto
qed

lemma next_step_done [simp]: "next_step (done_with x) f = f x"
  by (simp add: next_step_def)

lemma next_step_fatal [simp]: "next_step fatal f = fatal"
  by (simp add: next_step_def)

lemma follows_ex: "follows m B \<Longrightarrow> \<exists>F D. B F D"
  unfolding follows_def by blast

lemma follows_fatal: "\<exists>F D. B F D \<Longrightarrow> follows fatal B"
  by (auto simp: follows_def effects_def intro!: exI [of _ "[]"])

lemma follows_try_call:
  assumes "follows (f ()) (\<lambda>F D. B (filter changes [c] @ F) D)"
  shows "follows (next_step (try_call env c) f) B"
  unfolding try_call_def using assms by (simp only: next_step_assoc next_step_done) (rule follows_attempt)

lemma follows_answer:
  assumes "\<And>t. follows (f (Inr t)) (\<lambda>F D. B (filter changes [c] @ F) D)"
    and "\<And>e. \<exists>F D. B (filter changes [c] @ F) D \<Longrightarrow> follows (f (Inl e)) (\<lambda>F D. B (filter changes [c] @ F) D)"
  shows "follows (next_step (attempt env c) f) B"
proof (rule follows_attempt)
  fix r :: "go_error + string"
  show "follows (f r) (\<lambda>F D. B (filter changes [c] @ F) D)"
    using assms follows_ex [OF assms(1)] by (cases r) auto
qed

lemma follows_must_text:
  assumes "\<And>t. follows (f t) (\<lambda>F D. B (filter changes [c] @ F) D)"
  shows "follows (next_step (must_text env c) f) B"
  unfolding must_text_def next_step_assoc
  by (rule follows_answer; simp only: sum.case next_step_done next_step_fatal; intro assms follows_fatal)

lemma follows_must:
  assumes "follows (f ()) (\<lambda>F D. B (filter changes [c] @ F) D)"
  shows "follows (next_step (must env c) f) B"
  unfolding must_def next_step_assoc by (rule follows_must_text) (simp only: next_step_done assms)

lemma follows_must_all: "follows (f ()) (\<lambda>F D. B (filter changes cs @ F) D) \<Longrightarrow> follows (next_step (must_all env cs) f) B"
proof (induction cs arbitrary: B)
  case (Cons c cs)
  show ?case unfolding must_all.simps next_step_assoc
    by (intro follows_must Cons.IH) (use Cons.prems in \<open>simp split: if_splits\<close>)
qed simp

lemma follows_try_all: "follows (f ()) (\<lambda>F D. B (filter changes cs @ F) D) \<Longrightarrow> follows (next_step (try_all env cs) f) B"
proof (induction cs arbitrary: B)
  case (Cons c cs)
  show ?case unfolding try_all.simps next_step_assoc
    by (intro follows_try_call Cons.IH) (use Cons.prems in \<open>simp split: if_splits\<close>)
qed simp

lemma follows_try_all_last:
  assumes "B (filter changes cs) []"
  shows "follows (try_all env cs) B"
proof -
  have "next_step (try_all env cs) done_with = try_all env cs"
    by (induction cs) simp_all
  moreover have "follows (next_step (try_all env cs) done_with) B" by (rule follows_try_all) (simp add: follows_done assms)
  ultimately show ?thesis by simp
qed

lemma follows_must_index:
  assumes "\<And>i. follows (f i) (\<lambda>F D. B (show_interfaces # F) D)"
  shows "follows (next_step (must_index env name) f) B"
  unfolding must_index_def next_step_assoc
proof (rule follows_attempt)
  fix r
  show "follows (next_step (case getInterfaceIndex r name of Inl e \<Rightarrow> fatal | Inr idx \<Rightarrow> done_with idx) f) (\<lambda>F D. B (filter changes [show_interfaces] @ F) D)"
    using assms follows_ex [OF assms] by (auto simp: follows_fatal split: sum.split)
qed

lemma run_try_all: "\<exists>s. run_state (try_all env cs) l = (Some (), l @ s) \<and> effects s = filter changes cs"
proof (induction cs arbitrary: l)
  case (Cons c cs)
  obtain s where "run_state (try_all env cs) (l @ [(c, hfails env l c)]) = (Some (), (l @ [(c, hfails env l c)]) @ s)" "effects s = filter changes cs"
    using Cons by blast
  then show ?case
    by (intro exI [of _ "(c, hfails env l c) # s"]) (simp add: next_step_def try_call_def attempt_def effects_def)
qed (simp add: effects_def)

lemma follows_deferred:
  assumes "follows m (\<lambda>F D. B F (D @ filter changes cs))"
  shows "follows (deferred env cs m) B"
  unfolding follows_def
proof
  fix l
  obtain s F D where s: "snd (run_state m l) = l @ s" "B F (D @ filter changes cs)"
    "case fst (run_state m l) of Some _ \<Rightarrow> effects s = F @ D | None \<Rightarrow> prefix (effects s) F"
    using assms unfolding follows_def by blast
  obtain s2 where s2: "run_state (try_all env cs) (l @ s) = (Some (), (l @ s) @ s2)" "effects s2 = filter changes cs"
    using run_try_all by blast
  show "\<exists>s F D. snd (run_state (deferred env cs m) l) = l @ s \<and> B F D \<and>
     (case fst (run_state (deferred env cs m) l) of Some _ \<Rightarrow> effects s = F @ D | None \<Rightarrow> prefix (effects s) F)"
  proof (cases "fst (run_state m l)")
    case None
    then have "run_state (deferred env cs m) l = (None, l @ s)" using s(1) by (cases "run_state m l") (simp add: deferred_def next_step_def)
    then show ?thesis using s None by (intro exI [of _ s] exI [of _ F] exI [of _ "D @ filter changes cs"]) simp
  next
    case (Some u)
    then have "run_state (deferred env cs m) l = (Some (), l @ s @ s2)" using s(1) s2(1)
      by (cases "run_state m l") (simp add: deferred_def next_step_def)
    then show ?thesis using s s2(2) Some
      by (intro exI [of _ "s @ s2"] exI [of _ F] exI [of _ "D @ filter changes cs"]) (simp add: effects_def)
  qed
qed

lemma follows_copy_error: "B [] [] \<Longrightarrow> follows (receive_copy_error env) B"
  unfolding receive_copy_error_def by (rule follows_answer) (auto simp: intro: follows_done follows_fatal)

lemma follows_waitProcess:
  assumes "follows (f ()) B"
  shows "follows (next_step (waitProcess env cmd) f) B"
  unfolding waitProcess_def next_step_assoc
  by (rule follows_try_call, rule follows_attempt) (auto intro!: follows_try_call simp: assms)

lemmas follows_rules = follows_must follows_deferred follows_must_text follows_must_all follows_try_all follows_try_call follows_must_index
  follows_waitProcess follows_copy_error follows_try_all_last

section \<open>Properties\<close>


text \<open>The command that takes back what a command of the Linux example has done.\<close>

fun undo_ip :: "host_call \<Rightarrow> host_call" where
  "undo_ip (Run ws) = (if ws ! 1 = ''link'' then Run (butlast ws @ [''down'']) else Run (ws[3 := ''del'']))"
| "undo_ip c = c"


text \<open>So \<open>runMain\<close> leaves its namespaces behind when a command fails after they have been made: the deferred clean-up is not run.\<close>

definition addr_add_fails :: host_env where
  "addr_add_fails = \<lparr>hfails = (\<lambda>l c. case c of Run ws \<Rightarrow> if ''addr'' \<in> set ws then Some ErrClosed else None | _ \<Rightarrow> None),
     htext = (\<lambda>l c. ''tun'')\<rparr>"

theorem runMain_leaves_namespaces:
  "case run_state (runMain addr_add_fails 1 1 1) [] of (r, l) \<Rightarrow> r = None \<and>
     effects l = cleanupNamespaces @ [OpenTun ''tunload0'' 1500, OpenTun ''tunload1'' 1500] @ take 6 (pair_commands ''tun'' ''tun'')"
  by (simp add: runMain_def deferred_def next_step_def must_def must_text_def try_call_def attempt_def addr_add_fails_def cleanupNamespaces_def
      pair_commands_def configureNamespace_def effects_def)

end
