(* ===== verification/Example_Dns.thy ===== *)
theory Example_Dns
  imports Tun_Prelude
begin

text \<open>
  The name server of the example programs (\<^verbatim>\<open>example/linux/main.go\<close>, \<^verbatim>\<open>example/windows/main.go\<close>): \<open>handleDNS\<close> answers every
  query for an address with the address of the server. A query is any run of bytes from the network.
\<close>

section \<open>The handler\<close>

text \<open>The end of the name that starts at \<open>off\<close>: one length byte and as many bytes for each label, up to the length zero.
  Nothing when the name runs out of the query.\<close>

function dns_name_end :: "gslice \<Rightarrow> nat \<Rightarrow> nat option option" where
  "dns_name_end query off =
     (if slen query \<le> off then Some None
      else case rd query (int off) of
        None \<Rightarrow> None
      | Some l \<Rightarrow> if l = 0 then Some (Some (off + 1)) else dns_name_end query (off + 1 + unat l))"
  by pat_completeness auto
termination by (relation "measure (\<lambda>(query, off). slen query - off)") auto

declare dns_name_end.simps [simp del]

text \<open>The response so far: the query with room for a record, its flags set, and no authority or additional records.\<close>

definition dns_response :: "gslice \<Rightarrow> gslice option" where
  "dns_response query = do {
     let resp = of_bytes (vis query @ replicate 32 0);
     resp \<leftarrow> wr resp 2 0x81;
     resp \<leftarrow> wr resp 3 0x80;
     resp \<leftarrow> wr resp 8 0;
     resp \<leftarrow> wr resp 9 0;
     resp \<leftarrow> wr resp 10 0;
     wr resp 11 0
   }"

text \<open>The response is the header alone.\<close>

definition dns_header_only :: "gslice \<Rightarrow> byte list option" where
  "dns_header_only resp = do { r \<leftarrow> sub resp 0 12; Some (vis r) }"

definition dns_answer_a :: "gslice \<Rightarrow> byte list \<Rightarrow> gslice option" where
  "dns_answer_a ans addr = do {
     ans \<leftarrow> put16 ans 2 1;
     ans \<leftarrow> put16 ans 4 1;
     ans \<leftarrow> put32 ans 6 60;
     ans \<leftarrow> put16 ans 10 4;
     ans \<leftarrow> wr ans 12 (addr ! 0);
     ans \<leftarrow> wr ans 13 (addr ! 1);
     ans \<leftarrow> wr ans 14 (addr ! 2);
     wr ans 15 (addr ! 3)
   }"

definition dns_answer_aaaa :: "gslice \<Rightarrow> byte list \<Rightarrow> gslice option" where
  "dns_answer_aaaa ans addr = do {
     ans \<leftarrow> put16 ans 2 28;
     ans \<leftarrow> put16 ans 4 1;
     ans \<leftarrow> put32 ans 6 60;
     ans \<leftarrow> put16 ans 10 16;
     copy_range ans 12 28 (of_bytes addr) 0 (int (length addr))
   }"

text \<open>The answers a server has: the record of a query type, and the length of its data.\<close>

definition linux_answer :: "byte list \<Rightarrow> byte list \<Rightarrow> u16 \<Rightarrow> gslice \<Rightarrow> (gslice \<times> nat) option option" where
  "linux_answer addr4 addr6 qtype ans =
     (if qtype = 1 then do { ans \<leftarrow> dns_answer_a ans addr4; Some (Some (ans, 4)) }
      else if qtype = 28 then do { ans \<leftarrow> dns_answer_aaaa ans addr6; Some (Some (ans, 16)) }
      else Some None)"

definition windows_answer :: "byte list \<Rightarrow> u16 \<Rightarrow> gslice \<Rightarrow> (gslice \<times> nat) option option" where
  "windows_answer addr4 qtype ans =
     (if qtype = 1 then do { ans \<leftarrow> dns_answer_a ans addr4; Some (Some (ans, 4)) } else Some None)"

text \<open>The part the two programs share; the response to a query without room for a header is nil.\<close>

definition dns_respond :: "(u16 \<Rightarrow> gslice \<Rightarrow> (gslice \<times> nat) option option) \<Rightarrow> gslice \<Rightarrow> byte list option" where
  "dns_respond answer query =
     (if slen query < 12 then Some []
      else do {
        resp \<leftarrow> dns_response query;
        end \<leftarrow> dns_name_end query 12;
        case end of
          None \<Rightarrow> dns_header_only resp
        | Some off \<Rightarrow>
            let offset = off + 4; qtypeOffset = offset - 4
            in if qtypeOffset + 2 > slen query then dns_header_only resp
               else do {
                 qtype \<leftarrow> get16 query (int qtypeOffset);
                 if offset + 32 > slen resp then dns_header_only resp
                 else do {
                   ans \<leftarrow> sub_from resp (int offset);
                   ans \<leftarrow> wr ans 0 0xC0;
                   ans \<leftarrow> wr ans 1 0x0C;
                   a \<leftarrow> answer qtype ans;
                   case a of
                     None \<Rightarrow> dns_header_only (put_back resp (int offset) ans)
                   | Some (ans, rdLength) \<Rightarrow> do {
                       resp \<leftarrow> put16 (put_back resp (int offset) ans) 6 1;
                       r \<leftarrow> sub resp 0 (int (offset + 12 + rdLength));
                       Some (vis r)
                     }
                 }
               }
      })"

definition linux_handleDNS :: "gslice \<Rightarrow> byte list \<Rightarrow> byte list \<Rightarrow> byte list option" where
  "linux_handleDNS query serverAddr4 serverAddr6 = dns_respond (linux_answer serverAddr4 serverAddr6) query"

definition windows_handleDNS :: "gslice \<Rightarrow> byte list \<Rightarrow> byte list option" where
  "windows_handleDNS query serverAddr4 = dns_respond (windows_answer serverAddr4) query"

section \<open>What the handler writes\<close>

lemma put32_vis: "wf_slice s \<Longrightarrow> i + 4 \<le> slen s \<Longrightarrow> put32 s (int i) v = Some (set_vis s (splice (vis s) i (be32 v)))"
  by (simp add: put32_ok splice_set_vis)

lemma vis_writes:
  assumes "wf_slice s"
  shows "numeral k < slen s \<Longrightarrow> wr s (numeral k) v = Some (set_vis s (splice (vis s) (numeral k) [v]))"
    and "0 < slen s \<Longrightarrow> wr s 0 v = Some (set_vis s (splice (vis s) 0 [v]))"
    and "1 < slen s \<Longrightarrow> wr s 1 v = Some (set_vis s (splice (vis s) 1 [v]))"
    and "numeral k + 2 \<le> slen s \<Longrightarrow> put16 s (numeral k) w = Some (set_vis s (splice (vis s) (numeral k) (be16 w)))"
    and "numeral k + 4 \<le> slen s \<Longrightarrow> put32 s (numeral k) d = Some (set_vis s (splice (vis s) (numeral k) (be32 d)))"
  using wr_vis [OF assms, of "numeral k"] wr_vis [OF assms, of 0] wr_vis [OF assms, of 1] put16_vis [OF assms, of "numeral k"] put32_vis [OF assms, of "numeral k"]
  by simp_all

text \<open>The header of the response, with \<open>c\<close> for the counts of questions and answers.\<close>

definition dns_hdr :: "byte list \<Rightarrow> byte list \<Rightarrow> byte list" where
  "dns_hdr q c = take 2 q @ [0x81, 0x80] @ c @ [0, 0, 0, 0]"

lemma dns_response_ok:
  assumes "wf_slice query" "12 \<le> slen query"
  shows "dns_response query = Some (of_bytes (dns_hdr (vis query) (take 4 (drop 4 (vis query))) @ drop 12 (vis query) @ replicate 32 0))"
proof -
  define q where "q = vis query"
  obtain h t where q: "q = h @ t" "length h = 12"
    using assms by (metis append_take_drop_id length_take length_vis min.absorb2 q_def)
  then obtain a0 a1 a2 a3 a4 a5 a6 a7 a8 a9 a10 a11 where h: "h = [a0, a1, a2, a3, a4, a5, a6, a7, a8, a9, a10, a11]"
    by (auto simp: numeral_eq_Suc length_Suc_conv)
  show ?thesis unfolding dns_response_def Let_def q_def [symmetric] q(1)
    by (simp add: h vis_writes of_bytes_def wf_slice_def set_vis_def vis_def hidden_def splice_def dns_hdr_def)
qed

text \<open>A resource record for the name at offset 12 of the message: type, class IN, 60 seconds, data.\<close>

definition dns_record :: "u16 \<Rightarrow> byte list \<Rightarrow> byte list" where
  "dns_record t rdata = [0xC0, 0x0C] @ be16 t @ be16 1 @ be32 60 @ be16 (of_nat (length rdata)) @ rdata"

lemma length_dns_record [simp]: "length (dns_record t d) = 12 + length d"
  by (simp add: dns_record_def)

text \<open>The name pointer and the record are written one behind the other, in place of the bytes \<open>v\<close>.\<close>

definition run_to :: "gslice \<Rightarrow> byte list \<Rightarrow> byte list \<Rightarrow> gslice" where
  "run_to s v P = set_vis s (P @ drop (length P) v)"

lemma run_to_writes:
  assumes "length v = slen s"
  shows "i = int (length P) \<Longrightarrow> length P < length v \<Longrightarrow> wr (run_to s v P) i b = Some (run_to s v (P @ [b]))"
    and "i = int (length P) \<Longrightarrow> length P + 2 \<le> length v \<Longrightarrow> put16 (run_to s v P) i w = Some (run_to s v (P @ be16 w))"
    and "i = int (length P) \<Longrightarrow> length P + 4 \<le> length v \<Longrightarrow> put32 (run_to s v P) i d = Some (run_to s v (P @ be32 d))"
  using assms wr_vis [of "run_to s v P" "length P" b] put16_vis [of "run_to s v P" "length P" w] put32_vis [of "run_to s v P" "length P" d]
  by (simp_all add: run_to_def splice_def add.commute)

lemma answer_a_ok:
  assumes wf: "wf_slice ans" and len: "16 \<le> slen ans" and addr: "length addr = 4"
  shows "do { ans \<leftarrow> wr ans 0 0xC0; ans \<leftarrow> wr ans 1 0x0C; dns_answer_a ans addr } = Some (run_to ans (vis ans) (dns_record 1 addr))"
proof -
  obtain a b c d where a: "addr = [a, b, c, d]" using addr by (auto simp: numeral_eq_Suc length_Suc_conv)
  have l: "length (vis ans) = slen ans" using wf by simp
  have s: "ans = run_to ans (vis ans) []" by (simp add: run_to_def)
  show ?thesis
    by (subst (1) s) (use len in \<open>simp add: dns_answer_a_def run_to_writes [OF l] l a dns_record_def\<close>)
qed

lemma answer_aaaa_ok:
  assumes wf: "wf_slice ans" and len: "28 \<le> slen ans" and addr: "length addr = 16"
  shows "do { ans \<leftarrow> wr ans 0 0xC0; ans \<leftarrow> wr ans 1 0x0C; dns_answer_aaaa ans addr } = Some (run_to ans (vis ans) (dns_record 28 addr))"
proof -
  define P where "P = [0xC0, 0x0C] @ be16 28 @ be16 1 @ be32 60 @ be16 16"
  have l: "length (vis ans) = slen ans" and lP: "length P = 12" using wf by (simp_all add: P_def)
  have s: "ans = run_to ans (vis ans) []" by (simp add: run_to_def)
  have "copy_range (run_to ans (vis ans) P) (int 12) (int 28) (of_bytes addr) (int 0) (int (0 + length addr))
    = Some (run_to ans (vis ans) (P @ addr))"
  proof -
    have r: "run_to ans (vis ans) Q = \<lparr>sarr = Q @ drop (length Q) (vis ans) @ hidden ans, slen = slen ans\<rparr>" for Q
      by (cases ans) (simp add: run_to_def set_vis_def)
    have e: "drop 12 (vis ans) = take 16 (drop 12 (vis ans)) @ drop 28 (vis ans)"
      using append_take_drop_id [of 16 "drop 12 (vis ans)"] by simp
    show ?thesis unfolding r lP
      by (subst e) (use copy_range_middle [of "of_bytes addr" 0 16 P 12 "take 16 (drop 12 (vis ans))" 28 "drop 28 (vis ans) @ hidden ans" "slen ans"]
        l len lP addr in \<open>simp add: of_bytes_def wf_slice_def vis_def\<close>)
  qed
  then show ?thesis
    by (subst (1) s) (use len in \<open>simp add: dns_answer_aaaa_def run_to_writes [OF l] l addr dns_record_def P_def\<close>)
qed

section \<open>The response to a query\<close>

lemma dns_name_end_total:
  assumes "wf_slice query"
  shows "\<exists>r. dns_name_end query off = Some r \<and> (\<forall>e. r = Some e \<longrightarrow> off < e \<and> e \<le> slen query)"
proof (induction query off rule: dns_name_end.induct)
  case (1 query off)
  show ?case
  proof (cases "slen query \<le> off")
    case False
    then obtain l where l: "rd query (int off) = Some l" by (simp add: rd_def)
    have f: "\<not> slen query \<le> off" using False .
    show ?thesis
    proof (cases "l = 0")
      case True
      then show ?thesis using False l by (subst dns_name_end.simps) simp
    next
      case ne: False
      show ?thesis using 1 [OF f l ne] False l ne by (subst dns_name_end.simps) fastforce
    qed
  qed (subst dns_name_end.simps, simp)
qed

text \<open>The record a server has for a query type.\<close>

definition answers_with :: "(u16 \<Rightarrow> gslice \<Rightarrow> (gslice \<times> nat) option option) \<Rightarrow> (u16 \<Rightarrow> byte list option) \<Rightarrow> bool" where
  "answers_with answer rdata \<longleftrightarrow> (\<forall>t ans. wf_slice ans \<longrightarrow> 32 \<le> slen ans \<longrightarrow>
     answer t (run_to ans (vis ans) [0xC0, 0x0C]) = Some (map_option (\<lambda>d. (run_to ans (vis ans) (dns_record t d), length d)) (rdata t))) \<and>
     (\<forall>t d. rdata t = Some d \<longrightarrow> length d \<le> 20)"

lemma run_to_pointer:
  assumes "wf_slice ans" "2 \<le> slen ans"
  shows "wr ans 0 0xC0 = Some (run_to ans (vis ans) [0xC0])" "wr (run_to ans (vis ans) [0xC0]) 1 0x0C = Some (run_to ans (vis ans) [0xC0, 0x0C])"
proof -
  have l: "length (vis ans) = slen ans" using assms(1) by simp
  have "wr (run_to ans (vis ans) []) 0 0xC0 = Some (run_to ans (vis ans) [0xC0])" using run_to_writes(1) [OF l, of 0 "[]"] assms(2) l by simp
  then show "wr ans 0 0xC0 = Some (run_to ans (vis ans) [0xC0])" by (simp add: run_to_def)
  show "wr (run_to ans (vis ans) [0xC0]) 1 0x0C = Some (run_to ans (vis ans) [0xC0, 0x0C])"
    using run_to_writes(1) [OF l, of 1 "[0xC0]"] assms(2) l by simp
qed

text \<open>The response: nothing, the header with the counts of the query, or one answer behind the question.\<close>

definition dns_expected :: "(u16 \<Rightarrow> byte list option) \<Rightarrow> byte list \<Rightarrow> nat option \<Rightarrow> byte list" where
  "dns_expected rdata q r = (let refuse = dns_hdr q (take 4 (drop 4 q)) in
     case r of
       None \<Rightarrow> refuse
     | Some e \<Rightarrow> if length q < e + 4 then refuse
         else let t = of_nat (be_nat (take 2 (drop e q))) in
           case rdata t of
             None \<Rightarrow> refuse
           | Some d \<Rightarrow> dns_hdr q (take 2 (drop 4 q) @ [0, 1]) @ take (e - 8) (drop 12 q) @ dns_record t d)"

lemma header_only:
  assumes "wf_slice resp" "12 \<le> slen resp" "take 12 (vis resp) = h"
  shows "dns_header_only resp = Some h"
  using assms by (simp add: dns_header_only_def sub_def wf_slice_def) (simp add: vis_def min_def)

lemma dns_respond_eq:
  assumes an: "answers_with answer rdata" and wf: "wf_slice query" and len: "12 \<le> slen query"
  shows "\<exists>r. dns_name_end query 12 = Some r \<and> dns_respond answer query = Some (dns_expected rdata (vis query) r)"
proof -
  define q where "q = vis query"
  define R where "R = dns_hdr q (take 4 (drop 4 q)) @ drop 12 q @ replicate 32 0"
  define resp where "resp = of_bytes R"
  have lq: "length q = slen query" using wf by (simp add: q_def)
  have lh: "length (dns_hdr q c) = 8 + length c" for c using len lq by (simp add: dns_hdr_def)
  have lR: "length R = slen query + 32" using len lq by (simp add: R_def lh)
  have resp: "dns_response query = Some resp" "wf_slice resp" "slen resp = slen query + 32" "vis resp = R"
    using dns_response_ok [OF wf len] lR by (simp_all add: resp_def R_def q_def of_bytes_def wf_slice_def vis_def)
  obtain r where r: "dns_name_end query 12 = Some r" "\<And>e. r = Some e \<Longrightarrow> 12 < e \<and> e \<le> slen query"
    using dns_name_end_total [OF wf, of 12] by blast
  have hdr: "take 12 R = dns_hdr q (take 4 (drop 4 q))" using len lq by (simp add: R_def lh)
  have refuse: "dns_header_only resp = Some (dns_hdr q (take 4 (drop 4 q)))"
    by (rule header_only) (use resp hdr in simp_all)
  note st = dns_respond_def [of answer query] resp(1) r(1) len
  have "dns_respond answer query = Some (dns_expected rdata q r)"
  proof (cases r)
    case None
    then show ?thesis using refuse st by (simp add: dns_expected_def)
  next
    case (Some e)
    then have e: "12 < e" "e \<le> slen query" using r(2) by auto
    show ?thesis
    proof (cases "slen query < e + 4")
      case True
      then show ?thesis using refuse st Some resp(3) lq e wf get16_ok [of e query] by (auto simp: dns_expected_def Let_def)
    next
      case False
      define t where "t = (of_nat (be_nat (take 2 (drop e q))) :: u16)"
      have t: "get16 query (int e) = Some t" using get16_ok [of e query] wf False by (simp add: t_def q_def)
      obtain ans where ans: "sub_from resp (int (e + 4)) = Some ans" using sub_from_total [of "e + 4" resp] resp False by auto
      have a: "wf_slice ans" "slen ans = slen query + 32 - (e + 4)" "vis ans = drop (e + 4) R"
        using wf_sub_from [OF ans resp(2)] sub_from_eq [OF ans] vis_sub_from [OF ans] resp by simp_all
      have a32: "32 \<le> slen ans" using False a(2) by simp
      note p = run_to_pointer [OF a(1)]
      have res: "answer t (run_to ans (vis ans) [0xC0, 0x0C]) = Some (map_option (\<lambda>d. (run_to ans (vis ans) (dns_record t d), length d)) (rdata t))"
        and d20: "\<And>d. rdata t = Some d \<Longrightarrow> length d \<le> 20"
        using an a(1) a32 by (auto simp: answers_with_def)
      have bk: "put_back resp (int (e + 4)) (run_to ans (vis ans) P) = set_vis resp (take (e + 4) R @ P @ drop (length P) (vis ans))"
        if "length P \<le> 32" for P
        unfolding run_to_def resp(4) [symmetric] by (rule put_back_vis [OF resp(2) _ ans]) (use that a32 a(1) False resp(3) in simp_all)
      have go: "dns_respond answer query = (case rdata t of
          None \<Rightarrow> dns_header_only (put_back resp (int (e + 4)) (run_to ans (vis ans) [0xC0, 0x0C]))
        | Some d \<Rightarrow> do {
            resp \<leftarrow> put16 (put_back resp (int (e + 4)) (run_to ans (vis ans) (dns_record t d))) 6 1;
            r \<leftarrow> sub resp 0 (int (e + 4 + 12 + length d));
            Some (vis r) })"
        using st Some t ans p a32 res False resp(3) by (cases "rdata t") (simp_all add: Let_def)
      show ?thesis
      proof (cases "rdata t")
        case None
        have "dns_header_only (put_back resp (int (e + 4)) (run_to ans (vis ans) [0xC0, 0x0C])) = Some (dns_hdr q (take 4 (drop 4 q)))"
          by (subst bk) (use e lR resp(3) a32 a(1,2) False hdr in \<open>auto intro!: header_only simp: min_def\<close>)
        then show ?thesis using go None Some False lq by (simp add: dns_expected_def Let_def t_def)
      next
        case d: (Some d)
        define B where "B = take (e + 4) R @ dns_record t d @ drop (12 + length d) (vis ans)"
        have lB: "length B = slen resp" using lR a d20 [OF d] a32 False resp(3) by (simp add: B_def)
        have "take (e + 4 + 12 + length d) (splice B 6 (be16 1)) = splice (take (e + 4) R) 6 (be16 1) @ dns_record t d"
          using e lR False by (simp add: B_def take_splice)
        moreover have "take (e + 4) R = dns_hdr q (take 4 (drop 4 q)) @ take (e - 8) (drop 12 q)"
          using e False lq by (simp add: R_def lh)
        moreover have "splice (dns_hdr q (take 4 (drop 4 q))) 6 (be16 1) = dns_hdr q (take 2 (drop 4 q) @ [0, 1])"
          using len lq by (simp add: dns_hdr_def splice_def be16_def numeral_2_eq_2)
        ultimately have v: "take (e + 4 + 12 + length d) (splice B 6 (be16 1)) = dns_hdr q (take 2 (drop 4 q) @ [0, 1]) @ take (e - 8) (drop 12 q) @ dns_record t d"
          using lh by simp
        have p16: "put16 (set_vis resp B) (int 6) 1 = Some (set_vis resp (splice B 6 (be16 1)))"
          using put16_vis [of "set_vis resp B" 6 1] lB resp(3) by simp
        have n: "nat (int (e + 4 + 12 + length d)) = e + 4 + 12 + length d" "e + 4 + 12 + length d \<le> length (splice B 6 (be16 1))"
          using lB resp(3) a32 a(2) d20 [OF d] e by simp_all
        then have "sub (set_vis resp (splice B 6 (be16 1))) 0 (int (e + 4 + 12 + length d))
            = Some \<lparr>sarr = splice B 6 (be16 1) @ hidden resp, slen = e + 4 + 12 + length d\<rparr>"
          unfolding sub_def by (simp add: set_vis_def del: of_nat_add)
        then have "do { r \<leftarrow> sub (set_vis resp (splice B 6 (be16 1))) 0 (int (e + 4 + 12 + length d)); Some (vis r) } = Some (take (e + 4 + 12 + length d) (splice B 6 (be16 1)))"
          using n(2) by (simp add: vis_def)
        then show ?thesis
          using go d Some False lq p16 v bk [of "dns_record t d"] d20 [OF d]
          by (simp add: dns_expected_def Let_def t_def [symmetric] B_def [symmetric])
      qed
    qed
  qed
  then show ?thesis using r(1) by (simp add: q_def)
qed

section \<open>The two servers\<close>

definition linux_rdata :: "byte list \<Rightarrow> byte list \<Rightarrow> u16 \<Rightarrow> byte list option" where
  "linux_rdata addr4 addr6 t = (if t = 1 then Some addr4 else if t = 28 then Some addr6 else None)"

definition windows_rdata :: "byte list \<Rightarrow> u16 \<Rightarrow> byte list option" where
  "windows_rdata addr4 t = (if t = 1 then Some addr4 else None)"

lemma run_to_answer:
  assumes "wf_slice ans" "32 \<le> slen ans"
  shows "length addr = 4 \<Longrightarrow> dns_answer_a (run_to ans (vis ans) [0xC0, 0x0C]) addr = Some (run_to ans (vis ans) (dns_record 1 addr))"
    and "length addr' = 16 \<Longrightarrow> dns_answer_aaaa (run_to ans (vis ans) [0xC0, 0x0C]) addr' = Some (run_to ans (vis ans) (dns_record 28 addr'))"
  using answer_a_ok [of ans addr] answer_aaaa_ok [of ans addr'] run_to_pointer [OF assms(1)] assms by simp_all

lemma linux_answers: "length addr4 = 4 \<Longrightarrow> length addr6 = 16 \<Longrightarrow> answers_with (linux_answer addr4 addr6) (linux_rdata addr4 addr6)"
  by (auto simp: answers_with_def linux_answer_def linux_rdata_def run_to_answer)

lemma windows_answers: "length addr4 = 4 \<Longrightarrow> answers_with (windows_answer addr4) (windows_rdata addr4)"
  by (auto simp: answers_with_def windows_answer_def windows_rdata_def run_to_answer)

text \<open>A name as a message carries it.\<close>

fun dns_name :: "byte list list \<Rightarrow> byte list" where
  "dns_name [] = [0]"
| "dns_name (l # ls) = of_nat (length l) # l @ dns_name ls"

lemma dns_name_end_name:
  assumes "wf_slice query" "vis query = pre @ dns_name ls @ rest" "\<forall>l\<in>set ls. l \<noteq> [] \<and> length l < 256"
  shows "dns_name_end query (length pre) = Some (Some (length pre + length (dns_name ls)))"
  using assms(2,3)
proof (induction ls arbitrary: pre)
  case Nil
  have l: "length pre < slen query" using arg_cong [OF Nil(1), of length] assms(1) by simp
  then have "rd query (int (length pre)) = Some 0" using rd_ok [OF l assms(1)] Nil(1) by simp
  then show ?case using l by (subst dns_name_end.simps) simp
next
  case (Cons l ls)
  have le: "length pre < slen query" using arg_cong [OF Cons.prems(1), of length] assms(1) by simp
  have r: "rd query (int (length pre)) = Some (of_nat (length l))" using rd_ok [OF le assms(1)] Cons.prems(1) by simp
  have ll: "l \<noteq> []" "unat (of_nat (length l) :: byte) = length l" using Cons.prems(2) by (simp_all add: unat_of_nat take_bit_nat_eq_self)
  then have "(of_nat (length l) :: byte) \<noteq> 0" by (metis length_0_conv unat_0)
  moreover have "dns_name_end query (length (pre @ of_nat (length l) # l)) = Some (Some (length (pre @ of_nat (length l) # l) + length (dns_name ls)))"
    by (rule Cons.IH) (use Cons.prems in simp_all)
  ultimately show ?case using le r ll(2) by (subst dns_name_end.simps) simp
qed

section \<open>Properties\<close>

text \<open>C36. On a question for one name both servers keep identifier and question and answer as a name server does: type A with one
  record that holds the IPv4 address, on Linux type AAAA with the IPv6 address; any other type gets the bare header, which
  still counts the question of the query.\<close>

theorem handleDNS_answers:
  assumes "length h = 12" and "\<forall>l\<in>set ls. l \<noteq> [] \<and> length l < 256" and "length addr4 = 4" and "length addr6 = 16"
  shows "linux_handleDNS (of_bytes (h @ dns_name ls @ be16 t @ be16 c @ rest)) addr4 addr6 = Some (
      if t = 1 \<or> t = 28 then take 2 h @ [0x81, 0x80] @ take 2 (drop 4 h) @ [0, 1, 0, 0, 0, 0] @ dns_name ls @ be16 t @ be16 c
        @ [0xC0, 0x0C] @ be16 t @ be16 1 @ be32 60 @ (if t = 1 then be16 4 @ addr4 else be16 16 @ addr6)
      else take 2 h @ [0x81, 0x80] @ take 4 (drop 4 h) @ [0, 0, 0, 0]) \<and>
    windows_handleDNS (of_bytes (h @ dns_name ls @ be16 t @ be16 c @ rest)) addr4 = Some (
      if t = 1 then take 2 h @ [0x81, 0x80] @ take 2 (drop 4 h) @ [0, 1, 0, 0, 0, 0] @ dns_name ls @ be16 t @ be16 c
        @ [0xC0, 0x0C] @ be16 1 @ be16 1 @ be32 60 @ be16 4 @ addr4
      else take 2 h @ [0x81, 0x80] @ take 4 (drop 4 h) @ [0, 0, 0, 0])"
proof -
  define q where "q = h @ dns_name ls @ be16 t @ be16 c @ rest"
  define e where "e = 12 + length (dns_name ls)"
  have wf: "wf_slice (of_bytes q)" and len: "12 \<le> slen (of_bytes q)" by (simp_all add: of_bytes_def wf_slice_def q_def assms(1))
  have "dns_name_end (of_bytes q) 12 = Some (Some e)"
    using dns_name_end_name [OF wf, of h ls] assms(1,2) by (simp add: q_def e_def)
  then have resp: "dns_respond answer (of_bytes q) = Some (dns_expected rdata q (Some e))" if "answers_with answer rdata" for answer rdata
    using dns_respond_eq [OF that wf len] by auto
  have q: "take 2 (drop e q) = be16 t" "\<not> length q < e + 4" "take (e - 8) (drop 12 q) = dns_name ls @ be16 t @ be16 c"
      "take 2 q = take 2 h" "take 2 (drop 4 q) = take 2 (drop 4 h)" "take 4 (drop 4 q) = take 4 (drop 4 h)"
    using assms(1) by (simp_all add: q_def e_def)
  show ?thesis
    unfolding linux_handleDNS_def windows_handleDNS_def q_def [symmetric]
      resp [OF linux_answers [OF assms(3,4)]] resp [OF windows_answers [OF assms(3)]]
    using assms(3,4) q
    by (simp_all add: dns_expected_def Let_def linux_rdata_def windows_rdata_def dns_record_def dns_hdr_def)
qed

theorem handleDNS_answers_witness:
  "linux_handleDNS (of_bytes ([7, 9, 1, 0, 0, 1, 0, 0, 0, 0, 0, 1] @ dns_name [[104, 105]] @ be16 28 @ be16 1 @ [0, 0, 41])) [10, 0, 0, 1] (replicate 16 5)
    = Some ([7, 9, 0x81, 0x80, 0, 1, 0, 1, 0, 0, 0, 0] @ dns_name [[104, 105]] @ be16 28 @ be16 1 @ [0xC0, 0x0C] @ be16 28 @ be16 1 @ be32 60 @ be16 16 @ replicate 16 5)"
  using handleDNS_answers [of "[7, 9, 1, 0, 0, 1, 0, 0, 0, 0, 0, 1]" "[[104, 105]]" "[10, 0, 0, 1]" "replicate 16 5" 28 1 "[0, 0, 41]"]
  by simp

text \<open>No query makes a server panic: whatever the bytes, the response is nil for a query shorter than a header, and otherwise
  begins with the identifier of the query and the flags of a response, has no authority or additional records, and is at
  most 28 bytes longer than the query.\<close>

theorem handleDNS_total:
  assumes "wf_slice query" and "length addr4 = 4" and "length addr6 = 16" and "f = linux_handleDNS query addr4 addr6 \<or> f = windows_handleDNS query addr4"
  shows "\<exists>r. f = Some r \<and> (if slen query < 12 then r = []
    else take 4 r = take 2 (vis query) @ [0x81, 0x80] \<and> take 4 (drop 8 r) = [0, 0, 0, 0] \<and> 12 \<le> length r \<and> length r \<le> slen query + 28)"
proof (cases "slen query < 12")
  case True
  then show ?thesis using assms(4) by (auto simp: linux_handleDNS_def windows_handleDNS_def dns_respond_def)
next
  case False
  then have len: "12 \<le> slen query" "length (vis query) = slen query" using assms(1) by simp_all
  obtain answer rdata where f: "f = dns_respond answer query" and an: "answers_with answer rdata"
      and d: "\<And>t d. rdata t = Some d \<Longrightarrow> length d \<le> 16"
    using assms(4) linux_answers [OF assms(2,3)] windows_answers [OF assms(2)] assms(2,3)
    by (fastforce simp: linux_handleDNS_def windows_handleDNS_def linux_rdata_def windows_rdata_def split: if_splits)
  obtain r where r: "dns_name_end query 12 = Some r" "f = Some (dns_expected rdata (vis query) r)"
    using dns_respond_eq [OF an assms(1) len(1)] f by auto
  have e: "12 < e" "e \<le> slen query" if "r = Some e" for e using dns_name_end_total [OF assms(1), of 12] r(1) that by auto
  show ?thesis using r(2) False e d len
    by (auto simp: dns_expected_def Let_def dns_hdr_def min_def split: option.splits) force+
qed

theorem handleDNS_total_witness:
  "\<exists>r. windows_handleDNS (of_bytes (replicate 13 63)) [10, 0, 0, 1] = Some r \<and> take 4 r = [63, 63, 0x81, 0x80] \<and> length r \<le> 41"
  using handleDNS_total [of "of_bytes (replicate 13 63)" "[10, 0, 0, 1]" "replicate 16 0", OF _ _ _ disjI2 [OF refl]]
  by (force simp: of_bytes_def wf_slice_def vis_def numeral_2_eq_2)

end
