(* ===== verification/Example_Serve.thy ===== *)
theory Example_Serve
  imports Example_Setup Example_Dns
begin

text \<open>
  The server behind the virtual device of two examples (\<open>startHTTPServer\<close> of \<^verbatim>\<open>example/linux/main.go\<close> and \<^verbatim>\<open>example/windows/main.go\<close>):
  the listeners it opens, and the loop that answers name queries.
\<close>

section \<open>The loop over queries\<close>

text \<open>A run of answers of \<open>ReadFrom\<close>: an error, or a datagram, of which the buffer takes what fits. The buffer is reused. The result
  is the list of responses given to \<open>WriteTo\<close>, whose errors are only logged; None is a panic.\<close>

fun serve_names :: "(gslice \<Rightarrow> byte list option) \<Rightarrow> byte list \<Rightarrow> (go_error + byte list) list \<Rightarrow> byte list list option" where
  "serve_names handleDNS buf [] = Some []"
| "serve_names handleDNS buf (Inl e # turns) = serve_names handleDNS buf turns"
| "serve_names handleDNS buf (Inr datagram # turns) = do {
     let data = take (length buf) datagram;
     let buf = data @ drop (length data) buf;
     query \<leftarrow> sub (of_bytes buf) 0 (int (length data));
     resp \<leftarrow> handleDNS query;
     resps \<leftarrow> serve_names handleDNS buf turns;
     Some (resp # resps)
   }"

definition linux_serve_names :: "byte list \<Rightarrow> byte list \<Rightarrow> (go_error + byte list) list \<Rightarrow> byte list list option" where
  "linux_serve_names addr4 addr6 turns = serve_names (\<lambda>query. linux_handleDNS query addr4 addr6) (replicate 512 0) turns"

definition windows_serve_names :: "byte list \<Rightarrow> (go_error + byte list) list \<Rightarrow> byte list list option" where
  "windows_serve_names addr4 turns = serve_names (\<lambda>query. windows_handleDNS query addr4) (replicate 512 0) turns"

section \<open>The listeners\<close>

text \<open>The result is the error that \<open>startHTTPServer\<close> returns.\<close>

definition linux_startHTTPServer :: "host_env \<Rightarrow> go_error option prog" where
  "linux_startHTTPServer env =
     next_step (attempt env (Ask ''ListenUDPAddrPort'')) (\<lambda>dnsl. case dnsl of
       Inl err \<Rightarrow> done_with (Some (ErrWrap ''listen DNS'' err))
     | Inr _ \<Rightarrow> next_step (attempt env (Ask ''ListenTCP tcp4'')) (\<lambda>listener4. case listener4 of
         Inl err \<Rightarrow> done_with (Some (ErrWrap ''listen TCP4'' err))
       | Inr _ \<Rightarrow> next_step (attempt env (Ask ''ListenTCP tcp6'')) (\<lambda>listener6. case listener6 of
           Inl err \<Rightarrow> done_with (Some (ErrWrap ''listen TCP6'' err))
         | Inr _ \<Rightarrow> next_step (try_all env [Go ''serve names'', Ask ''HandleFunc'', Go ''Serve listener4'', Go ''Serve listener6'']) (\<lambda>_.
             next_step (attempt env (Receive ''errCh'')) (\<lambda>err. done_with (case err of Inl e \<Rightarrow> Some e | Inr _ \<Rightarrow> None))))))"

definition windows_startHTTPServer :: "host_env \<Rightarrow> go_error option prog" where
  "windows_startHTTPServer env =
     next_step (attempt env (Ask ''ListenUDPAddrPort'')) (\<lambda>dnsl. case dnsl of
       Inl err \<Rightarrow> done_with (Some (ErrWrap ''listen DNS'' err))
     | Inr _ \<Rightarrow> next_step (attempt env (Ask ''ListenTCP tcp4'')) (\<lambda>listener4. case listener4 of
         Inl err \<Rightarrow> done_with (Some (ErrWrap ''listen TCP4'' err))
       | Inr _ \<Rightarrow> next_step (try_all env [Go ''serve names'', Ask ''HandleFunc'']) (\<lambda>_.
           next_step (attempt env (Ask ''Serve listener4'')) (\<lambda>err. done_with (case err of Inl e \<Rightarrow> Some e | Inr _ \<Rightarrow> None)))))"

text \<open>No goroutine is started before every listener is there.\<close>

lemma linux_startHTTPServer_listens:
  assumes "run_state (linux_startHTTPServer env) l = (r, l @ s)" and "(Go f, e) \<in> set s"
  shows "{(Ask ''ListenUDPAddrPort'', None), (Ask ''ListenTCP tcp4'', None), (Ask ''ListenTCP tcp6'', None)} \<subseteq> set s"
  using assms
  by (auto simp: linux_startHTTPServer_def next_step_def try_call_def attempt_def split: option.splits)

section \<open>Properties\<close>

definition datagrams :: "(go_error + byte list) list \<Rightarrow> byte list list" where
  "datagrams turns = concat (map (\<lambda>t. case t of Inl e \<Rightarrow> [] | Inr d \<Rightarrow> [take 512 d]) turns)"

text \<open>What the response to a query is: nil when the query is shorter than a header.\<close>

definition dns_reply :: "byte list \<Rightarrow> byte list \<Rightarrow> bool" where
  "dns_reply q r \<longleftrightarrow> (if length q < 12 then r = []
     else take 4 r = take 2 q @ [0x81, 0x80] \<and> take 4 (drop 8 r) = [0, 0, 0, 0] \<and> 12 \<le> length r \<and> length r \<le> length q + 28)"

lemma serve_names_replies:
  assumes "\<And>query. wf_slice query \<Longrightarrow> \<exists>r. handle query = Some r \<and> dns_reply (vis query) r"
  shows "length buf = 512 \<Longrightarrow> \<exists>rs. serve_names handle buf turns = Some rs \<and> list_all2 dns_reply (datagrams turns) rs"
proof (induction turns arbitrary: buf)
  case (Cons t turns)
  show ?case
  proof (cases t)
    case (Inl e)
    then show ?thesis using Cons by (simp add: datagrams_def)
  next
    case (Inr d)
    define data where "data = take 512 d"
    define q where "q = \<lparr>sarr = data @ drop (length data) buf, slen = length data\<rparr>"
    have q: "sub (of_bytes (data @ drop (length data) buf)) 0 (int (length data)) = Some q" by (simp add: sub_def of_bytes_def q_def)
    have "wf_slice q" "vis q = data" by (simp_all add: q_def wf_slice_def vis_def)
    then obtain r where r: "handle q = Some r" "dns_reply data r" using assms by metis
    have "length (data @ drop (length data) buf) = 512" using Cons.prems by (simp add: data_def)
    from Cons.IH [OF this] obtain rs where "serve_names handle (data @ drop (length data) buf) turns = Some rs" "list_all2 dns_reply (datagrams turns) rs" by blast
    then show ?thesis using r Inr Cons.prems q by (simp add: data_def [symmetric] datagrams_def Let_def)
  qed
qed (simp add: datagrams_def)



text \<open>A socket that is closed is read for ever: no error ends the loop.\<close>

theorem name_server_spins: "linux_serve_names addr4 addr6 (replicate n (Inl ErrClosed) @ turns) = linux_serve_names addr4 addr6 turns"
  unfolding linux_serve_names_def by (induction n) simp_all

end
