(* ===== verification/Spec2Isabelle.thy ===== *)
theory Spec2Isabelle
  imports Linux_Lifecycle Bsd_Lifecycle Write_Read Status_Listeners Rw_Cancel Bsd_Tun Windows_Tun Tuntest Device_Calls Example_Load Example_Serve
begin

text \<open>
  A verification development of the Go package tuntap: TUN devices on Linux, FreeBSD, OpenBSD, macOS and
  Windows behind one interface, with segmentation and coalescing of packets (GSO and GRO) in user space on
  Linux.

  The program. A device hands IP packets to its caller (\<open>Read\<close>) and takes packets from it (\<open>Write\<close>), in buffers
  with room in front of the packet. On Linux the kernel puts a virtio header in front of every frame:
  \<open>Read\<close> splits large frames into packets and completes checksums (\<^verbatim>\<open>offload_linux.go\<close>, \<^verbatim>\<open>checksum.go\<close>,
  \<^verbatim>\<open>tun_linux.go\<close>); \<open>Write\<close> merges the packets of a batch into large frames, tracking them in flow
  tables. Goroutines beside the device turn messages of the kernel into status events; \<^verbatim>\<open>rwcancel\<close> wakes them
  when the device is closed. The other systems have a device each (\<^verbatim>\<open>tun_freebsd.go\<close>, \<^verbatim>\<open>tun_openbsd.go\<close>,
  \<^verbatim>\<open>tun_darwin.go\<close>, \<^verbatim>\<open>tun_windows.go\<close>).

  The theories, bottom up, and what their lemmas show.

  \<^item> \<^verbatim>\<open>Tun_Prelude\<close>: machine types, the Go slice with its capacity and bounds checks, codecs, errors as values, and
    the lemma collections. A run-time panic is \<open>None\<close>, a returned error a value.
  \<^item> \<^verbatim>\<open>Checksum\<close> (\<^verbatim>\<open>checksum.go\<close>): the unrolled 64-bit checksum is the ones'-complement sum, on both byte orders.
    The locale \<open>internet_checksum\<close> is the contract the other theories use, interpreted on \<open>checksum\<close>.
  \<^item> \<^verbatim>\<open>Virtio_Hdr\<close>, \<^verbatim>\<open>Gso_Split\<close>, \<^verbatim>\<open>Gso_Segments\<close> (\<^verbatim>\<open>offload_linux.go\<close>): the header codec, the validation of a GSO frame, and
    \<open>gsoSplit\<close>, which is refined to an abstract list of segments; their payload, fields and checksums.
  \<^item> \<^verbatim>\<open>Virtio_Read\<close> (\<^verbatim>\<open>tun_linux.go\<close>): \<open>handleVirtioRead\<close>, all or nothing for every frame.
  \<^item> \<^verbatim>\<open>Gro_Table\<close>, \<^verbatim>\<open>Gro_Coalesce\<close>, \<^verbatim>\<open>Gro_Engine\<close> (\<^verbatim>\<open>offload_linux.go\<close>): the flow tables with their pools, the checks and
    the merging of two packets, and the loop over a batch with the headers of the coalesced frames.
  \<^item> \<^verbatim>\<open>Gro_Invariant\<close>, \<^verbatim>\<open>Gro_Batch\<close>, \<^verbatim>\<open>Gro_Frames\<close>: the invariant of a batch (no panic, no leaked slice, no two tracked
    packets in one buffer), the accounting, and the validity of the frames for a receiver.
  \<^item> \<^verbatim>\<open>Gro_Payload\<close>, \<^verbatim>\<open>Gro_Roundtrip\<close>, \<^verbatim>\<open>Write_Frames\<close>: the group of packets behind every frame of a batch, and the round trip of the two offloads:
    what \<open>gsoSplit\<close> cuts out of a frame of \<open>handleGRO\<close> are the packets of its group, up to the frames that \<open>Write\<close> hands to the device.
  \<^item> \<^verbatim>\<open>Read_Accepts\<close>, \<^verbatim>\<open>Write_Read\<close>, \<^verbatim>\<open>Gro_Examples\<close>: \<open>Read\<close> accepts what \<open>Write\<close> hands over and gives the packets back; runs of the coalescing on
    concrete packets.
  \<^item> \<^verbatim>\<open>Linux_Tun\<close> (\<^verbatim>\<open>tun_linux.go\<close>): \<open>Read\<close>, \<open>Write\<close>, \<open>writeBatch\<close>, \<open>initFromFlags\<close> over a device that answers call by call.
  \<^item> \<^verbatim>\<open>Device_Calls\<close>: the type of a device, kept by every sequence of calls.
  \<^item> \<^verbatim>\<open>Netlink\<close>, \<^verbatim>\<open>Status_Listeners\<close> (\<^verbatim>\<open>tun_linux.go\<close>): the two status goroutines over runs of kernel answers, and the
    interleaving of their ends with \<open>Close\<close> as a state machine with an invariant.
  \<^item> \<^verbatim>\<open>Rw_Cancel\<close> (\<^verbatim>\<open>rwcancel/rwcancel.go\<close>): waiting, retrying and cancelling; \<open>Close\<close> ends the netlink goroutine.
  \<^item> \<^verbatim>\<open>Os_Calls\<close>, \<^verbatim>\<open>Linux_Lifecycle\<close>, \<^verbatim>\<open>Bsd_Setup\<close>, \<^verbatim>\<open>Bsd_Lifecycle\<close> (\<^verbatim>\<open>tun_linux.go\<close>, \<^verbatim>\<open>tun_freebsd.go\<close>, \<^verbatim>\<open>tun_openbsd.go\<close>,
    \<^verbatim>\<open>tun_darwin.go\<close>, \<^verbatim>\<open>operateonfd.go\<close>): creation, configuration and closing of devices as programs of system calls in a state monad over
    the log of calls, with rules that follow the open descriptors; which descriptors every path leaves open, the device file that
    is opened, and the MTU that is set and read.
  \<^item> \<^verbatim>\<open>Bsd_Tun\<close>: packets and route events of FreeBSD, OpenBSD and macOS.
  \<^item> \<^verbatim>\<open>Windows_Tun\<close>: the rate estimate as interleaved atomic steps, \<open>Read\<close> with bounded spinning, \<open>Write\<close> that drops, and the
    shutdown protocol with any number of callers.
  \<^item> \<^verbatim>\<open>Tuntest\<close> (\<^verbatim>\<open>tuntest/tuntest.go\<close>): the ping generator and the channel device.
  \<^item> \<^verbatim>\<open>Example_Dns\<close> (\<^verbatim>\<open>example/linux/main.go\<close>, \<^verbatim>\<open>example/windows/main.go\<close>): the name server of the examples, which no query makes panic.
  \<^item> \<^verbatim>\<open>Example_Load\<close> (\<^verbatim>\<open>example/linux-pair-load/main.go\<close>, \<^verbatim>\<open>example/windows-pair-load/main.go\<close>): the download handler, the retry loops, which end because
    the clock runs on, and the load client as a machine of workers and channels that always ends.
  \<^item> \<^verbatim>\<open>Example_Netsh\<close>, \<^verbatim>\<open>Example_Setup\<close>, \<^verbatim>\<open>Example_Serve\<close> (\<^verbatim>\<open>example/*/main.go\<close>): subnet masks and interface indices; the main functions as programs of calls
    with deferred functions and fatal exits, and what they leave of their setup; the listeners and the loop over name queries.

  Modelling decisions. Calls into the kernel, Wintun and other packages are parameters: the answer of each call,
  by number or as a run of answers; a run that is used up is a call still blocked. Loops over buffers recurse on
  the list of buffers; loops that wait recurse on the run of answers; so no fuel is needed. Goroutines are actions of a state
  machine, and a schedule is any list of actions. The byte order of the machine is a parameter.

  In the programs of system calls the
  answers may depend on all calls made before, and the goroutines that a constructor starts are steps of the log.

  Not modelled: the contents of kernel structures beyond the fields that a call sets, the system calls behind \<open>net.InterfaceByName\<close>
  and \<open>os.File\<close>, and the addresses of the Windows adapter, which Wintun keeps; of the example programs the flags,
  log messages, web pages and printed rates, and what other programs and the network stacks of other modules do; build stubs and
  constant accessors.
\<close>

end
